(* ===== verification/Prelude.thy ===== *)
theory Prelude
  imports Complex_Main "HOL-Library.Word" "HOL-Library.Multiset"
begin

text \<open>
  Shared vocabulary of the development: the error values of the server's
  \<^verbatim>\<open>elog(ERROR, ...)\<close>, the names of the C types, the collections of facts that
  carry the component proofs, and generic lemmas on lists and folds.

  A C \<^verbatim>\<open>double\<close> (and its synonyms \<^verbatim>\<open>Cost\<close>, \<^verbatim>\<open>Selectivity\<close>) is read as an
  exact real number: comparisons are those of the program, arithmetic has no rounding, and
  infinities and NaN are outside the model. A \<^verbatim>\<open>List *\<close> of the server is a HOL list
  with \<^verbatim>\<open>NIL\<close> the empty list, a nullable pointer is an option, and an object whose
  identity the code compares carries an address.
\<close>

unbundle bit_operations_syntax

named_theorems bms_simps \<open>the Bitmapset operations over the set of members\<close>
named_theorems path_defs \<open>unfolding the comparisons of two paths\<close>
named_theorems planner_defs \<open>unfolding the planner's final choice\<close>

text \<open>
  A failing operation ends in an error value: the message of an \<^verbatim>\<open>elog(ERROR, ...)\<close>, or
  \<open>Undefined\<close> where the C program reads or writes outside an array, follows a null pointer, or
  stores a number that is not finite.
\<close>

datatype pg_error = Elog string | Undefined

type_synonym 'a result = "pg_error + 'a"

fun bind_result :: "'a result \<Rightarrow> ('a \<Rightarrow> 'b result) \<Rightarrow> 'b result" where
  "bind_result (Inl e) f = Inl e"
| "bind_result (Inr x) f = f x"

type_synonym cost = real
type_synonym oid = nat
type_synonym address = nat

lemma bind_result_Inr: "bind_result m f = Inr y \<longleftrightarrow> (\<exists>x. m = Inr x \<and> f x = Inr y)"
  by (cases m) auto

lemma bind_result_Inl: "bind_result m f = Inl e \<longleftrightarrow> m = Inl e \<or> (\<exists>x. m = Inr x \<and> f x = Inl e)"
  by (cases m) auto

lemma bind_result_cong [fundef_cong]:
  "m = n \<Longrightarrow> (\<And>x. n = Inr x \<Longrightarrow> f x = g x) \<Longrightarrow> bind_result m f = bind_result n g"
  by (cases n) auto

lemmas result_simps = bind_result_Inr bind_result_Inl

subsection \<open>Lists\<close>

lemma sorted_wrt_drop_mid: "sorted_wrt P (xs @ y # ys) \<Longrightarrow> sorted_wrt P (xs @ ys)"
  by (auto simp: sorted_wrt_append)

lemma sorted_wrt_insert_mid:
  assumes "sorted_wrt P (xs @ ys)"
    and "\<And>x. x \<in> set xs \<Longrightarrow> P x z" and "\<And>y. y \<in> set ys \<Longrightarrow> P z y"
  shows "sorted_wrt P (xs @ z # ys)"
  using assms by (auto simp: sorted_wrt_append)

lemma distinct_map_append_disjoint:
  "distinct (map f (xs @ ys)) \<Longrightarrow> f ` set xs \<inter> f ` set ys = {}"
  by (auto simp: image_def)

lemma take_Suc_snoc: "n < length xs \<Longrightarrow> take (Suc n) xs = take n xs @ [xs ! n]"
  by (rule take_Suc_conv_app_nth)

subsection \<open>Folds that keep the better of two\<close>

text \<open>
  A loop that replaces its current best by a list element whenever a test says so ends with an
  element of the list or with the start value, and every invariant of the replacement step
  holds of the result.
\<close>

lemma foldl_choice_in:
  assumes "\<And>b x. f b x = b \<or> f b x = x"
  shows "foldl f b xs \<in> insert b (set xs)"
proof (induction xs arbitrary: b)
  case Nil
  show ?case by simp
next
  case (Cons x xs)
  from Cons.IH [of "f b x"] assms [of b x] show ?case by auto
qed

lemma foldl_invariant:
  assumes "P b" and "\<And>b x. x \<in> set xs \<Longrightarrow> P b \<Longrightarrow> P (f b x)"
  shows "P (foldl f b xs)"
  using assms by (induction xs arbitrary: b) auto

text \<open>
  If the step never makes the key of the best grow, and the element just seen is never better
  than the new best, the fold returns a least element for a transitive comparison.
\<close>

lemma foldl_least:
  assumes trans: "\<And>x y z. le x y \<Longrightarrow> le y z \<Longrightarrow> le x z"
    and step: "\<And>b x. le (f b x) b \<and> le (f b x) x"
  shows "(xs = [] \<or> le (foldl f b xs) b) \<and> (\<forall>x \<in> set xs. le (foldl f b xs) x)"
proof (induction xs arbitrary: b)
  case Nil
  show ?case by simp
next
  case (Cons x xs)
  from Cons.IH [of "f b x"] step [of b x] show ?case
    by (cases "xs = []") (auto intro: trans)
qed

end
