(* ===== verification/PgSort.thy ===== *)
theory PgSort
  imports Prelude
begin

text \<open>
  The server's sorting routine \<^verbatim>\<open>pg_qsort\<close> (\<^verbatim>\<open>src/port/qsort.c\<close>; every \<^verbatim>\<open>qsort\<close> of the
  program is this function) and the binary search of the C library as the extension uses it. An array is the
  list of its elements, a pointer into it an index; the pointers \<^verbatim>\<open>pc\<close> and \<^verbatim>\<open>pd\<close>, which
  the code lets run down from the last element, are kept one past, so that all indices are natural numbers.
  The comparator is an argument.

  The lemmas show that the function terminates and sorts: its result is a permutation of its input that is
  ordered by the comparator. A locale states this contract for the code that calls it.
\<close>

type_synonym 'a comparator = "'a \<Rightarrow> 'a \<Rightarrow> int"

definition swap :: "'a list \<Rightarrow> nat \<Rightarrow> nat \<Rightarrow> 'a list" where
  "swap xs a b = (let t = xs ! a in xs[a := xs ! b, b := t])"

text \<open>\<^verbatim>\<open>vecswap(a, b, n)\<close>: swap \<open>n\<close> elements from two places.\<close>

fun vecswap :: "'a list \<Rightarrow> nat \<Rightarrow> nat \<Rightarrow> nat \<Rightarrow> 'a list" where
  "vecswap xs i j 0 = xs"
| "vecswap xs i j (Suc n) = vecswap (swap xs i j) (Suc i) (Suc j) n"

definition med3 :: "'a comparator \<Rightarrow> 'a list \<Rightarrow> nat \<Rightarrow> nat \<Rightarrow> nat \<Rightarrow> nat" where
  "med3 cmp xs a b c =
     (if cmp (xs ! a) (xs ! b) < 0 then
        (if cmp (xs ! b) (xs ! c) < 0 then b else if cmp (xs ! a) (xs ! c) < 0 then c else a)
      else
        (if cmp (xs ! b) (xs ! c) > 0 then b else if cmp (xs ! a) (xs ! c) < 0 then a else c))"

subsection \<open>Insertion sort for short arrays\<close>

fun sift :: "'a comparator \<Rightarrow> 'a list \<Rightarrow> nat \<Rightarrow> 'a list" where
  "sift cmp xs 0 = xs"
| "sift cmp xs (Suc pl) =
     (if cmp (xs ! pl) (xs ! Suc pl) > 0 then sift cmp (swap xs (Suc pl) pl) pl else xs)"

definition insertion_sort :: "'a comparator \<Rightarrow> 'a list \<Rightarrow> 'a list" where
  "insertion_sort cmp xs = foldl (sift cmp) xs [1..<length xs]"

definition presorted :: "'a comparator \<Rightarrow> 'a list \<Rightarrow> bool" where
  "presorted cmp xs \<longleftrightarrow> list_all (\<lambda>pm. \<not> cmp (xs ! (pm - 1)) (xs ! pm) > 0) [1..<length xs]"

definition pivot_index :: "'a comparator \<Rightarrow> 'a list \<Rightarrow> nat" where
  "pivot_index cmp xs =
     (let n = length xs; pm = n div 2 in
      if n > 7 then
        let pl = 0; pn = n - 1;
            d = n div 8;
            (pl, pm, pn) =
              (if n > 40
               then (med3 cmp xs pl (pl + d) (pl + 2 * d), med3 cmp xs (pm - d) pm (pm + d),
                     med3 cmp xs (pn - 2 * d) (pn - d) pn)
               else (pl, pm, pn))
        in med3 cmp xs pl pm pn
      else pm)"

subsection \<open>Partitioning\<close>

text \<open>
  The two inner loops: from the left over elements not greater than the pivot, from the right over elements
  not less; elements equal to the pivot are swapped to the ends.
\<close>

function scan_left :: "'a comparator \<Rightarrow> 'a list \<Rightarrow> nat \<Rightarrow> nat \<Rightarrow> nat \<Rightarrow> 'a list \<times> nat \<times> nat" where
  "scan_left cmp xs pa pb pc =
     (if pb < pc \<and> cmp (xs ! pb) (xs ! 0) \<le> 0 then
        if cmp (xs ! pb) (xs ! 0) = 0 then scan_left cmp (swap xs pa pb) (pa + 1) (pb + 1) pc
        else scan_left cmp xs pa (pb + 1) pc
      else (xs, pa, pb))"
  by pat_completeness auto
termination
  by (relation "measure (\<lambda>(cmp, xs, pa, pb, pc). pc - pb)") auto

function scan_right :: "'a comparator \<Rightarrow> 'a list \<Rightarrow> nat \<Rightarrow> nat \<Rightarrow> nat \<Rightarrow> 'a list \<times> nat \<times> nat" where
  "scan_right cmp xs pb pc pd =
     (if pb < pc \<and> cmp (xs ! (pc - 1)) (xs ! 0) \<ge> 0 then
        if cmp (xs ! (pc - 1)) (xs ! 0) = 0 then scan_right cmp (swap xs (pc - 1) (pd - 1)) pb (pc - 1) (pd - 1)
        else scan_right cmp xs pb (pc - 1) pd
      else (xs, pc, pd))"
  by pat_completeness auto
termination
  by (relation "measure (\<lambda>(cmp, xs, pb, pc, pd). pc - pb)") auto

declare scan_left.simps [simp del] scan_right.simps [simp del]

lemma scan_left_cases:
  obtains (equal) "pb < pc" "cmp (xs ! pb) (xs ! 0) = 0"
      "scan_left cmp xs pa pb pc = scan_left cmp (swap xs pa pb) (pa + 1) (pb + 1) pc"
    | (less) "pb < pc" "cmp (xs ! pb) (xs ! 0) < 0" "scan_left cmp xs pa pb pc = scan_left cmp xs pa (pb + 1) pc"
    | (stop) "\<not> (pb < pc \<and> cmp (xs ! pb) (xs ! 0) \<le> 0)" "scan_left cmp xs pa pb pc = (xs, pa, pb)"
proof (cases "pb < pc \<and> cmp (xs ! pb) (xs ! 0) \<le> 0")
  case True
  show thesis
  proof (cases "cmp (xs ! pb) (xs ! 0) = 0")
    case z: True
    then show thesis using True by (intro equal) (simp_all add: scan_left.simps [of cmp xs pa pb pc])
  next
    case False
    then show thesis using True by (intro less) (simp_all add: scan_left.simps [of cmp xs pa pb pc])
  qed
next
  case False
  then show thesis by (intro stop) (auto simp: scan_left.simps [of cmp xs pa pb pc])
qed

lemma scan_right_cases:
  obtains (equal) "pb < pc" "cmp (xs ! (pc - 1)) (xs ! 0) = 0"
      "scan_right cmp xs pb pc pd = scan_right cmp (swap xs (pc - 1) (pd - 1)) pb (pc - 1) (pd - 1)"
    | (greater) "pb < pc" "cmp (xs ! (pc - 1)) (xs ! 0) > 0" "scan_right cmp xs pb pc pd = scan_right cmp xs pb (pc - 1) pd"
    | (stop) "\<not> (pb < pc \<and> cmp (xs ! (pc - 1)) (xs ! 0) \<ge> 0)" "scan_right cmp xs pb pc pd = (xs, pc, pd)"
proof (cases "pb < pc \<and> cmp (xs ! (pc - 1)) (xs ! 0) \<ge> 0")
  case True
  show thesis
  proof (cases "cmp (xs ! (pc - 1)) (xs ! 0) = 0")
    case z: True
    then show thesis using True by (intro equal) (simp_all add: scan_right.simps [of cmp xs pb pc pd])
  next
    case False
    then show thesis using True by (intro greater) (simp_all add: scan_right.simps [of cmp xs pb pc pd])
  qed
next
  case False
  then show thesis by (intro stop) (auto simp: scan_right.simps [of cmp xs pb pc pd])
qed

lemma scan_left_bounds:
  "scan_left cmp xs pa pb pc = (xs', pa', pb') \<Longrightarrow> pa \<le> pa' \<and> pb \<le> pb' \<and> pb' \<le> max pb pc"
proof (induction "pc - pb" arbitrary: xs pa pb rule: less_induct)
  case step: less
  show ?case
  proof (cases cmp xs pa pb pc rule: scan_left_cases)
    case equal
    then have "scan_left cmp (swap xs pa pb) (pa + 1) (pb + 1) pc = (xs', pa', pb')" using step.prems by simp
    from step.hyps [OF _ this] equal(1) show ?thesis by linarith
  next
    case less
    then have "scan_left cmp xs pa (pb + 1) pc = (xs', pa', pb')" using step.prems by simp
    from step.hyps [OF _ this] less(1) show ?thesis by linarith
  next
    case stop
    then show ?thesis using step.prems by simp
  qed
qed

lemma scan_right_bounds:
  "scan_right cmp xs pb pc pd = (xs', pc', pd') \<Longrightarrow> pc' \<le> pc \<and> min pb pc \<le> pc' \<and> pd' \<le> pd"
proof (induction "pc - pb" arbitrary: xs pc pd rule: less_induct)
  case step: less
  show ?case
  proof (cases cmp xs pb pc pd rule: scan_right_cases)
    case equal
    then have "scan_right cmp (swap xs (pc - 1) (pd - 1)) pb (pc - 1) (pd - 1) = (xs', pc', pd')" using step.prems by simp
    from step.hyps [OF _ this] equal(1) show ?thesis by linarith
  next
    case greater
    then have "scan_right cmp xs pb (pc - 1) pd = (xs', pc', pd')" using step.prems by simp
    from step.hyps [OF _ this] greater(1) show ?thesis by linarith
  next
    case stop
    then show ?thesis using step.prems by simp
  qed
qed

function partition_loop ::
  "'a comparator \<Rightarrow> 'a list \<Rightarrow> nat \<Rightarrow> nat \<Rightarrow> nat \<Rightarrow> nat \<Rightarrow> 'a list \<times> nat \<times> nat \<times> nat \<times> nat" where
  "partition_loop cmp xs pa pb pc pd =
     (case scan_left cmp xs pa pb pc of (xs, pa, pb) \<Rightarrow>
      case scan_right cmp xs pb pc pd of (xs, pc, pd) \<Rightarrow>
        if pb \<ge> pc then (xs, pa, pb, pc, pd)
        else partition_loop cmp (swap xs pb (pc - 1)) pa (pb + 1) (pc - 1) pd)"
  by pat_completeness auto
termination
proof (relation "measure (\<lambda>(cmp, xs, pa, pb, pc, pd). pc - pb)")
  fix cmp :: "'a comparator" and xs pa pb pc pd xs1 pa1b pa1 pb1 xs2 pc2b pc2 pd2
  assume "(xs1, pa1b) = scan_left cmp xs pa pb pc" "(pa1, pb1) = pa1b"
    "(xs2, pc2b) = scan_right cmp xs1 pb1 pc pd" "(pc2, pd2) = pc2b" and ge: "\<not> pb1 \<ge> pc2"
  then have "scan_left cmp xs pa pb pc = (xs1, pa1, pb1)" "scan_right cmp xs1 pb1 pc pd = (xs2, pc2, pd2)" by auto
  then have "pb \<le> pb1" "pc2 \<le> pc" by (auto dest: scan_left_bounds scan_right_bounds)
  then show "((cmp, swap xs2 pb1 (pc2 - 1), pa1, pb1 + 1, pc2 - 1, pd2), cmp, xs, pa, pb, pc, pd)
      \<in> measure (\<lambda>(cmp, xs, pa, pb, pc, pd). pc - pb)" using ge by auto
qed auto

declare partition_loop.simps [simp del]

text \<open>The array after partitioning, with the lengths of its parts below and above the pivot.\<close>

definition partition_array :: "'a comparator \<Rightarrow> 'a list \<Rightarrow> 'a list \<times> nat \<times> nat" where
  "partition_array cmp xs =
     (let n = length xs;
          xs = swap xs 0 (pivot_index cmp xs);
          (xs, pa, pb, pc, pd) = partition_loop cmp xs 1 1 n n;
          d1 = min pa (pb - pa);
          xs = vecswap xs 0 (pb - d1) d1;
          d1 = min (pd - pc) (n - pd);
          xs = vecswap xs pb (n - d1) d1
      in (xs, pb - pa, pd - pc))"

subsection \<open>Permutations\<close>

lemma length_swap [simp]: "length (swap xs a b) = length xs"
  by (simp add: swap_def Let_def)

lemma mset_swap: "a < length xs \<Longrightarrow> b < length xs \<Longrightarrow> mset (swap xs a b) = mset xs"
  unfolding swap_def Let_def by (rule Multiset.mset_swap)

lemma swap_nth:
  assumes "a < length xs" "b < length xs"
  shows "swap xs a b ! k = (if k = b then xs ! a else if k = a then xs ! b else xs ! k)"
  using assms by (simp add: swap_def Let_def nth_list_update)

lemma length_vecswap [simp]: "length (vecswap xs i j n) = length xs"
  by (induction xs i j n rule: vecswap.induct) auto

lemma mset_vecswap: "i + n \<le> length xs \<Longrightarrow> j + n \<le> length xs \<Longrightarrow> mset (vecswap xs i j n) = mset xs"
  by (induction xs i j n rule: vecswap.induct) (auto simp: mset_swap)

lemma vecswap_other:
  "i + n \<le> j \<Longrightarrow> j + n \<le> length xs \<Longrightarrow> k < i \<or> i + n \<le> k \<Longrightarrow> k < j \<or> j + n \<le> k \<Longrightarrow> vecswap xs i j n ! k = xs ! k"
proof (induction n arbitrary: xs i j)
  case (Suc n)
  then have "vecswap (swap xs i j) (Suc i) (Suc j) n ! k = swap xs i j ! k" by (intro Suc.IH) auto
  also have "\<dots> = xs ! k" using Suc.prems by (auto simp: swap_nth)
  finally show ?case by simp
qed simp

lemma vecswap_first: "i + n \<le> j \<Longrightarrow> j + n \<le> length xs \<Longrightarrow> k < n \<Longrightarrow> vecswap xs i j n ! (i + k) = xs ! (j + k)"
proof (induction n arbitrary: xs i j k)
  case (Suc n)
  show ?case
  proof (cases k)
    case 0
    then show ?thesis using Suc.prems vecswap_other [of "Suc i" n "Suc j" "swap xs i j" i] by (simp add: swap_nth)
  next
    case (Suc k')
    then show ?thesis using Suc.IH [of "Suc i" "Suc j" "swap xs i j" k'] Suc.prems by (simp add: swap_nth)
  qed
qed simp

lemma vecswap_second: "i + n \<le> j \<Longrightarrow> j + n \<le> length xs \<Longrightarrow> k < n \<Longrightarrow> vecswap xs i j n ! (j + k) = xs ! (i + k)"
proof (induction n arbitrary: xs i j k)
  case (Suc n)
  show ?case
  proof (cases k)
    case 0
    then show ?thesis using Suc.prems vecswap_other [of "Suc i" n "Suc j" "swap xs i j" j] by (simp add: swap_nth)
  next
    case (Suc k')
    then show ?thesis using Suc.IH [of "Suc i" "Suc j" "swap xs i j" k'] Suc.prems by (simp add: swap_nth)
  qed
qed simp

lemma partition_loop_bounds:
  assumes "partition_loop cmp xs pa pb pc pd = (xs', pa', pb', pc', pd')" "1 \<le> pa" "1 \<le> pb" "1 \<le> pc"
    "pb \<le> n" "pc \<le> n" "pd \<le> n"
  shows "1 \<le> pa' \<and> pb' \<le> n \<and> 1 \<le> pc' \<and> pd' \<le> n"
  using assms
proof (induction cmp xs pa pb pc pd rule: partition_loop.induct)
  case (1 cmp xs pa pb pc pd)
  obtain xs1 pa1 pb1 where l: "scan_left cmp xs pa pb pc = (xs1, pa1, pb1)" by (metis prod_cases3)
  obtain xs2 pc2 pd2 where r: "scan_right cmp xs1 pb1 pc pd = (xs2, pc2, pd2)" by (metis prod_cases3)
  have b: "pa \<le> pa1" "pb \<le> pb1" "pb1 \<le> max pb pc" "pc2 \<le> pc" "min pb1 pc \<le> pc2" "pd2 \<le> pd"
    using scan_left_bounds [OF l] scan_right_bounds [OF r] by auto
  show ?case
  proof (cases "pb1 \<ge> pc2")
    case True
    then have "pa' = pa1" "pb' = pb1" "pc' = pc2" "pd' = pd2"
      using "1.prems"(1) l r by (simp_all add: partition_loop.simps [of cmp xs pa pb pc pd])
    then show ?thesis using b "1.prems" by auto
  next
    case False
    then have "partition_loop cmp (swap xs2 pb1 (pc2 - 1)) pa1 (pb1 + 1) (pc2 - 1) pd2 = (xs', pa', pb', pc', pd')"
      using "1.prems"(1) l r by (simp add: partition_loop.simps [of cmp xs pa pb pc pd])
    from "1.IH" [OF l [symmetric] refl r [symmetric] refl False this] show ?thesis
      using b "1.prems" False by auto
  qed
qed

lemma length_scan_left: "scan_left cmp xs pa pb pc = (xs', pa', pb') \<Longrightarrow> length xs' = length xs"
proof (induction "pc - pb" arbitrary: xs pa pb rule: less_induct)
  case step: less
  show ?case
  proof (cases cmp xs pa pb pc rule: scan_left_cases)
    case equal
    then have "scan_left cmp (swap xs pa pb) (pa + 1) (pb + 1) pc = (xs', pa', pb')" using step.prems by simp
    from step.hyps [OF _ this] equal(1) show ?thesis by simp
  next
    case less
    then have "scan_left cmp xs pa (pb + 1) pc = (xs', pa', pb')" using step.prems by simp
    from step.hyps [OF _ this] less(1) show ?thesis by simp
  qed (use step.prems in simp)
qed

lemma length_scan_right: "scan_right cmp xs pb pc pd = (xs', pc', pd') \<Longrightarrow> length xs' = length xs"
proof (induction "pc - pb" arbitrary: xs pc pd rule: less_induct)
  case step: less
  show ?case
  proof (cases cmp xs pb pc pd rule: scan_right_cases)
    case equal
    then have "scan_right cmp (swap xs (pc - 1) (pd - 1)) pb (pc - 1) (pd - 1) = (xs', pc', pd')" using step.prems by simp
    from step.hyps [OF _ this] equal(1) show ?thesis by simp
  next
    case greater
    then have "scan_right cmp xs pb (pc - 1) pd = (xs', pc', pd')" using step.prems by simp
    from step.hyps [OF _ this] greater(1) show ?thesis by simp
  qed (use step.prems in simp)
qed

lemma length_partition_loop:
  "partition_loop cmp xs pa pb pc pd = (xs', pa', pb', pc', pd') \<Longrightarrow> length xs' = length xs"
proof (induction cmp xs pa pb pc pd rule: partition_loop.induct)
  case (1 cmp xs pa pb pc pd)
  obtain xs1 pa1 pb1 where l: "scan_left cmp xs pa pb pc = (xs1, pa1, pb1)" by (metis prod_cases3)
  obtain xs2 pc2 pd2 where r: "scan_right cmp xs1 pb1 pc pd = (xs2, pc2, pd2)" by (metis prod_cases3)
  have len: "length xs2 = length xs" using length_scan_left [OF l] length_scan_right [OF r] by simp
  show ?case
  proof (cases "pb1 \<ge> pc2")
    case True
    then show ?thesis using 1(2) l r len by (simp add: partition_loop.simps [of cmp xs pa pb pc pd])
  next
    case False
    then have "partition_loop cmp (swap xs2 pb1 (pc2 - 1)) pa1 (pb1 + 1) (pc2 - 1) pd2 = (xs', pa', pb', pc', pd')"
      using 1(2) l r by (simp add: partition_loop.simps [of cmp xs pa pb pc pd])
    from 1(1) [OF l [symmetric] refl r [symmetric] refl False this] show ?thesis using len by simp
  qed
qed

lemma partition_array_sizes:
  assumes "partition_array cmp xs = (ys, d1, d2)" "xs \<noteq> []"
  shows "length ys = length xs" "d1 < length xs" "d2 < length xs"
proof -
  obtain zs pa pb pc pd
    where loop: "partition_loop cmp (swap xs 0 (pivot_index cmp xs)) 1 1 (length xs) (length xs) = (zs, pa, pb, pc, pd)"
    by (metis prod_cases5)
  have "1 \<le> length xs" using assms(2) by (simp add: Suc_leI)
  then have "1 \<le> pa" "pb \<le> length xs" "1 \<le> pc" "pd \<le> length xs"
    using partition_loop_bounds [OF loop, of "length xs"] by simp_all
  moreover have "d1 = pb - pa" "d2 = pd - pc" using assms(1) loop by (simp_all add: partition_array_def Let_def)
  ultimately show "d1 < length xs" "d2 < length xs" using \<open>1 \<le> length xs\<close> by simp_all
  show "length ys = length xs"
    using assms(1) loop length_partition_loop [OF loop] by (auto simp: partition_array_def Let_def)
qed

subsection \<open>The sorting function\<close>

text \<open>
  The two parts are disjoint stretches of the array, so that it does not matter that the code sorts the
  shorter one first and iterates on the longer one.
\<close>

function pg_qsort :: "'a comparator \<Rightarrow> 'a list \<Rightarrow> 'a list" where
  "pg_qsort cmp xs =
     (if length xs < 7 then insertion_sort cmp xs
      else if presorted cmp xs then xs
      else
        (case partition_array cmp xs of (ys, d1, d2) \<Rightarrow>
           (if d1 > 1 then pg_qsort cmp (take d1 ys) else take d1 ys) @
           take (length ys - d2 - d1) (drop d1 ys) @
           (if d2 > 1 then pg_qsort cmp (drop (length ys - d2) ys) else drop (length ys - d2) ys)))"
  by pat_completeness auto
termination
proof (relation "measure (\<lambda>(cmp, xs). length xs)")
  fix cmp :: "'a comparator" and xs ys d12 d1 d2
  assume "\<not> length xs < 7" "(ys, d12) = partition_array cmp xs" "(d1, d2) = d12"
  then have p: "partition_array cmp xs = (ys, d1, d2)" "xs \<noteq> []" by auto
  note sizes = partition_array_sizes [OF p]
  then show "((cmp, take d1 ys), cmp, xs) \<in> measure (\<lambda>(cmp, xs). length xs)"
    "((cmp, drop (length ys - d2) ys), cmp, xs) \<in> measure (\<lambda>(cmp, xs). length xs)" by auto
qed auto

declare pg_qsort.simps [simp del]

subsection \<open>Exchanging two adjacent stretches\<close>

lemma vecswap_exchange:
  assumes "a \<le> m" "m \<le> b" "b \<le> length xs" "d = min (m - a) (b - m)"
    and P: "\<forall>i. a \<le> i \<and> i < m \<longrightarrow> P (xs ! i)" and Q: "\<forall>i. m \<le> i \<and> i < b \<longrightarrow> Q (xs ! i)"
  shows "\<forall>i. a \<le> i \<and> i < a + (b - m) \<longrightarrow> Q (vecswap xs a (b - d) d ! i)"
    and "\<forall>i. a + (b - m) \<le> i \<and> i < b \<longrightarrow> P (vecswap xs a (b - d) d ! i)"
proof -
  have dle: "d \<le> m - a" "d \<le> b - m" and dcase: "d = m - a \<or> d = b - m" using assms(4) by auto
  have d: "a + d \<le> b - d" "b - d + d = b" "b - d + d \<le> length xs" using assms(1-3) dle by auto
  have split: "i < a + (b - m) \<and> Q (vecswap xs a (b - d) d ! i) \<or> a + (b - m) \<le> i \<and> P (vecswap xs a (b - d) d ! i)"
    if i: "a \<le> i" "i < b" for i
  proof -
    consider "i < a + d" | "a + d \<le> i" "i < b - d" | "b - d \<le> i" by linarith
    then show ?thesis
    proof cases
      case 1
      then have "vecswap xs a (b - d) d ! i = xs ! (b - d + (i - a))"
        using vecswap_first [OF d(1, 3), of "i - a"] i by simp
      moreover have "m \<le> b - d + (i - a)" "b - d + (i - a) < b" "i < a + (b - m)" using 1 i assms(1-3) dle by auto
      ultimately show ?thesis using Q by simp
    next
      case 2
      then have "vecswap xs a (b - d) d ! i = xs ! i" using vecswap_other [OF d(1, 3), of i] by simp
      then show ?thesis using 2 P Q assms(1-3) dcase by auto
    next
      case 3
      then have "vecswap xs a (b - d) d ! i = xs ! (a + (i - (b - d)))"
        using vecswap_second [OF d(1, 3), of "i - (b - d)"] i d(2) by simp
      moreover have "a \<le> a + (i - (b - d))" "a + (i - (b - d)) < m" "a + (b - m) \<le> i" using 3 i assms(1-3) dle by auto
      ultimately show ?thesis using P by simp
    qed
  qed
  show "\<forall>i. a \<le> i \<and> i < a + (b - m) \<longrightarrow> Q (vecswap xs a (b - d) d ! i)"
    using split assms(1, 2) by fastforce
  show "\<forall>i. a + (b - m) \<le> i \<and> i < b \<longrightarrow> P (vecswap xs a (b - d) d ! i)"
  proof (intro allI impI)
    fix i assume "a + (b - m) \<le> i \<and> i < b"
    then show "P (vecswap xs a (b - d) d ! i)" using split [of i] by linarith
  qed
qed

subsection \<open>Correctness for every total preorder\<close>

locale total_comparator =
  fixes cmp :: "'a comparator"
  assumes cmp_swap: "cmp x y < 0 \<longleftrightarrow> 0 < cmp y x"
    and cmp_trans: "cmp x y \<le> 0 \<Longrightarrow> cmp y z \<le> 0 \<Longrightarrow> cmp x z \<le> 0"
begin

abbreviation le :: "'a \<Rightarrow> 'a \<Rightarrow> bool" where
  "le x y \<equiv> cmp x y \<le> 0"

lemma cmp_refl [simp]: "cmp x x = 0"
  using cmp_swap [of x x] by linarith

lemma transp_le: "transp le"
  using cmp_trans by (blast intro: transpI)

lemma le_of_less: "cmp x p < 0 \<Longrightarrow> cmp y p \<ge> 0 \<Longrightarrow> le x y"
  using cmp_trans [of x p y] cmp_swap [of y p] cmp_swap [of p y] by linarith

lemma le_of_greater: "cmp y p > 0 \<Longrightarrow> cmp x p \<le> 0 \<Longrightarrow> le x y"
  using cmp_trans [of x p y] cmp_swap [of p y] by linarith

lemma le_of_equal: "cmp x p = 0 \<Longrightarrow> cmp y p = 0 \<Longrightarrow> le x y"
  using cmp_trans [of x p y] cmp_swap [of y p] cmp_swap [of p y] by linarith

paragraph \<open>Short and sorted arrays\<close>

lemma sift_insert:
  "sorted_wrt le as \<Longrightarrow>
     \<exists>cs. sift cmp (as @ x # bs) (length as) = cs @ bs \<and> mset cs = mset (as @ [x]) \<and> sorted_wrt le cs"
proof (induction as arbitrary: x bs rule: rev_induct)
  case (snoc y as)
  have nth: "(as @ y # x # bs) ! length as = y" "(as @ y # x # bs) ! Suc (length as) = x"
    by (simp_all add: nth_append)
  have swp: "swap (as @ y # x # bs) (Suc (length as)) (length as) = as @ x # y # bs"
    by (simp add: swap_def Let_def nth list_update_append)
  show ?case
  proof (cases "cmp y x > 0")
    case True
    obtain cs where cs: "sift cmp (as @ x # y # bs) (length as) = cs @ y # bs" "mset cs = mset (as @ [x])" "sorted_wrt le cs"
      using snoc.IH [of x "y # bs"] snoc.prems by (auto simp: sorted_wrt_append)
    have "set cs = set (as @ [x])" using cs(2) by (metis set_mset_mset)
    then have "sorted_wrt le (cs @ [y])"
      using cs(3) snoc.prems True cmp_swap [of x y] by (auto simp: sorted_wrt_append)
    then show ?thesis using cs(1, 2) True nth swp by (intro exI [of _ "cs @ [y]"]) simp
  next
    case False
    then have "sorted_wrt le (as @ [y, x])"
      using snoc.prems cmp_trans [of _ y x] by (auto simp: sorted_wrt_append)
    then show ?thesis using False nth by (intro exI [of _ "as @ [y, x]"]) simp
  qed
qed simp

lemma insertion_sort_loop:
  "k \<le> length xs \<Longrightarrow> \<exists>cs. foldl (sift cmp) xs [1..<k] = cs @ drop k xs \<and> mset cs = mset (take k xs) \<and> sorted_wrt le cs"
proof (induction k)
  case (Suc k)
  then obtain cs where cs: "foldl (sift cmp) xs [1..<k] = cs @ drop k xs" "mset cs = mset (take k xs)" "sorted_wrt le cs"
    by auto
  have len: "length cs = k" using cs(2) Suc.prems by (metis length_take min.absorb2 size_mset Suc_leD)
  have drop: "drop k xs = xs ! k # drop (Suc k) xs" using Suc.prems by (simp add: Cons_nth_drop_Suc)
  obtain ds where ds: "sift cmp (cs @ xs ! k # drop (Suc k) xs) (length cs) = ds @ drop (Suc k) xs"
    "mset ds = mset (cs @ [xs ! k])" "sorted_wrt le ds"
    using sift_insert [OF cs(3)] by blast
  have mset: "mset ds = mset (take (Suc k) xs)" using ds(2) cs(2) Suc.prems by (simp add: take_Suc_conv_app_nth)
  show ?case
  proof (cases "k = 0")
    case True
    then show ?thesis using Suc.prems by (intro exI [of _ "take 1 xs"]) (cases xs, auto)
  next
    case False
    then have "foldl (sift cmp) xs [1..<Suc k] = ds @ drop (Suc k) xs" using cs(1) ds(1) len drop by simp
    then show ?thesis using mset ds(3) by blast
  qed
qed simp

lemma insertion_sort_sorts: "mset (insertion_sort cmp xs) = mset xs \<and> sorted_wrt le (insertion_sort cmp xs)"
  using insertion_sort_loop [of "length xs" xs] by (auto simp: insertion_sort_def)

lemma presorted_sorted: "presorted cmp xs \<longleftrightarrow> sorted_wrt le xs"
proof -
  have "presorted cmp xs \<longleftrightarrow> (\<forall>i. Suc i < length xs \<longrightarrow> le (xs ! i) (xs ! Suc i))"
  proof
    assume pre: "presorted cmp xs"
    show "\<forall>i. Suc i < length xs \<longrightarrow> le (xs ! i) (xs ! Suc i)"
    proof (intro allI impI)
      fix i assume "Suc i < length xs"
      then have "Suc i \<in> set [1..<length xs]" by simp
      then show "le (xs ! i) (xs ! Suc i)" using pre unfolding presorted_def list_all_iff by fastforce
    qed
  next
    assume adj: "\<forall>i. Suc i < length xs \<longrightarrow> le (xs ! i) (xs ! Suc i)"
    have "\<not> cmp (xs ! (pm - 1)) (xs ! pm) > 0" if "pm \<in> set [1..<length xs]" for pm
      using that adj [rule_format, of "pm - 1"] by auto
    then show "presorted cmp xs" unfolding presorted_def list_all_iff by blast
  qed
  then show ?thesis using sorted_wrt_iff_nth_Suc_transp [OF transp_le, of xs] by simp
qed

paragraph \<open>The regions of the array during partitioning\<close>

definition regions :: "'a \<Rightarrow> 'a list \<Rightarrow> nat \<Rightarrow> nat \<Rightarrow> nat \<Rightarrow> nat \<Rightarrow> bool" where
  "regions p xs pa pb pc pd \<longleftrightarrow>
     1 \<le> pa \<and> pa \<le> pb \<and> pb \<le> pc \<and> pc \<le> pd \<and> pd \<le> length xs \<and> xs ! 0 = p \<and>
     (\<forall>i < pa. cmp (xs ! i) p = 0) \<and> (\<forall>i. pa \<le> i \<and> i < pb \<longrightarrow> cmp (xs ! i) p < 0) \<and>
     (\<forall>i. pc \<le> i \<and> i < pd \<longrightarrow> cmp (xs ! i) p > 0) \<and> (\<forall>i. pd \<le> i \<and> i < length xs \<longrightarrow> cmp (xs ! i) p = 0)"

lemma regions_equal_left:
  assumes "regions p xs pa pb pc pd" "pb < pc" "cmp (xs ! pb) p = 0"
  shows "regions p (swap xs pa pb) (pa + 1) (pb + 1) pc pd"
  using assms unfolding regions_def by (auto simp: swap_nth less_Suc_eq)

lemma regions_less:
  assumes "regions p xs pa pb pc pd" "pb < pc" "cmp (xs ! pb) p < 0"
  shows "regions p xs pa (pb + 1) pc pd"
  using assms unfolding regions_def by (auto simp: less_Suc_eq)

lemma regions_equal_right:
  assumes "regions p xs pa pb pc pd" "pb < pc" "cmp (xs ! (pc - 1)) p = 0"
  shows "regions p (swap xs (pc - 1) (pd - 1)) pa pb (pc - 1) (pd - 1)"
proof -
  have bounds: "pc - 1 < length xs" "pd - 1 < length xs" "pb \<le> pc - 1" "pc - 1 \<le> pd - 1" using assms(1, 2) by (auto simp: regions_def)
  have "cmp (swap xs (pc - 1) (pd - 1) ! i) p > 0" if i: "pc - 1 \<le> i" "i < pd - 1" for i
  proof (cases "i = pc - 1")
    case True
    then show ?thesis using i assms bounds by (auto simp: regions_def swap_nth)
  next
    case False
    then have "pc \<le> i" "i < pd" using i by auto
    then show ?thesis using False i assms(1) bounds by (simp add: regions_def swap_nth)
  qed
  moreover have "cmp (swap xs (pc - 1) (pd - 1) ! i) p = 0" if "pd - 1 \<le> i" "i < length xs" for i
    using that assms bounds by (cases "i = pd - 1") (auto simp: regions_def swap_nth)
  ultimately show ?thesis using assms bounds unfolding regions_def by (auto simp: swap_nth)
qed

lemma regions_greater:
  assumes "regions p xs pa pb pc pd" "pb < pc" "cmp (xs ! (pc - 1)) p > 0"
  shows "regions p xs pa pb (pc - 1) pd"
proof -
  have "cmp (xs ! i) p > 0" if "pc - 1 \<le> i" "i < pd" for i
    using assms that by (cases "i = pc - 1") (auto simp: regions_def)
  then show ?thesis using assms unfolding regions_def by auto
qed

lemma regions_exchange:
  assumes "regions p xs pa pb pc pd" "pb < pc" "cmp (xs ! pb) p > 0" "cmp (xs ! (pc - 1)) p < 0"
  shows "regions p (swap xs pb (pc - 1)) pa (pb + 1) (pc - 1) pd"
proof -
  have ne: "pb \<noteq> pc - 1" using assms(3, 4) by auto
  have bounds: "pb < length xs" "pc - 1 < length xs" "pb + 1 \<le> pc - 1" using assms(1, 2) ne by (auto simp: regions_def)
  have "cmp (swap xs pb (pc - 1) ! i) p > 0" if "pc - 1 \<le> i" "i < pd" for i
    using assms that bounds by (cases "i = pc - 1") (auto simp: regions_def swap_nth)
  moreover have "cmp (swap xs pb (pc - 1) ! i) p < 0" if "pa \<le> i" "i < pb + 1" for i
    using assms that bounds by (cases "i = pb") (auto simp: regions_def swap_nth)
  ultimately show ?thesis using assms bounds unfolding regions_def by (auto simp: swap_nth)
qed

lemma regions_mset:
  "regions p xs pa pb pc pd \<Longrightarrow> pb < pc \<Longrightarrow> mset (swap xs pa pb) = mset xs \<and>
     mset (swap xs (pc - 1) (pd - 1)) = mset xs \<and> mset (swap xs pb (pc - 1)) = mset xs"
  by (auto simp: regions_def intro!: mset_swap)

lemma scan_left_regions:
  "scan_left cmp xs pa pb pc = (xs', pa', pb') \<Longrightarrow> regions p xs pa pb pc pd \<Longrightarrow>
     regions p xs' pa' pb' pc pd \<and> mset xs' = mset xs \<and> (pb' < pc \<longrightarrow> cmp (xs' ! pb') p > 0)"
proof (induction "pc - pb" arbitrary: xs pa pb rule: less_induct)
  case step: less
  have p: "xs ! 0 = p" using step.prems(2) by (simp add: regions_def)
  show ?case
  proof (cases cmp xs pa pb pc rule: scan_left_cases)
    case equal
    then have "scan_left cmp (swap xs pa pb) (pa + 1) (pb + 1) pc = (xs', pa', pb')" using step.prems by simp
    from step.hyps [OF _ this] regions_equal_left [OF step.prems(2)] equal(1, 2) p show ?thesis
      using regions_mset [OF step.prems(2)] by simp
  next
    case less
    then have "scan_left cmp xs pa (pb + 1) pc = (xs', pa', pb')" using step.prems by simp
    from step.hyps [OF _ this] regions_less [OF step.prems(2)] less(1, 2) p show ?thesis by simp
  next
    case stop
    then show ?thesis using step.prems p by auto
  qed
qed

lemma scan_right_regions:
  "scan_right cmp xs pb pc pd = (xs', pc', pd') \<Longrightarrow> regions p xs pa pb pc pd \<Longrightarrow>
     regions p xs' pa pb pc' pd' \<and> mset xs' = mset xs \<and> (pb < pc' \<longrightarrow> cmp (xs' ! (pc' - 1)) p < 0 \<and> xs' ! pb = xs ! pb)"
proof (induction "pc - pb" arbitrary: xs pc pd rule: less_induct)
  case step: less
  have p: "xs ! 0 = p" using step.prems(2) by (simp add: regions_def)
  show ?case
  proof (cases cmp xs pb pc pd rule: scan_right_cases)
    case equal
    then have eq: "scan_right cmp (swap xs (pc - 1) (pd - 1)) pb (pc - 1) (pd - 1) = (xs', pc', pd')" using step.prems by simp
    have "swap xs (pc - 1) (pd - 1) ! pb = xs ! pb" if "pb < pc - 1"
      using that step.prems(2) by (auto simp: regions_def swap_nth)
    moreover have "pc' \<le> pc - 1" using scan_right_bounds [OF eq] by simp
    ultimately show ?thesis
      using step.hyps [OF _ eq] regions_equal_right [OF step.prems(2)] equal(1, 2) p regions_mset [OF step.prems(2)] by simp
  next
    case greater
    then have "scan_right cmp xs pb (pc - 1) pd = (xs', pc', pd')" using step.prems by simp
    from step.hyps [OF _ this] regions_greater [OF step.prems(2)] greater(1, 2) p show ?thesis by simp
  next
    case stop
    then show ?thesis using step.prems p by auto
  qed
qed

lemma partition_loop_regions:
  "partition_loop cmp xs pa pb pc pd = (xs', pa', pb', pc', pd') \<Longrightarrow> regions p xs pa pb pc pd \<Longrightarrow>
     regions p xs' pa' pb' pc' pd' \<and> pb' = pc' \<and> mset xs' = mset xs"
proof (induction "pc - pb" arbitrary: xs pa pb pc pd rule: less_induct)
  case less
  obtain xs1 pa1 pb1 where l: "scan_left cmp xs pa pb pc = (xs1, pa1, pb1)" by (metis prod_cases3)
  obtain xs2 pc2 pd2 where r: "scan_right cmp xs1 pb1 pc pd = (xs2, pc2, pd2)" by (metis prod_cases3)
  have 1: "regions p xs1 pa1 pb1 pc pd" "mset xs1 = mset xs" "pb1 < pc \<longrightarrow> cmp (xs1 ! pb1) p > 0"
    using scan_left_regions [OF l less.prems(2)] by auto
  have 2: "regions p xs2 pa1 pb1 pc2 pd2" "mset xs2 = mset xs"
    "pb1 < pc2 \<longrightarrow> cmp (xs2 ! (pc2 - 1)) p < 0 \<and> xs2 ! pb1 = xs1 ! pb1"
    using scan_right_regions [OF r 1(1)] 1(2) by auto
  have b: "pb \<le> pb1" "pc2 \<le> pc" using scan_left_bounds [OF l] scan_right_bounds [OF r] by auto
  show ?case
  proof (cases "pb1 \<ge> pc2")
    case True
    then have "xs' = xs2" "pa' = pa1" "pb' = pb1" "pc' = pc2" "pd' = pd2"
      using less.prems(1) l r by (simp_all add: partition_loop.simps [of cmp xs pa pb pc pd])
    then show ?thesis using 2 True by (simp add: regions_def)
  next
    case False
    then have loop: "partition_loop cmp (swap xs2 pb1 (pc2 - 1)) pa1 (pb1 + 1) (pc2 - 1) pd2 = (xs', pa', pb', pc', pd')"
      using less.prems(1) l r by (simp add: partition_loop.simps [of cmp xs pa pb pc pd])
    have "cmp (xs2 ! pb1) p > 0" "cmp (xs2 ! (pc2 - 1)) p < 0" "pb1 < pc2" using 1(3) 2(3) False b by auto
    then have "regions p (swap xs2 pb1 (pc2 - 1)) pa1 (pb1 + 1) (pc2 - 1) pd2" using 2(1) by (intro regions_exchange)
    moreover have "pc2 - 1 - (pb1 + 1) < pc - pb" using False b by linarith
    moreover have "mset (swap xs2 pb1 (pc2 - 1)) = mset xs" using regions_mset [OF 2(1)] 2(2) False by simp
    ultimately show ?thesis using less.hyps [OF _ loop] by auto
  qed
qed

lemma pivot_index_less: "xs \<noteq> [] \<Longrightarrow> pivot_index cmp xs < length xs"
proof -
  assume ne: "xs \<noteq> []"
  have med: "a < n \<Longrightarrow> b < n \<Longrightarrow> c < n \<Longrightarrow> med3 cmp xs a b c < n" for a b c n by (simp add: med3_def)
  have "length xs div 8 * 2 < length xs" "length xs div 2 + length xs div 8 < length xs" if "length xs > 7"
    using that by linarith+
  then show "pivot_index cmp xs < length xs" using ne by (auto simp: pivot_index_def Let_def intro!: med)
qed

text \<open>
  After partitioning the array has the elements below the pivot, those equal to it and those above it, in
  this order.
\<close>

lemma partition_array_regions:
  assumes "partition_array cmp xs = (ys, d1, d2)" "xs \<noteq> []"
  obtains p where "mset ys = mset xs" "d1 + d2 \<le> length ys"
    "\<forall>i < d1. cmp (ys ! i) p < 0" "\<forall>i. d1 \<le> i \<and> i < length ys - d2 \<longrightarrow> cmp (ys ! i) p = 0"
    "\<forall>i. length ys - d2 \<le> i \<and> i < length ys \<longrightarrow> cmp (ys ! i) p > 0"
proof -
  let ?n = "length xs" and ?s = "swap xs 0 (pivot_index cmp xs)"
  define p where "p = ?s ! 0"
  obtain zs pa pb pc pd where loop: "partition_loop cmp ?s 1 1 ?n ?n = (zs, pa, pb, pc, pd)" by (metis prod_cases5)
  have "regions p ?s 1 1 ?n ?n" using assms(2) by (auto simp: regions_def p_def Suc_le_eq)
  from partition_loop_regions [OF loop this] have reg: "regions p zs pa pb pc pd" and pbc: "pb = pc"
    and "mset zs = mset ?s" by auto
  then have ms: "mset zs = mset xs" using pivot_index_less [OF assms(2)] assms(2) by (simp add: mset_swap)
  then have len: "length zs = ?n" by (metis size_mset)
  have ord: "1 \<le> pa" "pa \<le> pb" "pb \<le> pd" "pd \<le> ?n" using reg pbc len by (auto simp: regions_def)
  define e1 where "e1 = min pa (pb - pa)"
  define e2 where "e2 = min (pd - pc) (?n - pd)"
  define us where "us = vecswap zs 0 (pb - e1) e1"
  have res: "ys = vecswap us pb (?n - e2) e2" "d1 = pb - pa" "d2 = pd - pb"
    using assms(1) loop pbc by (auto simp: partition_array_def Let_def us_def e1_def e2_def)
  have lenu: "length us = ?n" using len by (simp add: us_def)
  have u1: "\<forall>i. 0 \<le> i \<and> i < 0 + (pb - pa) \<longrightarrow> cmp (us ! i) p < 0"
    "\<forall>i. 0 + (pb - pa) \<le> i \<and> i < pb \<longrightarrow> cmp (us ! i) p = 0"
    unfolding us_def
    by (rule vecswap_exchange [where xs = zs and a = 0 and m = pa and b = pb and d = e1];
        use reg ord len in \<open>auto simp: regions_def e1_def\<close>)+
  have same: "us ! i = zs ! i" if "pb \<le> i" for i
    unfolding us_def using that ord len by (intro vecswap_other) (auto simp: e1_def)
  have u2: "\<forall>i. pb \<le> i \<and> i < pb + (?n - pd) \<longrightarrow> cmp (ys ! i) p = 0"
    "\<forall>i. pb + (?n - pd) \<le> i \<and> i < ?n \<longrightarrow> cmp (ys ! i) p > 0"
    unfolding res(1)
    by (rule vecswap_exchange [where xs = us and a = pb and m = pd and b = ?n and d = e2];
        use reg ord len lenu same pbc in \<open>auto simp: regions_def e2_def\<close>)+
  have keep: "ys ! i = us ! i" if "i < pb" for i
    unfolding res(1) using that ord lenu pbc by (intro vecswap_other) (auto simp: e2_def)
  have leny: "length ys = ?n" using res(1) lenu by simp
  show thesis
  proof (rule that [of p])
    have "mset us = mset zs" unfolding us_def using ord len by (intro mset_vecswap) (auto simp: e1_def)
    moreover have "mset ys = mset us" unfolding res(1) using ord lenu pbc by (intro mset_vecswap) (auto simp: e2_def)
    ultimately show "mset ys = mset xs" using ms by simp
    show "d1 + d2 \<le> length ys" using res leny ord by simp
    show "\<forall>i < d1. cmp (ys ! i) p < 0" using u1(1) keep res(2) by auto
    have "cmp (ys ! i) p = 0" if "d1 \<le> i" "i < length ys - d2" for i
      using that u1(2) u2(1) keep res(2, 3) leny ord by (cases "i < pb") auto
    then show "\<forall>i. d1 \<le> i \<and> i < length ys - d2 \<longrightarrow> cmp (ys ! i) p = 0" by blast
    show "\<forall>i. length ys - d2 \<le> i \<and> i < length ys \<longrightarrow> cmp (ys ! i) p > 0" using u2(2) res(3) ord leny by auto
  qed
qed

lemma set_take_drop_all:
  "\<forall>i. j \<le> i \<and> i < j + k \<and> i < length ys \<longrightarrow> Q (ys ! i) \<Longrightarrow> \<forall>x \<in> set (take k (drop j ys)). Q x"
  by (auto simp: in_set_conv_nth)

lemma partition_array_splits:
  assumes "partition_array cmp xs = (ys, d1, d2)" "xs \<noteq> []"
  obtains p where "mset ys = mset xs" "d1 + d2 \<le> length ys"
    "\<forall>x \<in> set (take d1 ys). cmp x p < 0"
    "\<forall>x \<in> set (take (length ys - d2 - d1) (drop d1 ys)). cmp x p = 0"
    "\<forall>x \<in> set (drop (length ys - d2) ys). cmp x p > 0"
proof (rule partition_array_regions [OF assms])
  fix p
  assume ys: "mset ys = mset xs" "d1 + d2 \<le> length ys" "\<forall>i < d1. cmp (ys ! i) p < 0"
    "\<forall>i. d1 \<le> i \<and> i < length ys - d2 \<longrightarrow> cmp (ys ! i) p = 0" "\<forall>i. length ys - d2 \<le> i \<and> i < length ys \<longrightarrow> cmp (ys ! i) p > 0"
  have "\<forall>x \<in> set (take d1 ys). cmp x p < 0" using ys(3) set_take_drop_all [of 0 d1 ys "\<lambda>x. cmp x p < 0"] by simp
  moreover have "\<forall>x \<in> set (take (length ys - d2 - d1) (drop d1 ys)). cmp x p = 0"
    using ys(2, 4) by (intro set_take_drop_all) auto
  moreover have "\<forall>x \<in> set (drop (length ys - d2) ys). cmp x p > 0"
    using ys(2, 5) set_take_drop_all [of "length ys - d2" d2 ys "\<lambda>x. cmp x p > 0"] by simp
  ultimately show thesis using that ys(1, 2) by blast
qed

paragraph \<open>Sorting\<close>

lemma sorted_equal: "\<forall>x \<in> set ms. cmp x p = 0 \<Longrightarrow> sorted_wrt le ms"
  by (induction ms) (auto intro: le_of_equal)

lemma sorted_three:
  assumes "sorted_wrt le as" "sorted_wrt le bs" "\<forall>x \<in> set as. cmp x p < 0" "\<forall>x \<in> set ms. cmp x p = 0" "\<forall>x \<in> set bs. cmp x p > 0"
  shows "sorted_wrt le (as @ ms @ bs)"
proof -
  have "le x y" if "x \<in> set as" "y \<in> set ms \<union> set bs" for x y
    using that assms(3-5) by (intro le_of_less [of x p]) auto
  moreover have "le x y" if "x \<in> set ms" "y \<in> set bs" for x y
    using that assms(4, 5) by (intro le_of_greater [of y p]) auto
  ultimately show ?thesis using assms(1, 2) sorted_equal [OF assms(4)] by (auto simp: sorted_wrt_append)
qed

lemma pg_qsort_sorts: "mset (pg_qsort cmp xs) = mset xs \<and> sorted_wrt le (pg_qsort cmp xs)"
proof (induction xs rule: measure_induct_rule [of length])
  case (less xs)
  show ?case
  proof (cases "length xs < 7 \<or> presorted cmp xs")
    case True
    then show ?thesis using insertion_sort_sorts presorted_sorted by (auto simp: pg_qsort.simps [of cmp xs])
  next
    case False
    then have ne: "xs \<noteq> []" by auto
    obtain ys d1 d2 where part: "partition_array cmp xs = (ys, d1, d2)" by (metis prod_cases3)
    obtain p where ys: "mset ys = mset xs" "d1 + d2 \<le> length ys" "\<forall>x \<in> set (take d1 ys). cmp x p < 0"
      "\<forall>x \<in> set (take (length ys - d2 - d1) (drop d1 ys)). cmp x p = 0"
      "\<forall>x \<in> set (drop (length ys - d2) ys). cmp x p > 0"
      using partition_array_splits [OF part ne] by blast
    note sizes = partition_array_sizes [OF part ne]
    define as where "as = (if d1 > 1 then pg_qsort cmp (take d1 ys) else take d1 ys)"
    define ms where "ms = take (length ys - d2 - d1) (drop d1 ys)"
    define bs where "bs = (if d2 > 1 then pg_qsort cmp (drop (length ys - d2) ys) else drop (length ys - d2) ys)"
    have short: "length zs \<le> 1 \<Longrightarrow> sorted_wrt le zs" for zs by (cases zs) auto
    have as: "mset as = mset (take d1 ys)" "sorted_wrt le as"
      using less [of "take d1 ys"] sizes short [of "take d1 ys"] by (auto simp: as_def)
    have bs: "mset bs = mset (drop (length ys - d2) ys)" "sorted_wrt le bs"
      using less [of "drop (length ys - d2) ys"] sizes short [of "drop (length ys - d2) ys"] by (auto simp: bs_def)
    have split: "ys = take d1 ys @ ms @ drop (length ys - d2) ys"
      using ys(2) by (metis add_diff_inverse_nat append.assoc append_take_drop_id diff_diff_left diff_le_mono2 le_add1
          le_add_diff_inverse le_diff_conv2 ms_def not_le take_add add_leD2 add.commute)
    have res: "pg_qsort cmp xs = as @ ms @ bs"
      using False part by (simp add: pg_qsort.simps [of cmp xs] as_def ms_def bs_def)
    have "mset (as @ ms @ bs) = mset ys" using as(1) bs(1) by (subst split) simp
    moreover have sets: "set as = set (take d1 ys)" "set bs = set (drop (length ys - d2) ys)"
      using as(1) bs(1) by (metis set_mset_mset)+
    have "sorted_wrt le (as @ ms @ bs)"
      using as(2) bs(2) ys(3-5) by (intro sorted_three [where p = p]) (simp_all add: sets ms_def)
    ultimately show ?thesis using res ys(1) by simp
  qed
qed

end

subsection \<open>Binary search\<close>

text \<open>
  The C library's \<^verbatim>\<open>bsearch\<close> on the array between two indices; the index of a match, if there is one.
\<close>

function bsearch_range :: "'a comparator \<Rightarrow> 'a \<Rightarrow> 'a list \<Rightarrow> nat \<Rightarrow> nat \<Rightarrow> nat option" where
  "bsearch_range cmp key xs l u =
     (if l < u then
        let idx = (l + u) div 2; r = cmp key (xs ! idx) in
        if r < 0 then bsearch_range cmp key xs l idx
        else if r > 0 then bsearch_range cmp key xs (idx + 1) u
        else Some idx
      else None)"
  by pat_completeness auto
termination
  by (relation "measure (\<lambda>(cmp, key, xs, l, u). u - l)") auto

declare bsearch_range.simps [simp del]

definition bsearch :: "'a comparator \<Rightarrow> 'a \<Rightarrow> 'a list \<Rightarrow> nat option" where
  "bsearch cmp key xs = bsearch_range cmp key xs 0 (length xs)"

context total_comparator
begin

lemma bsearch_range_Some: "bsearch_range cmp key xs l u = Some i \<Longrightarrow> l \<le> i \<and> i < u \<and> cmp key (xs ! i) = 0"
proof (induction "u - l" arbitrary: l u rule: less_induct)
  case less
  let ?m = "(l + u) div 2"
  have lu: "l < u" using less.prems by (auto simp: bsearch_range.simps [of cmp key xs l u] split: if_splits)
  then consider "cmp key (xs ! ?m) < 0" "bsearch_range cmp key xs l ?m = Some i"
    | "cmp key (xs ! ?m) > 0" "bsearch_range cmp key xs (?m + 1) u = Some i" | "cmp key (xs ! ?m) = 0" "i = ?m"
    using less.prems by (auto simp: bsearch_range.simps [of cmp key xs l u] Let_def split: if_splits)
  then show ?case
  proof cases
    case 1
    have "?m - l < u - l" "?m < u" using lu by linarith+
    then show ?thesis using less.hyps [OF _ 1(2)] by auto
  next
    case 2
    have "u - (?m + 1) < u - l" "l \<le> ?m" using lu by linarith+
    then show ?thesis using less.hyps [OF _ 2(2)] by auto
  next
    case 3
    then show ?thesis using lu by auto
  qed
qed

lemma bsearch_range_None:
  "sorted_wrt le xs \<Longrightarrow> u \<le> length xs \<Longrightarrow> bsearch_range cmp key xs l u = None \<Longrightarrow>
     l \<le> i \<Longrightarrow> i < u \<Longrightarrow> cmp key (xs ! i) \<noteq> 0"
proof (induction "u - l" arbitrary: l u rule: less_induct)
  case less
  let ?m = "(l + u) div 2"
  have m: "l \<le> ?m" "?m < u" "?m < length xs" using less.prems by auto
  have below: "le (xs ! i) (xs ! ?m)" if "i \<le> ?m"
    using that m less.prems(1) sorted_wrt_nth_less [of le xs i ?m] by (cases "i = ?m") auto
  have above: "le (xs ! ?m) (xs ! i)" if "?m \<le> i"
    using that less.prems sorted_wrt_nth_less [of le xs ?m i] by (cases "i = ?m") auto
  consider "cmp key (xs ! ?m) < 0" "bsearch_range cmp key xs l ?m = None"
    | "cmp key (xs ! ?m) > 0" "bsearch_range cmp key xs (?m + 1) u = None"
    using less.prems m by (auto simp: bsearch_range.simps [of cmp key xs l u] Let_def split: if_splits)
  then show ?case
  proof cases
    case 1
    then have "cmp key (xs ! i) < 0" if "?m \<le> i"
      using above [OF that] cmp_trans [of "xs ! ?m" "xs ! i" key] cmp_swap [of key] cmp_swap [of _ key] by (smt (verit))
    then show ?thesis using 1(2) less.hyps [of ?m l] less.prems m by (cases "i < ?m") auto
  next
    case 2
    then have "cmp key (xs ! i) > 0" if "i \<le> ?m"
      using below [OF that] cmp_trans [of key "xs ! i" "xs ! ?m"] by linarith
    then show ?thesis using 2(2) less.hyps [of u "?m + 1"] less.prems m by (cases "i \<le> ?m") auto
  qed
qed

lemma bsearch_finds:
  assumes "sorted_wrt le xs"
  shows "case bsearch cmp key xs of Some i \<Rightarrow> i < length xs \<and> cmp key (xs ! i) = 0 | None \<Rightarrow> \<forall>x \<in> set xs. cmp key x \<noteq> 0"
proof (cases "bsearch cmp key xs")
  case None
  then show ?thesis using bsearch_range_None [OF assms order_refl, of key 0] by (auto simp: bsearch_def in_set_conv_nth)
next
  case (Some i)
  then show ?thesis using bsearch_range_Some [of key xs 0 "length xs" i] by (simp add: bsearch_def)
qed

end

text \<open>
  Where only equal elements compare as equal, the sorted array is determined by the elements alone.
\<close>

locale linear_comparator = total_comparator +
  assumes cmp_eq: "cmp x y = 0 \<Longrightarrow> x = y"
begin

lemma sorted_unique: "sorted_wrt le xs \<Longrightarrow> sorted_wrt le ys \<Longrightarrow> mset xs = mset ys \<Longrightarrow> xs = ys"
proof (induction xs arbitrary: ys)
  case (Cons x xs)
  then obtain y ys' where ys: "ys = y # ys'" by (cases ys) auto
  have "x \<in> set ys" "y \<in> set (x # xs)" using Cons.prems(3) ys by (metis list.set_intros(1) set_mset_mset)+
  then have "le y x" "le x y" using Cons.prems(1, 2) ys by auto
  then have "x = y" using cmp_swap [of x y] cmp_swap [of y x] by (intro cmp_eq) linarith
  then show ?case using Cons ys by simp
qed simp

lemma pg_qsort_mset: "mset xs = mset ys \<Longrightarrow> pg_qsort cmp xs = pg_qsort cmp ys"
  using pg_qsort_sorts [of xs] pg_qsort_sorts [of ys] by (intro sorted_unique) auto

lemma pg_qsort_id: "sorted_wrt le xs \<Longrightarrow> pg_qsort cmp xs = xs"
  using pg_qsort_sorts [of xs] by (intro sorted_unique) auto

end

subsection \<open>Properties\<close>

text \<open>C16: \<^verbatim>\<open>pg_qsort\<close> sorts. For every comparator that is a total preorder, the presorted check, the
  insertion sort of short arrays, the median-of-medians pivot and the three-way partition together return a
  permutation of the array that is ordered by the comparator, and the function always terminates.\<close>

theorem pg_qsort_correct:
  assumes "\<forall>x y. cmp x y < 0 \<longleftrightarrow> 0 < cmp y x" "\<forall>x y z. cmp x y \<le> 0 \<and> cmp y z \<le> 0 \<longrightarrow> cmp x z \<le> 0"
  shows "mset (pg_qsort cmp xs) = mset xs \<and> sorted_wrt (\<lambda>x y. cmp x y \<le> 0) (pg_qsort cmp xs)"
  by (rule total_comparator.pg_qsort_sorts, unfold_locales) (use assms in blast)+

theorem pg_qsort_correct_witness:
  "sorted_wrt (\<le>) (pg_qsort (\<lambda>x y. x - y) [3, 1, 4, 1, 5, 9, 2, 6, 5 :: int])"
  using pg_qsort_correct [of "\<lambda>x y. x - y :: int" "[3, 1, 4, 1, 5, 9, 2, 6, 5]"] by simp

end
