(* ===== verification/AqoUtils.thy ===== *)
theory AqoUtils
  imports PgSort
begin

text \<open>
  The utilities of the extension (\<^verbatim>\<open>contrib/aqo/utils.c\<close>): the comparison functions, sorting by
  index and the inverse of a permutation. A C \<^verbatim>\<open>int\<close> is a 32-bit word read as signed; indices are
  natural numbers. \<^verbatim>\<open>palloc\<close> does not clear its memory, so the old contents are an argument.

  The comparison functions meet the contract of the sorting routine. Sorting by index yields a permutation
  that makes the array sorted, and the inverse permutation undoes it.
\<close>

type_synonym c_int = "32 word"

definition int_cmp :: "c_int comparator" where
  "int_cmp a b = (if sint a < sint b then - 1 else if sint a > sint b then 1 else 0)"

definition double_cmp :: "real comparator" where
  "double_cmp a b = (if a < b then - 1 else if a > b then 1 else 0)"

definition argsort_cmp :: "'a list \<Rightarrow> 'a comparator \<Rightarrow> nat comparator" where
  "argsort_cmp a cmp i j = cmp (a ! i) (a ! j)"

definition argsort :: "'a list \<Rightarrow> 'a comparator \<Rightarrow> nat list" where
  "argsort a cmp = pg_qsort (argsort_cmp a cmp) [0..<length a]"

definition inverse_permutation :: "nat list \<Rightarrow> nat list \<Rightarrow> nat list" where
  "inverse_permutation mem idx = foldl (\<lambda>inv i. inv[idx ! i := i]) mem [0..<length idx]"

subsection \<open>The comparison functions\<close>

interpretation int_order: linear_comparator int_cmp
  by unfold_locales (auto simp: int_cmp_def intro: signed_word_eqI split: if_splits)

interpretation double_order: linear_comparator double_cmp
  by unfold_locales (auto simp: double_cmp_def split: if_splits)

lemma int_cmp_le: "int_cmp a b \<le> 0 \<longleftrightarrow> sint a \<le> sint b"
  by (simp add: int_cmp_def)

lemma double_cmp_le: "double_cmp a b \<le> 0 \<longleftrightarrow> a \<le> b"
  by (simp add: double_cmp_def)

context total_comparator
begin

lemma by_index: "total_comparator (argsort_cmp a cmp)"
  by unfold_locales (auto simp: argsort_cmp_def cmp_swap intro: cmp_trans)

lemma argsort_permutes: "mset (argsort a cmp) = mset [0..<length a]"
  by (simp add: argsort_def total_comparator.pg_qsort_sorts [OF by_index])

lemma argsort_set: "set (argsort a cmp) = {0..<length a}" "distinct (argsort a cmp)" "length (argsort a cmp) = length a"
proof -
  show "set (argsort a cmp) = {0..<length a}" using argsort_permutes [of a] by (metis set_mset_mset set_upt)
  show "distinct (argsort a cmp)" using argsort_permutes [of a] by (metis distinct_upt mset_eq_imp_distinct_iff)
  show "length (argsort a cmp) = length a" using argsort_permutes [of a] by (metis diff_zero length_upt size_mset)
qed

lemma argsort_sorted: "sorted_wrt le (map ((!) a) (argsort a cmp))"
  using total_comparator.pg_qsort_sorts [OF by_index, of a "[0..<length a]"] by (simp add: argsort_def sorted_wrt_map argsort_cmp_def)

lemma argsort_mset: "mset (map ((!) a) (argsort a cmp)) = mset a"
  by (metis argsort_permutes map_nth mset_map)

end

context linear_comparator
begin

lemma argsort_pg_qsort: "map ((!) a) (argsort a cmp) = pg_qsort cmp a"
  using argsort_sorted argsort_mset pg_qsort_sorts [of a] by (intro sorted_unique) auto

end

subsection \<open>Inverse permutations\<close>

lemma inverse_permutation_loop:
  assumes "distinct idx" "set idx \<subseteq> {0..<length mem}" "k \<le> length idx"
  shows "length (foldl (\<lambda>inv i. inv[idx ! i := i]) mem [0..<k]) = length mem \<and>
    (\<forall>i < k. foldl (\<lambda>inv i. inv[idx ! i := i]) mem [0..<k] ! (idx ! i) = i)"
  using assms(3)
proof (induction k)
  case (Suc k)
  have "idx ! i < length mem" if "i \<le> k" for i using that Suc.prems assms(2) nth_mem [of i idx] by fastforce
  moreover have "idx ! k \<noteq> idx ! i" if "i < k" for i using that Suc.prems assms(1) by (simp add: nth_eq_iff_index_eq)
  ultimately show ?case using Suc by (auto simp: nth_list_update less_Suc_eq)
qed simp

lemma inverse_permutation_nth:
  assumes "distinct idx" "set idx = {0..<length idx}" "length mem = length idx"
  shows "length (inverse_permutation mem idx) = length idx"
    "i < length idx \<Longrightarrow> inverse_permutation mem idx ! (idx ! i) = i"
    "j < length idx \<Longrightarrow> idx ! (inverse_permutation mem idx ! j) = j \<and> inverse_permutation mem idx ! j < length idx"
proof -
  note loop = inverse_permutation_loop [of idx mem "length idx"]
  show "length (inverse_permutation mem idx) = length idx"
    using loop assms by (simp add: inverse_permutation_def)
  have nth: "inverse_permutation mem idx ! (idx ! i) = i" if "i < length idx" for i
    using loop assms that by (simp add: inverse_permutation_def)
  then show "i < length idx \<Longrightarrow> inverse_permutation mem idx ! (idx ! i) = i" .
  assume "j < length idx"
  then obtain i where "i < length idx" "idx ! i = j" using assms(2) by (metis atLeast0LessThan in_set_conv_nth lessThan_iff)
  then show "idx ! (inverse_permutation mem idx ! j) = j \<and> inverse_permutation mem idx ! j < length idx" using nth by auto
qed

subsection \<open>Properties\<close>

text \<open>C39: sorting by index and its inverse make a round trip. For the comparison functions of the program,
  \<^verbatim>\<open>argsort\<close> returns each index once, in an order that makes the array the one \<^verbatim>\<open>qsort\<close>
  returns, and moving the elements back with \<^verbatim>\<open>inverse_permutation\<close> restores the array, whatever the
  allocated memory held before.\<close>

theorem argsort_inverse_roundtrip:
  assumes "length mem = length (a :: c_int list)"
  shows "distinct (argsort a int_cmp) \<and> set (argsort a int_cmp) = {0..<length a} \<and>
    map ((!) a) (argsort a int_cmp) = pg_qsort int_cmp a \<and>
    map ((!) (map ((!) a) (argsort a int_cmp))) (inverse_permutation mem (argsort a int_cmp)) = a"
proof -
  let ?idx = "argsort a int_cmp"
  note idx = int_order.argsort_set [of a]
  have "map ((!) (map ((!) a) ?idx)) (inverse_permutation mem ?idx) = a"
    using inverse_permutation_nth [of ?idx mem] idx assms by (intro nth_equalityI) simp_all
  then show ?thesis using idx int_order.argsort_pg_qsort by blast
qed

theorem argsort_inverse_roundtrip_witness:
  "map ((!) (map ((!) [7, 3, 5 :: c_int]) (argsort [7, 3, 5] int_cmp))) (inverse_permutation [9, 9, 9] (argsort [7, 3, 5] int_cmp)) = [7, 3, 5]"
  by (rule argsort_inverse_roundtrip [THEN conjunct2, THEN conjunct2, THEN conjunct2]) simp

end
