(* ===== verification/JenkinsHash.thy ===== *)
theory JenkinsHash
  imports Prelude
begin

text \<open>
  Bob Jenkins' hash as the server has it (\<^verbatim>\<open>src/backend/access/hash/hashfunc.c\<close>,
  \<^verbatim>\<open>hash_any\<close> and \<^verbatim>\<open>hash_uint32\<close>). The key is the list of bytes at the pointer; the
  build option \<^verbatim>\<open>WORDS_BIGENDIAN\<close> and the alignment test on the pointer are arguments, so
  that all four code paths are modelled. Arithmetic is on 32-bit words and wraps. A key is at most
  \<^verbatim>\<open>INT_MAX\<close> bytes long, so the counter \<^verbatim>\<open>len\<close> is the length of the list.

  The lemmas show that the word-wide path and the byte-wise path compute the same hash in both byte
  orders, that \<^verbatim>\<open>hash_uint32\<close> agrees with \<^verbatim>\<open>hash_any\<close> on the four bytes of its
  argument, and that the mixing step is a bijection on the internal state.
\<close>

type_synonym byte = "8 word"
type_synonym uint32 = "32 word"
type_synonym hash_state = "uint32 \<times> uint32 \<times> uint32"

definition rot :: "uint32 \<Rightarrow> nat \<Rightarrow> uint32" where
  "rot x k = (push_bit k x OR drop_bit (32 - k) x)"

text \<open>
  One line of the macro \<^verbatim>\<open>mix\<close>, \<^verbatim>\<open>a -= c; a ^= rot(c, k); c += b\<close>: the six lines are the
  same assignments with the roles of the three variables rotated. The result is the pair of the two
  variables that change.
\<close>

definition mix_line :: "uint32 \<Rightarrow> uint32 \<Rightarrow> uint32 \<Rightarrow> nat \<Rightarrow> uint32 \<times> uint32" where
  "mix_line a b c k = ((a - c) XOR rot c k, c + b)"

definition mix :: "hash_state \<Rightarrow> hash_state" where
  "mix s =
     (let (a, b, c) = s;
          (a, c) = mix_line a b c 4;
          (b, a) = mix_line b c a 6;
          (c, b) = mix_line c a b 8;
          (a, c) = mix_line a b c 16;
          (b, a) = mix_line b c a 19;
          (c, b) = mix_line c a b 4
      in (a, b, c))"

definition final :: "hash_state \<Rightarrow> hash_state" where
  "final s =
     (let (a, b, c) = s;
          c = c XOR b; c = c - rot b 14;
          a = a XOR c; a = a - rot c 11;
          b = b XOR a; b = b - rot a 25;
          c = c XOR b; c = c - rot b 16;
          a = a XOR c; a = a - rot c 4;
          b = b XOR a; b = b - rot a 14;
          c = c XOR b; c = c - rot b 24
      in (a, b, c))"

text \<open>\<^verbatim>\<open>(uint32) k[i] << n\<close>\<close>

definition shl :: "byte list \<Rightarrow> nat \<Rightarrow> nat \<Rightarrow> uint32" where
  "shl k i n = push_bit n (ucast (k ! i))"

text \<open>
  The memory word \<^verbatim>\<open>((uint32 *) k)[i]\<close>: four bytes side by side, the lowest address being the
  most significant byte on a big-endian machine and the least significant on a little-endian one.
\<close>

definition fetch32 :: "bool \<Rightarrow> byte list \<Rightarrow> nat \<Rightarrow> uint32" where
  "fetch32 big_endian k i =
     (if big_endian
      then shl k (4 * i) 24 OR shl k (4 * i + 1) 16 OR shl k (4 * i + 2) 8 OR shl k (4 * i + 3) 0
      else shl k (4 * i) 0 OR shl k (4 * i + 1) 8 OR shl k (4 * i + 2) 16 OR shl k (4 * i + 3) 24)"

text \<open>The four bytes of a word in memory.\<close>

definition store32 :: "bool \<Rightarrow> uint32 \<Rightarrow> byte list" where
  "store32 big_endian w =
     (let bytes = map (\<lambda>n. ucast (drop_bit n w)) [0, 8, 16, 24] in
      if big_endian then rev bytes else bytes)"

subsection \<open>The word-wide code path\<close>

function aligned_loop :: "bool \<Rightarrow> hash_state \<Rightarrow> byte list \<Rightarrow> hash_state \<times> byte list" where
  "aligned_loop be (a, b, c) k =
     (if length k \<ge> 12
      then aligned_loop be (mix (a + fetch32 be k 0, b + fetch32 be k 1, c + fetch32 be k 2)) (drop 12 k)
      else ((a, b, c), k))"
  by pat_completeness auto
termination
  by (relation "measure (\<lambda>(be, s, k). length k)") auto

declare aligned_loop.simps [simp del]

text \<open>
  The switch on the remaining length: the statement under \<^verbatim>\<open>case n\<close> runs for every length from
  \<open>n\<close> up to the next \<^verbatim>\<open>break\<close> above it.
\<close>

definition aligned_tail :: "bool \<Rightarrow> hash_state \<Rightarrow> byte list \<Rightarrow> hash_state" where
  "aligned_tail be s k =
     (let (a, b, c) = s; len = length k in
      if be then
        (if len \<ge> 8 then
           let c = (if len \<ge> 11 then c + shl k 10 8 else c);
               c = (if len \<ge> 10 then c + shl k 9 16 else c);
               c = (if len \<ge> 9 then c + shl k 8 24 else c)
           in (a + fetch32 be k 0, b + fetch32 be k 1, c)
         else if len \<ge> 4 then
           let b = (if len \<ge> 7 then b + shl k 6 8 else b);
               b = (if len \<ge> 6 then b + shl k 5 16 else b);
               b = (if len \<ge> 5 then b + shl k 4 24 else b)
           in (a + fetch32 be k 0, b, c)
         else
           let a = (if len \<ge> 3 then a + shl k 2 8 else a);
               a = (if len \<ge> 2 then a + shl k 1 16 else a);
               a = (if len \<ge> 1 then a + shl k 0 24 else a)
           in (a, b, c))
      else
        (if len \<ge> 8 then
           let c = (if len \<ge> 11 then c + shl k 10 24 else c);
               c = (if len \<ge> 10 then c + shl k 9 16 else c);
               c = (if len \<ge> 9 then c + shl k 8 8 else c)
           in (a + fetch32 be k 0, b + fetch32 be k 1, c)
         else if len \<ge> 4 then
           let b = (if len \<ge> 7 then b + shl k 6 16 else b);
               b = (if len \<ge> 6 then b + shl k 5 8 else b);
               b = (if len \<ge> 5 then b + shl k 4 0 else b)
           in (a + fetch32 be k 0, b, c)
         else
           let a = (if len \<ge> 3 then a + shl k 2 16 else a);
               a = (if len \<ge> 2 then a + shl k 1 8 else a);
               a = (if len \<ge> 1 then a + shl k 0 0 else a)
           in (a, b, c)))"

subsection \<open>The byte-wise code path\<close>

definition bytes_add :: "bool \<Rightarrow> byte list \<Rightarrow> nat \<Rightarrow> uint32" where
  "bytes_add be k i =
     (if be then shl k (i + 3) 0 + shl k (i + 2) 8 + shl k (i + 1) 16 + shl k i 24
      else shl k i 0 + shl k (i + 1) 8 + shl k (i + 2) 16 + shl k (i + 3) 24)"

function unaligned_loop :: "bool \<Rightarrow> hash_state \<Rightarrow> byte list \<Rightarrow> hash_state \<times> byte list" where
  "unaligned_loop be (a, b, c) k =
     (if length k \<ge> 12
      then unaligned_loop be (mix (a + bytes_add be k 0, b + bytes_add be k 4, c + bytes_add be k 8)) (drop 12 k)
      else ((a, b, c), k))"
  by pat_completeness auto
termination
  by (relation "measure (\<lambda>(be, s, k). length k)") auto

declare unaligned_loop.simps [simp del]

definition unaligned_tail :: "bool \<Rightarrow> hash_state \<Rightarrow> byte list \<Rightarrow> hash_state" where
  "unaligned_tail be s k =
     (let (a, b, c) = s; len = length k in
      if be then
        let c = (if len \<ge> 11 then c + shl k 10 8 else c);
            c = (if len \<ge> 10 then c + shl k 9 16 else c);
            c = (if len \<ge> 9 then c + shl k 8 24 else c);
            b = (if len \<ge> 8 then b + shl k 7 0 else b);
            b = (if len \<ge> 7 then b + shl k 6 8 else b);
            b = (if len \<ge> 6 then b + shl k 5 16 else b);
            b = (if len \<ge> 5 then b + shl k 4 24 else b);
            a = (if len \<ge> 4 then a + shl k 3 0 else a);
            a = (if len \<ge> 3 then a + shl k 2 8 else a);
            a = (if len \<ge> 2 then a + shl k 1 16 else a);
            a = (if len \<ge> 1 then a + shl k 0 24 else a)
        in (a, b, c)
      else
        let c = (if len \<ge> 11 then c + shl k 10 24 else c);
            c = (if len \<ge> 10 then c + shl k 9 16 else c);
            c = (if len \<ge> 9 then c + shl k 8 8 else c);
            b = (if len \<ge> 8 then b + shl k 7 24 else b);
            b = (if len \<ge> 7 then b + shl k 6 16 else b);
            b = (if len \<ge> 6 then b + shl k 5 8 else b);
            b = (if len \<ge> 5 then b + shl k 4 0 else b);
            a = (if len \<ge> 4 then a + shl k 3 24 else a);
            a = (if len \<ge> 3 then a + shl k 2 16 else a);
            a = (if len \<ge> 2 then a + shl k 1 8 else a);
            a = (if len \<ge> 1 then a + shl k 0 0 else a)
        in (a, b, c))"

subsection \<open>The hash functions\<close>

definition hash_init :: "nat \<Rightarrow> hash_state" where
  "hash_init keylen =
     (let v = 0x9e3779b9 + of_nat keylen + 3923095 in (v, v, v))"

definition hash_any :: "bool \<Rightarrow> bool \<Rightarrow> byte list \<Rightarrow> uint32" where
  "hash_any be aligned k =
     (let (s, tail) = (if aligned then aligned_loop be (hash_init (length k)) k
                       else unaligned_loop be (hash_init (length k)) k);
          s = (if aligned then aligned_tail be s tail else unaligned_tail be s tail);
          (a, b, c) = final s
      in c)"

definition hash_uint32 :: "uint32 \<Rightarrow> uint32" where
  "hash_uint32 k =
     (let (a, b, c) = hash_init 4; (a, b, c) = final (a + k, b, c) in c)"

subsection \<open>The two code paths agree\<close>

lemma bit_shl: "bit (shl k i n) j \<longleftrightarrow> n \<le> j \<and> j < 32 \<and> bit (k ! i) (j - n)"
  by (auto simp: shl_def bit_simps)

lemma byte_bit_bound: "bit (b :: byte) n \<Longrightarrow> n < 8"
  using bit_imp_le_length [of b n] by simp

lemma shl_disjoint:
  assumes "m + 8 \<le> n"
  shows "shl k i m AND shl k j n = 0"
  using assms by (intro bit_word_eqI) (auto simp: bit_simps bit_shl dest!: byte_bit_bound)

lemma shl_disjoint': "n + 8 \<le> m \<Longrightarrow> shl k i m AND shl k j n = 0"
  by (metis and.commute shl_disjoint)

lemma shl_or_plus:
  "shl k i0 0 OR shl k i1 8 OR shl k i2 16 OR shl k i3 24
     = shl k i0 0 + shl k i1 8 + shl k i2 16 + shl k i3 24"
  by (simp add: disjunctive_add_eq_or shl_disjoint bit.conj_disj_distrib bit.conj_disj_distrib2
      flip: or.assoc)

lemma fetch32_bytes: "fetch32 be k i = bytes_add be k (4 * i)"
proof -
  have "shl k (4 * i) 24 OR shl k (4 * i + 1) 16 OR shl k (4 * i + 2) 8 OR shl k (4 * i + 3) 0
        = shl k (4 * i + 3) 0 OR shl k (4 * i + 2) 8 OR shl k (4 * i + 1) 16 OR shl k (4 * i) 24"
    by (simp add: ac_simps)
  then show ?thesis
    by (auto simp: fetch32_def bytes_add_def shl_or_plus)
qed

lemma aligned_unaligned_loop: "aligned_loop be s k = unaligned_loop be s k"
proof (induction be s k rule: aligned_loop.induct)
  case (1 be a b c k)
  then show ?case
    by (simp add: aligned_loop.simps [of be a] unaligned_loop.simps [of be a] fetch32_bytes)
qed

lemma aligned_unaligned_tail: "aligned_tail be s k = unaligned_tail be s k"
  by (cases s) (auto simp: aligned_tail_def unaligned_tail_def Let_def fetch32_bytes bytes_add_def
      algebra_simps numeral_2_eq_2)

lemma store32_nth:
  assumes "i < 4"
  shows "store32 be w ! i = ucast (drop_bit (if be then 24 - 8 * i else 8 * i) w)"
proof -
  from assms consider "i = 0" | "i = 1" | "i = 2" | "i = 3" by linarith
  then show ?thesis by cases (auto simp: store32_def Let_def numeral_2_eq_2 numeral_3_eq_3)
qed

lemma length_store32 [simp]: "length (store32 be w) = 4"
  by (simp add: store32_def Let_def)

lemma fetch32_store32: "fetch32 be (store32 be w) 0 = w"
proof (rule bit_word_eqI)
  fix n :: nat
  assume "n < LENGTH(32)"
  then have n: "n < 32" by simp
  then consider "n < 8" | "8 \<le> n" "n < 16" | "16 \<le> n" "n < 24" | "24 \<le> n" by linarith
  then show "bit (fetch32 be (store32 be w) 0) n = bit w n"
    by cases (use n in \<open>auto simp: fetch32_def bit_or_iff bit_shl store32_nth bit_ucast_iff bit_drop_bit_eq\<close>)
qed

subsection \<open>The mixing step is reversible\<close>

definition unmix_line :: "uint32 \<Rightarrow> uint32 \<Rightarrow> uint32 \<Rightarrow> nat \<Rightarrow> uint32 \<times> uint32" where
  "unmix_line a b c k = ((a XOR rot (c - b) k) + (c - b), c - b)"

definition unmix :: "hash_state \<Rightarrow> hash_state" where
  "unmix s =
     (let (a, b, c) = s;
          (c, b) = unmix_line c a b 4;
          (b, a) = unmix_line b c a 19;
          (a, c) = unmix_line a b c 16;
          (c, b) = unmix_line c a b 8;
          (b, a) = unmix_line b c a 6;
          (a, c) = unmix_line a b c 4
      in (a, b, c))"

lemma unmix_line_mix_line: "mix_line a b c k = (a', c') \<Longrightarrow> unmix_line a' b c' k = (a, c)"
  by (auto simp: mix_line_def unmix_line_def xor.assoc)

lemma mix_line_unmix_line: "unmix_line a b c k = (a', c') \<Longrightarrow> mix_line a' b c' k = (a, c)"
  by (auto simp: mix_line_def unmix_line_def xor.assoc)

lemma unmix_mix: "unmix (mix s) = s"
  by (cases s) (simp add: mix_def unmix_def unmix_line_mix_line split: prod.split)

lemma mix_unmix: "mix (unmix s) = s"
  by (cases s) (simp add: mix_def unmix_def mix_line_unmix_line split: prod.split)

lemma hash_any_aligned: "hash_any be True k = hash_any be False k"
  by (simp add: hash_any_def aligned_unaligned_loop aligned_unaligned_tail)

text \<open>C35: the word-wide code path for aligned keys and the byte-wise path for unaligned ones compute the
  same hash of every key, on big-endian and on little-endian machines.\<close>

theorem hash_any_alignment: "hash_any be aligned k = hash_any be aligned' k"
  by (cases aligned; cases aligned') (simp_all add: hash_any_aligned)

text \<open>Hashing a 32-bit integer with \<^verbatim>\<open>hash_uint32\<close> has the same result as
  \<^verbatim>\<open>hash_any\<close> on the four bytes that hold it in memory, as the comment says.\<close>

lemma hash_uint32_any: "hash_uint32 w = hash_any be aligned (store32 be w)"
proof -
  have "hash_any be True (store32 be w) = hash_uint32 w"
    by (simp add: hash_any_def aligned_loop.simps hash_init_def Let_def aligned_tail_def
        fetch32_store32 hash_uint32_def)
  then show ?thesis by (cases aligned) (simp_all add: hash_any_aligned)
qed

text \<open>\<^verbatim>\<open>mix\<close> is reversible, as its comment says: it is a bijection on the three words of
  the internal state, so no two states are merged by a round.\<close>

lemma mix_bijective: "bij mix"
  by (rule o_bij [of unmix]) (auto simp: fun_eq_iff unmix_mix mix_unmix)

end
