(* ===== verification/AqoHash.thy ===== *)
theory AqoHash
  imports AqoUtils JenkinsHash
begin

text \<open>
  The hashes of queries and clauses (\<^verbatim>\<open>contrib/aqo/hash.c\<close>): removing the constants and locations
  from a printed query tree, hashing strings and integer arrays, and reading the arguments of a clause.

  A C string is the list of its characters without the final NUL. The printed form of a node is computed by
  \<^verbatim>\<open>nodeToString\<close>, which is an argument \<open>out\<close> of the functions that use it. The byte order of the
  machine is an argument too; the alignment of a hashed buffer is irrelevant, so that the aligned code path
  stands for both.

  The lemmas show that a removed stretch of text has no influence on the result, so that queries differing only
  in their constants have the same hash, and that the list hashes do not depend on the order.
\<close>

subsection \<open>Removing text\<close>

definition is_brace :: "char \<Rightarrow> bool" where
  "is_brace ch \<longleftrightarrow> ch = CHR ''{'' \<or> ch = CHR ''}''"

definition is_colon :: "char \<Rightarrow> bool" where
  "is_colon ch \<longleftrightarrow> ch = CHR '':''"

text \<open>
  The loop of \<^verbatim>\<open>replace_patterns\<close>. The string is split at the index \<^verbatim>\<open>i\<close>: \<open>seen\<close> holds
  the characters before it, the last one first, and \<open>rest\<close> those from it on.
\<close>

function replace_loop :: "string \<Rightarrow> (char \<Rightarrow> bool) \<Rightarrow> string \<Rightarrow> string \<Rightarrow> string" where
  "replace_loop start_pattern end_pattern seen rest =
     (if rest = [] then []
      else
        let skipped = (if take (length start_pattern) seen = rev start_pattern
                       then takeWhile (\<lambda>ch. \<not> end_pattern ch) rest else []);
            rest = drop (length skipped) rest
        in case rest of
             [] \<Rightarrow> []
           | ch # chs \<Rightarrow> ch # replace_loop start_pattern end_pattern (ch # rev skipped @ seen) chs)"
  by pat_completeness auto
termination
  by (relation "measure (\<lambda>(start_pattern, end_pattern, seen, rest). length rest)")
    (auto dest!: arg_cong [of _ _ length])

declare replace_loop.simps [simp del]

definition replace_patterns :: "string \<Rightarrow> string \<Rightarrow> (char \<Rightarrow> bool) \<Rightarrow> string" where
  "replace_patterns str start_pattern end_pattern = replace_loop start_pattern end_pattern [] str"

definition remove_consts :: "string \<Rightarrow> string" where
  "remove_consts str = replace_patterns str ''{CONST'' is_brace"

definition remove_locations :: "string \<Rightarrow> string" where
  "remove_locations str = replace_patterns str '' :location'' is_brace"

definition remove_varno :: "string \<Rightarrow> string" where
  "remove_varno str = replace_patterns str '' :varno'' is_colon"

definition remove_varnoold :: "string \<Rightarrow> string" where
  "remove_varnoold str = replace_patterns str '' :varnoold'' is_colon"

definition remove_stmt_len :: "string \<Rightarrow> string" where
  "remove_stmt_len str = replace_patterns str '' :stmt_len'' is_brace"

subsection \<open>Hashing strings and arrays\<close>

definition get_str_hash :: "bool \<Rightarrow> string \<Rightarrow> c_int" where
  "get_str_hash be str = hash_any be True (map of_char str)"

definition get_query_hash :: "bool \<Rightarrow> ('q \<Rightarrow> string) \<Rightarrow> 'q \<Rightarrow> c_int" where
  "get_query_hash be out parse =
     hash_any be True (map of_char
       (remove_stmt_len (remove_varnoold (remove_varno (remove_locations (remove_consts (out parse)))))))"

definition get_node_hash :: "bool \<Rightarrow> ('n \<Rightarrow> string) \<Rightarrow> 'n \<Rightarrow> c_int" where
  "get_node_hash be out node =
     get_str_hash be (remove_varnoold (remove_varno (remove_locations (remove_consts (out node)))))"

definition get_node_hash2 :: "bool \<Rightarrow> ('n \<Rightarrow> string) \<Rightarrow> 'n \<Rightarrow> c_int" where
  "get_node_hash2 be out node = get_str_hash be (out node)"

definition get_int_array_hash :: "bool \<Rightarrow> c_int list \<Rightarrow> c_int" where
  "get_int_array_hash be arr = hash_any be True (concat (map (store32 be) arr))"

definition get_unsorted_unsafe_int_array_hash :: "bool \<Rightarrow> c_int list \<Rightarrow> c_int" where
  "get_unsorted_unsafe_int_array_hash be arr = get_int_array_hash be (pg_qsort int_cmp arr)"

definition get_unordered_int_list_hash :: "bool \<Rightarrow> c_int list \<Rightarrow> c_int" where
  "get_unordered_int_list_hash be lst = get_unsorted_unsafe_int_array_hash be lst"

definition get_relidslist_hash :: "bool \<Rightarrow> c_int list \<Rightarrow> c_int" where
  "get_relidslist_hash be relidslist = get_unordered_int_list_hash be relidslist"

definition get_fss_hash :: "bool \<Rightarrow> c_int \<Rightarrow> c_int \<Rightarrow> c_int \<Rightarrow> c_int" where
  "get_fss_hash be clauses_hash eclasses_hash relidslist_hash =
     hash_any be True (concat (map (store32 be) [clauses_hash, eclasses_hash, relidslist_hash]))"

lemma get_unordered_int_list_hash_mset:
  "mset xs = mset ys \<Longrightarrow> get_unordered_int_list_hash be xs = get_unordered_int_list_hash be ys"
  unfolding get_unordered_int_list_hash_def get_unsorted_unsafe_int_array_hash_def
  by (simp add: int_order.pg_qsort_mset [of xs ys])

subsection \<open>A removed stretch has no influence\<close>

lemma replace_loop_empty [simp]: "replace_loop pat endp seen [] = []"
  by (simp add: replace_loop.simps)

lemma replace_loop_step:
  assumes "skipped = (if take (length pat) seen = rev pat then takeWhile (\<lambda>ch. \<not> endp ch) rest else [])"
    and "drop (length skipped) rest = ch # chs"
  shows "replace_loop pat endp seen rest = ch # replace_loop pat endp (ch # rev skipped @ seen) chs"
proof -
  have "rest \<noteq> []" using assms(2) by auto
  then show ?thesis by (subst replace_loop.simps) (simp add: assms(1) [symmetric] assms(2) Let_def)
qed

lemma replace_loop_stop:
  assumes "skipped = (if take (length pat) seen = rev pat then takeWhile (\<lambda>ch. \<not> endp ch) rest else [])"
    and "drop (length skipped) rest = []"
  shows "replace_loop pat endp seen rest = []"
  by (subst replace_loop.simps) (simp add: assms(1) [symmetric] assms(2) Let_def)

lemma replace_loop_copy:
  "take (length pat) seen \<noteq> rev pat \<Longrightarrow> replace_loop pat endp seen (ch # chs) = ch # replace_loop pat endp (ch # seen) chs"
  using replace_loop_step [of "[]" pat seen endp "ch # chs" ch chs] by simp

lemma replace_loop_skip:
  assumes "take (length pat) seen = rev pat" "\<forall>ch \<in> set mid. \<not> endp ch" "endp ch"
  shows "replace_loop pat endp seen (mid @ ch # chs) = ch # replace_loop pat endp (ch # rev mid @ seen) chs"
proof -
  have "takeWhile (\<lambda>ch. \<not> endp ch) (mid @ ch # chs) = mid" using assms(2, 3) by (simp add: takeWhile_append2)
  then show ?thesis using assms(1) by (intro replace_loop_step) simp_all
qed

text \<open>Only the characters that a match can still reach matter.\<close>

lemma replace_loop_seen:
  assumes "\<And>k. take (length pat) (rev (take k rest) @ seen) = rev pat \<longleftrightarrow> take (length pat) (rev (take k rest) @ seen') = rev pat"
  shows "replace_loop pat endp seen rest = replace_loop pat endp seen' rest"
  using assms
proof (induction "length rest" arbitrary: seen seen' rest rule: less_induct)
  case less
  show ?case
  proof (cases "rest = []")
    case False
    define skipped where
      "skipped = (if take (length pat) seen = rev pat then takeWhile (\<lambda>ch. \<not> endp ch) rest else [])"
    have same: "skipped = (if take (length pat) seen' = rev pat then takeWhile (\<lambda>ch. \<not> endp ch) rest else [])"
      using less.prems [of 0] by (simp add: skipped_def)
    have pre: "rest = skipped @ drop (length skipped) rest"
    proof -
      have "take (length skipped) rest = skipped" by (simp add: skipped_def takeWhile_eq_take [symmetric])
      then show ?thesis by (metis append_take_drop_id)
    qed
    show ?thesis
    proof (cases "drop (length skipped) rest")
      case Nil
      then have "replace_loop pat endp seen rest = []" "replace_loop pat endp seen' rest = []"
        using replace_loop_stop skipped_def same by blast+
      then show ?thesis by simp
    next
      case (Cons ch chs)
      have rest: "rest = skipped @ ch # chs" using pre Cons by simp
      have "replace_loop pat endp (ch # rev skipped @ seen) chs = replace_loop pat endp (ch # rev skipped @ seen') chs"
      proof (rule less.hyps)
        show "length chs < length rest" using rest by simp
        fix k
        show "take (length pat) (rev (take k chs) @ ch # rev skipped @ seen) = rev pat \<longleftrightarrow>
            take (length pat) (rev (take k chs) @ ch # rev skipped @ seen') = rev pat"
          using less.prems [of "length skipped + 1 + k"] by (simp add: rest)
      qed
      then show ?thesis
        using replace_loop_step [OF skipped_def Cons] replace_loop_step [OF same Cons] by simp
    qed
  qed simp
qed

lemma replace_loop_after:
  assumes "endp e" "\<forall>j < length pat. endp (pat ! j) \<longrightarrow> j \<le> length t"
  shows "replace_loop pat endp (e # rev t @ us) post = replace_loop pat endp (e # rev t @ us') post"
proof (rule replace_loop_seen)
  fix k
  let ?q = "length (take k post)"
  have no: "take (length pat) (rev (take k post) @ e # rev t @ vs) \<noteq> rev pat" if "?q + 1 + length t < length pat" for vs
  proof
    assume eq: "take (length pat) (rev (take k post) @ e # rev t @ vs) = rev pat"
    have "(rev (take k post) @ e # rev t @ vs) ! length (rev (take k post)) = e" by (rule nth_append_length)
    then have "take (length pat) (rev (take k post) @ e # rev t @ vs) ! ?q = e" using that by (subst nth_take) simp_all
    then have "pat ! (length pat - 1 - ?q) = e" using that eq by (simp add: rev_nth)
    then have "length pat - 1 - ?q \<le> length t" using assms that by auto
    then show False using that by linarith
  qed
  show "take (length pat) (rev (take k post) @ e # rev t @ us) = rev pat \<longleftrightarrow>
      take (length pat) (rev (take k post) @ e # rev t @ us') = rev pat"
  proof (cases "?q + 1 + length t < length pat")
    case False
    then have "length pat \<le> length (rev (take k post) @ e # rev t)" by simp
    then have "take (length pat) ((rev (take k post) @ e # rev t) @ vs) = take (length pat) (rev (take k post) @ e # rev t)" for vs
      by (metis append_Nil2 diff_is_0_eq take0 take_append)
    from this [of us] this [of us'] show ?thesis by (simp only: append.assoc append_Cons)
  qed (use no in blast)
qed

lemma replace_loop_before:
  assumes "\<forall>ch \<in> set (mid @ t). \<not> endp ch" "\<forall>ch \<in> set (mid' @ t). \<not> endp ch" "endp e"
    and "\<forall>j < length pat. endp (pat ! j) \<longrightarrow> j \<le> length t"
  shows "rev seen @ w = pre @ pat \<Longrightarrow>
    replace_loop pat endp seen (w @ mid @ t @ e # post) = replace_loop pat endp seen (w @ mid' @ t @ e # post)"
proof (induction "length w" arbitrary: seen w rule: less_induct)
  case less
  show ?case
  proof (cases "take (length pat) seen = rev pat")
    case True
    show ?thesis
    proof (cases "\<exists>ch \<in> set w. endp ch")
      case ex: True
      then obtain w1 c w2 where w: "w = w1 @ c # w2" "endp c" "\<forall>ch \<in> set w1. \<not> endp ch"
        by (metis split_list_first_prop)
      have "replace_loop pat endp (c # rev w1 @ seen) (w2 @ mid @ t @ e # post) =
          replace_loop pat endp (c # rev w1 @ seen) (w2 @ mid' @ t @ e # post)"
        using less.prems w(1) by (intro less.hyps) simp_all
      then show ?thesis using replace_loop_skip [OF True w(3, 2)] w(1) by simp
    next
      case False
      then have "\<forall>ch \<in> set (w @ mid @ t). \<not> endp ch" "\<forall>ch \<in> set (w @ mid' @ t). \<not> endp ch" using assms(1, 2) by auto
      then show ?thesis
        using replace_loop_skip [OF True, of _ endp e post] assms(3)
          replace_loop_after [OF assms(3, 4), of "rev mid @ rev w @ seen" post "rev mid' @ rev w @ seen"]
        by (metis append.assoc rev_append)
    qed
  next
    case False
    have "w \<noteq> []"
    proof
      assume "w = []"
      then have "seen = rev pat @ rev pre" using less.prems by (metis append_Nil2 rev_append rev_rev_ident)
      then show False using False by simp
    qed
    then obtain c w' where "w = c # w'" by (cases w) auto
    then show ?thesis using less.hyps [of w' "c # seen"] less.prems replace_loop_copy [OF False] by simp
  qed
qed

lemma replace_patterns_stretch:
  assumes "\<forall>ch \<in> set (mid @ t). \<not> endp ch" "\<forall>ch \<in> set (mid' @ t). \<not> endp ch" "endp e"
    and "\<forall>j < length pat. endp (pat ! j) \<longrightarrow> j \<le> length t"
  shows "replace_patterns (pre @ pat @ mid @ t @ e # post) pat endp = replace_patterns (pre @ pat @ mid' @ t @ e # post) pat endp"
  using replace_loop_before [OF assms, of "[]" "pre @ pat" pre post] by (simp add: replace_patterns_def)

text \<open>The result is shorter, and the text without a match is unchanged.\<close>

lemma length_replace_loop: "length (replace_loop pat endp seen rest) \<le> length rest"
proof (induction pat endp seen rest rule: replace_loop.induct)
  case (1 pat endp seen rest)
  define skipped where
    "skipped = (if take (length pat) seen = rev pat then takeWhile (\<lambda>ch. \<not> endp ch) rest else [])"
  show ?case
  proof (cases "drop (length skipped) rest")
    case Nil
    then show ?thesis using replace_loop_stop [OF skipped_def] by simp
  next
    case (Cons ch chs)
    then have "rest \<noteq> []" "length chs < length rest" by (auto dest!: arg_cong [of _ _ length])
    then show ?thesis
      using "1.IH" [OF _ skipped_def refl Cons] replace_loop_step [OF skipped_def Cons] by simp
  qed
qed

subsection \<open>Clauses\<close>

text \<open>
  Expression nodes as far as the hash functions look into them. The field of type \<open>'a\<close> stands for the other
  fields of a node; \<open>ParamNode\<close> is the node \<^verbatim>\<open>makeNode(Param)\<close> with its \<^verbatim>\<open>paramid\<close> set.
  A clause list is given by the clauses of its \<^verbatim>\<open>RestrictInfo\<close> nodes.
\<close>

datatype 'a node =
    Const 'a
  | ParamNode c_int
  | OpExpr 'a nat "'a node list"
  | DistinctExpr 'a nat "'a node list"
  | NullIfExpr 'a nat "'a node list"
  | ScalarArrayOpExpr 'a nat "'a node list"
  | OtherNode 'a

fun is_Const_node :: "'a node \<Rightarrow> bool" where
  "is_Const_node (Const _) = True"
| "is_Const_node _ = False"

definition has_consts :: "'a node list \<Rightarrow> bool" where
  "has_consts lst = list_ex is_Const_node lst"

fun get_clause_args_ptr :: "'a node \<Rightarrow> 'a node list option" where
  "get_clause_args_ptr (OpExpr _ _ args) = Some args"
| "get_clause_args_ptr (DistinctExpr _ _ args) = Some args"
| "get_clause_args_ptr (NullIfExpr _ _ args) = Some args"
| "get_clause_args_ptr (ScalarArrayOpExpr _ _ args) = Some args"
| "get_clause_args_ptr _ = None"

text \<open>Writing through the pointer.\<close>

fun set_clause_args :: "'a node \<Rightarrow> 'a node list \<Rightarrow> 'a node" where
  "set_clause_args (OpExpr x opno _) args = OpExpr x opno args"
| "set_clause_args (DistinctExpr x opno _) args = DistinctExpr x opno args"
| "set_clause_args (NullIfExpr x opno _) args = NullIfExpr x opno args"
| "set_clause_args (ScalarArrayOpExpr x opno _) args = ScalarArrayOpExpr x opno args"
| "set_clause_args node _ = node"

definition eq_operators :: "nat list" where
  "eq_operators = [96, 91, 98, 387, 1070, 2988, 15, 92, 93, 94, 352, 353, 385, 386, 410, 416, 503, 532, 533, 560, 566, 607,
     649, 620, 670, 792, 811, 900, 1093, 1108, 1550, 1120, 1130, 1320, 1330, 1500, 1535, 1616, 1220, 1201, 1752, 1784, 1804,
     1862, 1868, 1955, 2060, 2542, 2972, 3222, 3516, 3629, 3676, 3882, 3240, 3240]"

fun clause_is_eq_clause :: "'a node \<Rightarrow> bool" where
  "clause_is_eq_clause (OpExpr _ opno _) \<longleftrightarrow> opno \<in> set eq_operators"
| "clause_is_eq_clause (DistinctExpr _ opno _) \<longleftrightarrow> opno \<in> set eq_operators"
| "clause_is_eq_clause (NullIfExpr _ opno _) \<longleftrightarrow> opno \<in> set eq_operators"
| "clause_is_eq_clause (ScalarArrayOpExpr _ opno _) \<longleftrightarrow> opno \<in> set eq_operators"
| "clause_is_eq_clause _ \<longleftrightarrow> False"

subsection \<open>Properties\<close>

text \<open>C21: the hashes are insensitive to constants. If the printed forms of two queries differ only in the text of
  one constant, from \<^verbatim>\<open>{CONST\<close> up to the next brace, then the queries have the same hash, and so have two
  expression nodes. A difference in several constants is a chain of such pairs.\<close>

theorem query_hash_ignores_constants:
  assumes "out q = pre @ ''{CONST'' @ mid @ e # post" "out q' = pre @ ''{CONST'' @ mid' @ e # post"
    and "\<forall>ch \<in> set mid \<union> set mid'. \<not> is_brace ch" "is_brace e"
  shows "get_query_hash be out q = get_query_hash be out q' \<and> get_node_hash be out q = get_node_hash be out q'"
proof -
  have "\<forall>j < length ''{CONST''. is_brace (''{CONST'' ! j) \<longrightarrow> j \<le> length ([] :: string)"
    by (simp add: is_brace_def less_Suc_eq numeral_eq_Suc nth_Cons')
  then have "remove_consts (out q) = remove_consts (out q')"
    using replace_patterns_stretch [of mid "[]" is_brace mid' e "''{CONST''" pre post] assms
    by (simp add: remove_consts_def)
  then show ?thesis by (simp add: get_query_hash_def get_node_hash_def)
qed

theorem query_hash_ignores_constants_witness:
  "get_query_hash False id ''{OPEXPR :args ({CONST :constvalue 4 [ 7 0 0 0 ]})}'' =
   get_query_hash False id ''{OPEXPR :args ({CONST :constvalue 4 [ 42 0 0 0 ]})}''"
  using query_hash_ignores_constants [of id "''{OPEXPR :args ({CONST :constvalue 4 [ 7 0 0 0 ]})}''" "''{OPEXPR :args (''"
      "'' :constvalue 4 [ 7 0 0 0 ]''" "CHR ''}''" "'')}''" "''{OPEXPR :args ({CONST :constvalue 4 [ 42 0 0 0 ]})}''"
      "'' :constvalue 4 [ 42 0 0 0 ]''" False]
  by (simp add: is_brace_def)

text \<open>The other removals work as documented too: a location or a statement length has no influence up to the
  next brace, and a range table index none up to the blank before the next field; the result never grows.\<close>

lemma removed_text_has_no_influence:
  assumes "\<forall>ch \<in> set mid \<union> set mid'. \<not> is_brace ch \<and> \<not> is_colon ch" "is_brace e"
  shows "remove_locations (pre @ '' :location'' @ mid @ e # post) = remove_locations (pre @ '' :location'' @ mid' @ e # post) \<and>
    remove_stmt_len (pre @ '' :stmt_len'' @ mid @ e # post) = remove_stmt_len (pre @ '' :stmt_len'' @ mid' @ e # post) \<and>
    remove_varno (pre @ '' :varno'' @ mid @ '' :'' @ post) = remove_varno (pre @ '' :varno'' @ mid' @ '' :'' @ post) \<and>
    remove_varnoold (pre @ '' :varnoold'' @ mid @ '' :'' @ post) = remove_varnoold (pre @ '' :varnoold'' @ mid' @ '' :'' @ post) \<and>
    length (remove_locations str) \<le> length str"
proof (intro conjI)
  have loc: "\<forall>j < length '' :location''. is_brace ('' :location'' ! j) \<longrightarrow> j \<le> length ([] :: string)"
    and len: "\<forall>j < length '' :stmt_len''. is_brace ('' :stmt_len'' ! j) \<longrightarrow> j \<le> length ([] :: string)"
    by (simp_all add: is_brace_def less_Suc_eq numeral_eq_Suc nth_Cons')
  have var: "\<forall>j < length '' :varno''. is_colon ('' :varno'' ! j) \<longrightarrow> j \<le> length '' ''"
    and old: "\<forall>j < length '' :varnoold''. is_colon ('' :varnoold'' ! j) \<longrightarrow> j \<le> length '' ''"
    by (simp_all add: is_colon_def less_Suc_eq numeral_eq_Suc nth_Cons')
  have colon: "is_colon CHR '':''" and blank: "\<not> is_colon CHR '' ''" by (simp_all add: is_colon_def)
  show "remove_locations (pre @ '' :location'' @ mid @ e # post) = remove_locations (pre @ '' :location'' @ mid' @ e # post)"
    using replace_patterns_stretch [OF _ _ assms(2) loc, of mid mid' pre post] assms(1) by (simp add: remove_locations_def)
  show "remove_stmt_len (pre @ '' :stmt_len'' @ mid @ e # post) = remove_stmt_len (pre @ '' :stmt_len'' @ mid' @ e # post)"
    using replace_patterns_stretch [OF _ _ assms(2) len, of mid mid' pre post] assms(1) by (simp add: remove_stmt_len_def)
  show "remove_varno (pre @ '' :varno'' @ mid @ '' :'' @ post) = remove_varno (pre @ '' :varno'' @ mid' @ '' :'' @ post)"
    using replace_patterns_stretch [OF _ _ colon var, of mid mid' pre post] assms(1) blank by (simp add: remove_varno_def)
  show "remove_varnoold (pre @ '' :varnoold'' @ mid @ '' :'' @ post) = remove_varnoold (pre @ '' :varnoold'' @ mid' @ '' :'' @ post)"
    using replace_patterns_stretch [OF _ _ colon old, of mid mid' pre post] assms(1) blank by (simp add: remove_varnoold_def)
  show "length (remove_locations str) \<le> length str"
    by (simp add: remove_locations_def replace_patterns_def length_replace_loop)
qed

end
