(* ===== verification/Eclasses.thy ===== *)
theory Eclasses
  imports AqoHash "HOL-Library.Monad_Syntax"
begin

text \<open>
  The equivalence classes of clause arguments (\<^verbatim>\<open>contrib/aqo/hash.c\<close>): the arguments of the
  equality clauses are joined in a disjoint set with path compression, and each argument gets a hash of the
  members of its class. The array \<^verbatim>\<open>p\<close> holds the parents, with -1 at a root. Finding a root need not
  end on an arbitrary array and reading outside of the array is undefined in C; both are the value \<open>None\<close>.

  The lemmas show that on the arrays the program builds all calls return, that two arguments are in one class
  exactly if a chain of equality clauses joins them, and that the result does not depend on the order of the
  clauses.
\<close>

subsection \<open>Disjoint sets\<close>

partial_function (option) disjoint_set_get_parent :: "int list \<Rightarrow> int \<Rightarrow> (int list \<times> int) option" where
  "disjoint_set_get_parent p v =
     (if 0 \<le> v \<and> v < int (length p) then
        if p ! nat v = - 1 then Some (p, v)
        else do {
          (p, r) \<leftarrow> disjoint_set_get_parent p (p ! nat v);
          Some (p[nat v := r], r)
        }
      else None)"

definition disjoint_set_merge_eclasses :: "int list \<Rightarrow> int \<Rightarrow> int \<Rightarrow> int list option" where
  "disjoint_set_merge_eclasses p v1 v2 =
     do {
       (p, p1) \<leftarrow> disjoint_set_get_parent p v1;
       (p, p2) \<leftarrow> disjoint_set_get_parent p v2;
       Some (if p1 \<noteq> p2 then if (v1 + v2) mod 2 \<noteq> 0 then p[nat p1 := p2] else p[nat p2 := p1] else p)
     }"

text \<open>The root of an element, as a relation.\<close>

inductive set_root :: "int list \<Rightarrow> int \<Rightarrow> int \<Rightarrow> bool" for p where
  self: "0 \<le> v \<Longrightarrow> v < int (length p) \<Longrightarrow> p ! nat v = - 1 \<Longrightarrow> set_root p v v"
| up: "0 \<le> v \<Longrightarrow> v < int (length p) \<Longrightarrow> p ! nat v \<noteq> - 1 \<Longrightarrow> set_root p (p ! nat v) r \<Longrightarrow> set_root p v r"

inductive_cases set_root_cases: "set_root p v r"

definition forest :: "int list \<Rightarrow> bool" where
  "forest p \<longleftrightarrow> (\<forall>v. 0 \<le> v \<and> v < int (length p) \<longrightarrow> (\<exists>r. set_root p v r))"

definition same_class :: "int list \<Rightarrow> int \<Rightarrow> int \<Rightarrow> bool" where
  "same_class p i j \<longleftrightarrow> (\<exists>r. set_root p i r \<and> set_root p j r)"

lemma set_root_range: "set_root p v r \<Longrightarrow> 0 \<le> v \<and> v < int (length p) \<and> 0 \<le> r \<and> r < int (length p) \<and> p ! nat r = - 1"
  by (induction rule: set_root.induct) auto

lemma set_root_root: "set_root p v r \<Longrightarrow> set_root p r r"
  using set_root_range [of p v r] by (auto intro: set_root.self)

lemma set_root_unique: "set_root p v r \<Longrightarrow> set_root p v s \<Longrightarrow> r = s"
proof (induction arbitrary: s rule: set_root.induct)
  case (self v)
  then show ?case by (auto elim: set_root_cases)
next
  case (up v r)
  from up.prems up.hyps(3) have "set_root p (p ! nat v) s" by (auto elim: set_root_cases)
  then show ?case by (rule up.IH)
qed

text \<open>Path compression keeps all roots.\<close>

lemma set_root_compress:
  assumes "set_root p v r" "p ! nat v \<noteq> - 1"
  shows "set_root (p[nat v := r]) w s \<longleftrightarrow> set_root p w s"
proof
  note rng = set_root_range [OF assms(1)]
  have ne: "nat v \<noteq> nat r" using assms(2) rng by auto
  have new: "p[nat v := r] ! nat v = r" using rng by (simp add: nat_less_iff)
  show "set_root p w s \<Longrightarrow> set_root (p[nat v := r]) w s"
  proof (induction rule: set_root.induct)
    case (self w)
    then have "nat w \<noteq> nat v" using assms(2) by auto
    then show ?case using self by (intro set_root.self) simp_all
  next
    case (up w s)
    show ?case
    proof (cases "nat w = nat v")
      case True
      then have "w = v" using up.hyps rng by auto
      then have "s = r" using set_root_unique [OF assms(1)] set_root.up [OF up.hyps] by simp
      have "set_root (p[nat v := r]) r r" using rng ne by (intro set_root.self) auto
      then show ?thesis using \<open>w = v\<close> \<open>s = r\<close> rng new set_root.up [of v "p[nat v := r]" r] by simp
    next
      case False
      then show ?thesis using up by (simp add: set_root.up)
    qed
  qed
  show "set_root (p[nat v := r]) w s \<Longrightarrow> set_root p w s"
  proof (induction rule: set_root.induct)
    case (self w)
    then show ?case using rng by (intro set_root.self) (auto simp: nth_list_update split: if_splits)
  next
    case (up w s)
    show ?case
    proof (cases "nat w = nat v")
      case True
      then have "w = v" using up.hyps rng by auto
      then have "set_root p r s" using up new by simp
      then have "s = r" using set_root_unique set_root_root [OF assms(1)] by blast
      then show ?thesis using \<open>w = v\<close> assms(1) by simp
    next
      case False
      then show ?thesis using up by (simp add: set_root.up)
    qed
  qed
qed

lemma get_parent_root:
  "set_root p v r \<Longrightarrow> \<exists>p'. disjoint_set_get_parent p v = Some (p', r) \<and> length p' = length p \<and> (\<forall>w s. set_root p' w s \<longleftrightarrow> set_root p w s)"
proof (induction rule: set_root.induct)
  case (self v)
  then show ?case by (subst disjoint_set_get_parent.simps) auto
next
  case (up v r)
  then obtain p' where p': "disjoint_set_get_parent p (p ! nat v) = Some (p', r)" "length p' = length p"
    "\<forall>w s. set_root p' w s \<longleftrightarrow> set_root p w s" by blast
  have r: "set_root p' v r" using set_root.up [OF up.hyps] p'(3) by simp
  have "p' ! nat v \<noteq> - 1"
  proof
    assume "p' ! nat v = - 1"
    then have "set_root p' v v" using up.hyps p'(2) by (intro set_root.self) auto
    then have "set_root p v v" using p'(3) by simp
    then show False using set_root_range up.hyps(3) by blast
  qed
  then have "\<forall>w s. set_root (p'[nat v := r]) w s \<longleftrightarrow> set_root p w s" using set_root_compress [OF r] p'(3) by simp
  then show ?case using up.hyps p'(1, 2) by (subst disjoint_set_get_parent.simps) simp
qed

text \<open>Linking two roots joins their classes.\<close>

lemma set_root_link:
  assumes "set_root p a a" "set_root p b b" "a \<noteq> b"
  shows "set_root (p[nat a := b]) w s \<longleftrightarrow> (\<exists>r. set_root p w r \<and> s = (if r = a then b else r))"
proof
  note ra = set_root_range [OF assms(1)] and rb = set_root_range [OF assms(2)]
  have ne: "nat a \<noteq> nat b" using assms(3) ra rb by auto
  have new: "p[nat a := b] ! nat a = b" using ra by (simp add: nat_less_iff)
  show "set_root (p[nat a := b]) w s \<Longrightarrow> \<exists>r. set_root p w r \<and> s = (if r = a then b else r)"
  proof (induction rule: set_root.induct)
    case (self w)
    then have "set_root p w w" "w \<noteq> a" using ra rb by (auto intro!: set_root.self simp: nth_list_update split: if_splits)
    then show ?case by auto
  next
    case (up w s)
    show ?case
    proof (cases "nat w = nat a")
      case True
      then have "w = a" using up.hyps ra by auto
      then obtain r where "set_root p b r" "s = (if r = a then b else r)" using up new by auto
      then have "s = b" using set_root_unique [OF assms(2)] assms(3) by auto
      then show ?thesis using \<open>w = a\<close> assms(1) by auto
    next
      case False
      then obtain r where "set_root p (p ! nat w) r" "s = (if r = a then b else r)" using up by auto
      then show ?thesis using up False by (intro exI [of _ r]) (auto intro: set_root.up)
    qed
  qed
  have "set_root (p[nat a := b]) w (if r = a then b else r)" if "set_root p w r" for r
    using that
  proof (induction rule: set_root.induct)
    case (self w)
    have b: "set_root (p[nat a := b]) b b" using ne rb by (intro set_root.self) auto
    show ?case
    proof (cases "w = a")
      case True
      then show ?thesis using b ra rb new set_root.up [of a "p[nat a := b]" b] by simp
    next
      case False
      then have "nat w \<noteq> nat a" using self ra by auto
      then show ?thesis using self False by (simp add: set_root.self)
    qed
  next
    case (up w r)
    then have "nat w \<noteq> nat a" using ra by auto
    then show ?case using up by (simp add: set_root.up)
  qed
  then show "\<exists>r. set_root p w r \<and> s = (if r = a then b else r) \<Longrightarrow> set_root (p[nat a := b]) w s" by blast
qed

text \<open>Merging on a forest: the call returns and joins the two classes.\<close>

abbreviation valid :: "int list \<Rightarrow> int \<Rightarrow> bool" where
  "valid p v \<equiv> 0 \<le> v \<and> v < int (length p)"

lemma same_class_refl: "forest p \<Longrightarrow> valid p i \<Longrightarrow> same_class p i i"
  by (auto simp: forest_def same_class_def)

lemma same_class_valid: "same_class p i j \<Longrightarrow> valid p i \<and> valid p j"
  using set_root_range by (auto simp: same_class_def)

lemma same_class_sym: "same_class p i j \<longleftrightarrow> same_class p j i"
  by (auto simp: same_class_def)

lemma same_class_root: "set_root p i r \<Longrightarrow> same_class p i j \<longleftrightarrow> set_root p j r"
  using set_root_unique by (auto simp: same_class_def)

lemma link_classes:
  assumes "forest p" "set_root p a r" "set_root p b s" "r \<noteq> s"
  shows "forest (p[nat r := s]) \<and>
    (\<forall>i j. same_class (p[nat r := s]) i j \<longleftrightarrow>
       same_class p i j \<or> same_class p i a \<and> same_class p b j \<or> same_class p i b \<and> same_class p a j)"
proof
  note link = set_root_link [OF set_root_root [OF assms(2)] set_root_root [OF assms(3)] assms(4)]
  show "forest (p[nat r := s])" using assms(1) by (auto simp: forest_def link)
  have cls: "same_class p i a \<longleftrightarrow> set_root p i r" "same_class p a i \<longleftrightarrow> set_root p i r"
    "same_class p i b \<longleftrightarrow> set_root p i s" "same_class p b i \<longleftrightarrow> set_root p i s" for i
    using same_class_root [OF assms(2)] same_class_root [OF assms(3)] same_class_sym [of p i a] same_class_sym [of p i b] by simp_all
  show "\<forall>i j. same_class (p[nat r := s]) i j \<longleftrightarrow>
       same_class p i j \<or> same_class p i a \<and> same_class p b j \<or> same_class p i b \<and> same_class p a j"
  proof (intro allI)
    fix i j
    define f where "f t = (if t = r then s else t)" for t
    have "same_class (p[nat r := s]) i j \<longleftrightarrow> (\<exists>t u. set_root p i t \<and> set_root p j u \<and> f t = f u)"
      unfolding same_class_def link f_def [symmetric] by blast
    also have "\<dots> \<longleftrightarrow> same_class p i j \<or> set_root p i r \<and> set_root p j s \<or> set_root p i s \<and> set_root p j r"
    proof -
      have eq: "f t = f u \<longleftrightarrow> t = u \<or> t = r \<and> u = s \<or> t = s \<and> u = r" for t u using assms(4) by (auto simp: f_def)
      show ?thesis unfolding same_class_def eq by blast
    qed
    finally show "same_class (p[nat r := s]) i j \<longleftrightarrow>
       same_class p i j \<or> same_class p i a \<and> same_class p b j \<or> same_class p i b \<and> same_class p a j"
      by (simp add: cls)
  qed
qed

lemma merge_classes:
  assumes "forest p" "valid p a" "valid p b"
  shows "\<exists>p'. disjoint_set_merge_eclasses p a b = Some p' \<and> length p' = length p \<and> forest p' \<and>
    (\<forall>i j. same_class p' i j \<longleftrightarrow>
       same_class p i j \<or> same_class p i a \<and> same_class p b j \<or> same_class p i b \<and> same_class p a j)"
proof -
  obtain r s where rs: "set_root p a r" "set_root p b s" using assms unfolding forest_def by blast
  obtain p1 where p1: "disjoint_set_get_parent p a = Some (p1, r)" "length p1 = length p" "\<forall>w s. set_root p1 w s \<longleftrightarrow> set_root p w s"
    using get_parent_root [OF rs(1)] by blast
  have rs1: "set_root p1 a r" "set_root p1 b s" using rs p1(3) by auto
  obtain p2 where p2: "disjoint_set_get_parent p1 b = Some (p2, s)" "length p2 = length p1" "\<forall>w s. set_root p2 w s \<longleftrightarrow> set_root p1 w s"
    using get_parent_root [OF rs1(2)] by blast
  have roots: "set_root p2 = set_root p" using p1(3) p2(3) by (intro ext) simp
  have "forest p2" using assms(1) p1(2) p2(2) by (simp add: forest_def roots)
  have cls: "same_class p2 = same_class p" by (intro ext) (simp add: same_class_def roots)
  show ?thesis
  proof (cases "r = s")
    case True
    have "same_class p i j" if "same_class p i a \<and> same_class p b j \<or> same_class p i b \<and> same_class p a j" for i j
    proof -
      have "set_root p i s" "set_root p j s"
        using that True same_class_root [OF rs(1)] same_class_root [OF rs(2)] same_class_sym [of p i a] same_class_sym [of p i b] by metis+
      then show ?thesis by (auto simp: same_class_def)
    qed
    then have "\<forall>i j. same_class p2 i j \<longleftrightarrow>
       same_class p i j \<or> same_class p i a \<and> same_class p b j \<or> same_class p i b \<and> same_class p a j"
      unfolding cls by blast
    moreover have "disjoint_set_merge_eclasses p a b = Some p2"
      using True p1(1) p2(1) by (simp add: disjoint_set_merge_eclasses_def)
    ultimately show ?thesis using \<open>forest p2\<close> p1(2) p2(2) by (intro exI [of _ p2]) simp
  next
    case False
    have "set_root p2 a r" "set_root p2 b s" using rs by (simp_all add: roots)
    note links = link_classes [OF \<open>forest p2\<close> this False] link_classes [OF \<open>forest p2\<close> this(2, 1)]
    show ?thesis
    proof (cases "(a + b) mod 2 \<noteq> 0")
      case True
      then have "disjoint_set_merge_eclasses p a b = Some (p2[nat r := s])"
        using False p1(1) p2(1) by (simp add: disjoint_set_merge_eclasses_def)
      then show ?thesis using links(1) p1(2) p2(2) by (simp add: cls)
    next
      case even: False
      then have "disjoint_set_merge_eclasses p a b = Some (p2[nat s := r])"
        using False p1(1) p2(1) by (simp add: disjoint_set_merge_eclasses_def)
      then show ?thesis using links(2) False p1(2) p2(2) by (simp add: cls) blast
    qed
  qed
qed

subsection \<open>The arguments of equality clauses\<close>

definition clause_arg_hashes :: "bool \<Rightarrow> ('a node \<Rightarrow> string) \<Rightarrow> 'a node \<Rightarrow> c_int list" where
  "clause_arg_hashes be out clause =
     (case get_clause_args_ptr clause of
        None \<Rightarrow> []
      | Some args \<Rightarrow>
          if clause_is_eq_clause clause
          then map (get_node_hash be out) (filter (\<lambda>arg. \<not> is_Const_node arg) args) else [])"

text \<open>
  The loop that moves the distinct elements of the sorted array to its front; \<^verbatim>\<open>sh\<close> counts the
  duplicates found so far.
\<close>

definition dedupe_step :: "c_int list \<times> nat \<Rightarrow> nat \<Rightarrow> c_int list \<times> nat" where
  "dedupe_step st i =
     (case st of (args_hash, sh) \<Rightarrow>
        if args_hash ! (i - 1) = args_hash ! i then (args_hash, sh + 1)
        else (args_hash[i - sh := args_hash ! i], sh))"

definition get_clauselist_args :: "bool \<Rightarrow> ('a node \<Rightarrow> string) \<Rightarrow> 'a node list \<Rightarrow> c_int list" where
  "get_clauselist_args be out clauselist =
     (let args_hash = pg_qsort int_cmp (concat (map (clause_arg_hashes be out) clauselist));
          cnt = length args_hash;
          (args_hash, sh) = foldl dedupe_step (args_hash, 0) [1..<cnt]
      in take (cnt - sh) args_hash)"

definition get_id_in_sorted_int_array :: "c_int \<Rightarrow> c_int list \<Rightarrow> int" where
  "get_id_in_sorted_int_array val arr =
     (case bsearch int_cmp val arr of None \<Rightarrow> - 1 | Some i \<Rightarrow> int i)"

definition get_arg_eclass :: "c_int \<Rightarrow> c_int list \<Rightarrow> c_int list \<Rightarrow> c_int" where
  "get_arg_eclass arg_hash args_hash eclass_hash =
     (let di = get_id_in_sorted_int_array arg_hash args_hash in
      if di = - 1 then 0 else eclass_hash ! nat di)"

fun join_args :: "bool \<Rightarrow> ('a node \<Rightarrow> string) \<Rightarrow> c_int list \<Rightarrow> int list \<Rightarrow> int \<Rightarrow> 'a node list \<Rightarrow> int list option" where
  "join_args be out args_hash p i3 [] = Some p"
| "join_args be out args_hash p i3 (arg # args) =
     (if is_Const_node arg then join_args be out args_hash p i3 args
      else
        let i2 = get_id_in_sorted_int_array (get_node_hash be out arg) args_hash in
        do {
          p \<leftarrow> (if i3 \<noteq> - 1 then disjoint_set_merge_eclasses p i2 i3 else Some p);
          join_args be out args_hash p i2 args
        })"

fun join_clauses :: "bool \<Rightarrow> ('a node \<Rightarrow> string) \<Rightarrow> c_int list \<Rightarrow> int list \<Rightarrow> 'a node list \<Rightarrow> int list option" where
  "join_clauses be out args_hash p [] = Some p"
| "join_clauses be out args_hash p (clause # clauses) =
     do {
       p \<leftarrow> (case get_clause_args_ptr clause of
              None \<Rightarrow> Some p
            | Some args \<Rightarrow> if clause_is_eq_clause clause then join_args be out args_hash p (- 1) args else Some p);
       join_clauses be out args_hash p clauses
     }"

definition perform_eclasses_join :: "bool \<Rightarrow> ('a node \<Rightarrow> string) \<Rightarrow> 'a node list \<Rightarrow> c_int list \<Rightarrow> int list option" where
  "perform_eclasses_join be out clauselist args_hash =
     join_clauses be out args_hash (replicate (length args_hash) (- 1)) clauselist"

fun collect_members :: "c_int list \<Rightarrow> int list \<Rightarrow> c_int list list \<Rightarrow> nat list \<Rightarrow> (int list \<times> c_int list list) option" where
  "collect_members args_hash p lsts [] = Some (p, lsts)"
| "collect_members args_hash p lsts (i # is) =
     do {
       (p, v) \<leftarrow> disjoint_set_get_parent p (int i);
       collect_members args_hash p (lsts[nat v := lsts ! nat v @ [args_hash ! i]]) is
     }"

fun pick_hashes :: "c_int list \<Rightarrow> int list \<Rightarrow> nat list \<Rightarrow> c_int list option" where
  "pick_hashes e_hashes p [] = Some []"
| "pick_hashes e_hashes p (i # is) =
     do {
       (p, v) \<leftarrow> disjoint_set_get_parent p (int i);
       hs \<leftarrow> pick_hashes e_hashes p is;
       Some (e_hashes ! nat v # hs)
     }"

definition get_eclasses :: "bool \<Rightarrow> ('a node \<Rightarrow> string) \<Rightarrow> 'a node list \<Rightarrow> (c_int list \<times> c_int list) option" where
  "get_eclasses be out clauselist =
     (let args_hash = get_clauselist_args be out clauselist; nargs = length args_hash in
      do {
        p \<leftarrow> perform_eclasses_join be out clauselist args_hash;
        (p, lsts) \<leftarrow> collect_members args_hash p (replicate nargs []) [0..<nargs];
        eclass_hash \<leftarrow> pick_hashes (map (get_unordered_int_list_hash be) lsts) p [0..<nargs];
        Some (args_hash, eclass_hash)
      })"

subsection \<open>The sorted array of distinct hashes\<close>

lemma dedupe_loop:
  assumes "k \<le> length xs" "1 \<le> k"
  shows "\<exists>ys. foldl dedupe_step (xs, 0) [1..<k] = (ys, k - length (remdups_adj (take k xs))) \<and> length ys = length xs \<and>
    take (length (remdups_adj (take k xs))) ys = remdups_adj (take k xs) \<and> (\<forall>j. k - 1 \<le> j \<longrightarrow> ys ! j = xs ! j)"
  using assms(2, 1)
proof (induction k rule: dec_induct)
  case base
  then show ?case by (cases xs) auto
next
  case (step k)
  let ?r = "remdups_adj (take k xs)"
  obtain ys where ys: "foldl dedupe_step (xs, 0) [1..<k] = (ys, k - length ?r)" "length ys = length xs"
    "take (length ?r) ys = ?r" "\<forall>j. k - 1 \<le> j \<longrightarrow> ys ! j = xs ! j" using step by auto
  have le: "length ?r \<le> k" using remdups_adj_length [of "take k xs"] by simp
  have k: "Suc (k - 1) = k" using step.hyps by simp
  have tk: "take k xs = take (k - 1) xs @ [xs ! (k - 1)]" using take_Suc_conv_app_nth [of "k - 1" xs] step k by simp
  have "take (Suc k) xs = take (k - 1) xs @ [xs ! (k - 1), xs ! k]" using take_Suc_conv_app_nth [of k xs] step tk by simp
  then have r': "remdups_adj (take (Suc k) xs) = ?r @ (if xs ! (k - 1) = xs ! k then [] else [xs ! k])"
    by (simp add: remdups_adj_append_two tk)
  have up: "[1..<Suc k] = [1..<k] @ [k]" using step.hyps by simp
  have fold: "foldl dedupe_step (xs, 0) [1..<Suc k] = dedupe_step (ys, k - length ?r) k"
    by (simp only: up foldl_append ys(1) foldl_Cons foldl_Nil)
  show ?case
  proof (cases "xs ! (k - 1) = xs ! k")
    case True
    then show ?thesis unfolding fold using ys(2-4) le r' by (intro exI [of _ ys]) (simp add: dedupe_step_def Suc_diff_le)
  next
    case False
    let ?zs = "ys[length ?r := xs ! k]"
    have "foldl dedupe_step (xs, 0) [1..<Suc k] = (?zs, k - length ?r)"
      unfolding fold using ys(2-4) False le by (simp add: dedupe_step_def)
    moreover have "take (Suc (length ?r)) ?zs = ?r @ [xs ! k]"
      using ys(2, 3) le step.prems by (simp add: take_Suc_conv_app_nth)
    moreover have "\<forall>j. k \<le> j \<longrightarrow> ?zs ! j = xs ! j" using ys(4) le step.prems by (auto simp: nth_list_update ys(2))
    ultimately show ?thesis using r' False ys(2) by (intro exI [of _ ?zs]) simp
  qed
qed

lemma get_clauselist_args_eq:
  "get_clauselist_args be out clauselist = remdups_adj (pg_qsort int_cmp (concat (map (clause_arg_hashes be out) clauselist)))"
proof -
  define xs where "xs = pg_qsort int_cmp (concat (map (clause_arg_hashes be out) clauselist))"
  show ?thesis
  proof (cases "xs = []")
    case True
    then show ?thesis by (simp add: get_clauselist_args_def xs_def [symmetric])
  next
    case False
    then obtain ys where ys: "foldl dedupe_step (xs, 0) [1..<length xs] = (ys, length xs - length (remdups_adj xs))"
      "take (length (remdups_adj xs)) ys = remdups_adj xs"
      using dedupe_loop [of "length xs" xs] by (auto simp: Suc_le_eq)
    have "length (remdups_adj xs) \<le> length xs" by (rule remdups_adj_length)
    then show ?thesis using ys by (simp add: get_clauselist_args_def xs_def [symmetric] Let_def)
  qed
qed

abbreviation clauselist_hashes :: "bool \<Rightarrow> ('a node \<Rightarrow> string) \<Rightarrow> 'a node list \<Rightarrow> c_int set" where
  "clauselist_hashes be out clauselist \<equiv> (\<Union>clause \<in> set clauselist. set (clause_arg_hashes be out clause))"

lemma strict_remdups_adj: "sorted_wrt (\<lambda>a b. sint a \<le> sint b) xs \<Longrightarrow> sorted_wrt (\<lambda>a b. sint a < sint b) (remdups_adj (xs :: c_int list))"
proof (induction xs rule: remdups_adj.induct)
  case (3 x y xs)
  show ?case
  proof (cases "x = y")
    case False
    then have "sint x \<noteq> sint y" by (auto dest: signed_word_eqI)
    then have "sint x < sint y" using "3.prems" by force
    moreover have "\<forall>z \<in> set xs. sint y \<le> sint z" using "3.prems" by simp
    ultimately show ?thesis using 3 False by fastforce
  qed (use 3 in simp)
qed simp_all

lemma get_clauselist_args_sorted:
  "sorted_wrt (\<lambda>a b. sint a < sint b) (get_clauselist_args be out clauselist)"
  "set (get_clauselist_args be out clauselist) = clauselist_hashes be out clauselist"
proof -
  let ?c = "concat (map (clause_arg_hashes be out) clauselist)"
  have srt: "mset (pg_qsort int_cmp ?c) = mset ?c" "sorted_wrt (\<lambda>a b. sint a \<le> sint b) (pg_qsort int_cmp ?c)"
    using int_order.pg_qsort_sorts [of ?c] by (simp_all add: int_cmp_le)
  then show "sorted_wrt (\<lambda>a b. sint a < sint b) (get_clauselist_args be out clauselist)"
    unfolding get_clauselist_args_eq by (intro strict_remdups_adj)
  have "set (pg_qsort int_cmp ?c) = set ?c" using srt(1) by (metis set_mset_mset)
  then show "set (get_clauselist_args be out clauselist) = clauselist_hashes be out clauselist"
    by (simp add: get_clauselist_args_eq)
qed

text \<open>The index of a hash, for a strictly sorted array.\<close>

lemma strict_sorted_facts:
  assumes "sorted_wrt (\<lambda>a b. sint a < sint b) (arr :: c_int list)"
  shows "distinct arr" "sorted_wrt (\<lambda>a b. int_cmp a b \<le> 0) arr"
proof -
  show "distinct arr" using assms by (induction arr) auto
  show "sorted_wrt (\<lambda>a b. int_cmp a b \<le> 0) arr"
    using assms by (rule sorted_wrt_mono_rel [rotated]) (simp add: int_cmp_le)
qed

lemma get_id_found:
  assumes "sorted_wrt (\<lambda>a b. sint a < sint b) arr" "h \<in> set arr"
  shows "\<exists>i < length arr. get_id_in_sorted_int_array h arr = int i \<and> arr ! i = h"
proof -
  note bs = int_order.bsearch_finds [OF strict_sorted_facts(2) [OF assms(1)], of h]
  show ?thesis
  proof (cases "bsearch int_cmp h arr")
    case None
    then show ?thesis using bs assms(2) int_order.cmp_refl by fastforce
  next
    case (Some i)
    then have "i < length arr" "arr ! i = h" using bs int_order.cmp_eq [of h "arr ! i"] by auto
    then show ?thesis using Some by (auto simp: get_id_in_sorted_int_array_def)
  qed
qed

subsection \<open>The classes are those of the joined pairs\<close>

abbreviation joined :: "('b \<times> 'b) set \<Rightarrow> ('b \<times> 'b) set" where
  "joined E \<equiv> (E \<union> E\<inverse>)\<^sup>*"

lemma joined_sym: "(x, y) \<in> joined E \<longleftrightarrow> (y, x) \<in> joined E"
proof -
  have "sym (joined E)" by (intro sym_rtrancl) (auto simp: sym_def)
  then show ?thesis by (auto dest: symD)
qed

lemma joined_insert:
  "(x, y) \<in> joined (insert (a, b) E) \<longleftrightarrow>
     (x, y) \<in> joined E \<or> (x, a) \<in> joined E \<and> (b, y) \<in> joined E \<or> (x, b) \<in> joined E \<and> (a, y) \<in> joined E"
proof -
  have eq: "insert (a, b) E \<union> (insert (a, b) E)\<inverse> = insert (a, b) (insert (b, a) (E \<union> E\<inverse>))" by auto
  have tr: "(u, v) \<in> joined E \<Longrightarrow> (v, w) \<in> joined E \<Longrightarrow> (u, w) \<in> joined E" for u v w by (rule rtrancl_trans)
  show ?thesis unfolding eq rtrancl_insert using tr joined_sym [of _ _ E] by blast
qed

definition classes_of :: "int list \<Rightarrow> (int \<times> int) set \<Rightarrow> bool" where
  "classes_of p E \<longleftrightarrow> forest p \<and> (\<forall>i j. same_class p i j \<longleftrightarrow> valid p i \<and> valid p j \<and> (i, j) \<in> joined E)"

lemma classes_of_init: "classes_of (replicate n (- 1)) {}"
proof -
  have r: "set_root (replicate n (- 1)) i s \<longleftrightarrow> 0 \<le> i \<and> i < int n \<and> s = i" for i s
    by (subst set_root.simps) (auto simp: nat_less_iff)
  show ?thesis unfolding classes_of_def forest_def same_class_def r by auto
qed

lemma merge_classes_of:
  assumes "classes_of p E" "valid p a" "valid p b"
  shows "\<exists>p'. disjoint_set_merge_eclasses p a b = Some p' \<and> length p' = length p \<and> classes_of p' (insert (b, a) E)"
proof -
  obtain p' where p': "disjoint_set_merge_eclasses p a b = Some p'" "length p' = length p" "forest p'"
    and cls: "\<And>i j. same_class p' i j \<longleftrightarrow>
       same_class p i j \<or> same_class p i a \<and> same_class p b j \<or> same_class p i b \<and> same_class p a j"
    using merge_classes [of p a b] assms by (auto simp: classes_of_def)
  have "same_class p i j \<longleftrightarrow> valid p i \<and> valid p j \<and> (i, j) \<in> joined E" for i j using assms(1) by (simp add: classes_of_def)
  then have "classes_of p' (insert (b, a) E)"
    unfolding classes_of_def joined_insert cls using p'(2, 3) assms(2, 3) by auto
  then show ?thesis using p'(1, 2) by blast
qed

definition steps :: "'b list \<Rightarrow> ('b \<times> 'b) set" where
  "steps xs = set (zip xs (tl xs))"

lemma steps_Cons [simp]: "steps [] = {}" "steps [x] = {}" "steps (x # y # xs) = insert (x, y) (steps (y # xs))"
  by (simp_all add: steps_def)

lemma join_args_classes:
  assumes "sorted_wrt (\<lambda>a b. sint a < sint b) arr" "length p = length arr" "classes_of p E"
    "get_node_hash be out ` {arg \<in> set args. \<not> is_Const_node arg} \<subseteq> set arr" "i3 = - 1 \<or> valid p i3"
  shows "\<exists>p'. join_args be out arr p i3 args = Some p' \<and> length p' = length arr \<and>
    classes_of p' (E \<union> steps ((if i3 = - 1 then [] else [i3]) @
      map (\<lambda>arg. get_id_in_sorted_int_array (get_node_hash be out arg) arr) (filter (\<lambda>arg. \<not> is_Const_node arg) args)))"
  using assms(2-)
proof (induction args arbitrary: p E i3)
  case (Cons arg args)
  have sub: "get_node_hash be out ` {arg \<in> set args. \<not> is_Const_node arg} \<subseteq> set arr" using Cons.prems(3) by auto
  show ?case
  proof (cases "is_Const_node arg")
    case True
    then show ?thesis using Cons.IH [OF Cons.prems(1, 2) sub Cons.prems(4)] by simp
  next
    case False
    define i2 where "i2 = get_id_in_sorted_int_array (get_node_hash be out arg) arr"
    have "get_node_hash be out arg \<in> set arr" using Cons.prems(3) False by auto
    from get_id_found [OF assms(1) this] have i2: "valid p i2" "i2 \<noteq> - 1" using Cons.prems(1) by (auto simp: i2_def)
    show ?thesis
    proof (cases "i3 = - 1")
      case True
      then show ?thesis using Cons.IH [OF Cons.prems(1, 2) sub, of i2] False i2 by (simp add: i2_def [symmetric] Let_def)
    next
      case i3: False
      then obtain p1 where p1: "disjoint_set_merge_eclasses p i2 i3 = Some p1" "length p1 = length p"
        "classes_of p1 (insert (i3, i2) E)"
        using merge_classes_of [OF Cons.prems(2), of i2 i3] Cons.prems(4) i2 by auto
      then show ?thesis
        using Cons.IH [OF _ p1(3) sub, of i2] Cons.prems(1) False i2 i3 by (simp add: i2_def [symmetric] Let_def)
    qed
  qed
qed simp

lemma join_clauses_classes:
  assumes "sorted_wrt (\<lambda>a b. sint a < sint b) arr" "length p = length arr" "classes_of p E"
    "clauselist_hashes be out clauselist \<subseteq> set arr"
  shows "\<exists>p'. join_clauses be out arr p clauselist = Some p' \<and> length p' = length arr \<and>
    classes_of p' (E \<union> (\<Union>clause \<in> set clauselist.
      steps (map (\<lambda>h. get_id_in_sorted_int_array h arr) (clause_arg_hashes be out clause))))"
  using assms(2-)
proof (induction clauselist arbitrary: p E)
  case (Cons clause clauselist)
  let ?S = "steps (map (\<lambda>h. get_id_in_sorted_int_array h arr) (clause_arg_hashes be out clause))"
  obtain p1 where p1: "(case get_clause_args_ptr clause of None \<Rightarrow> Some p
      | Some args \<Rightarrow> if clause_is_eq_clause clause then join_args be out arr p (- 1) args else Some p) = Some p1"
    "length p1 = length arr" "classes_of p1 (E \<union> ?S)"
  proof (cases "get_clause_args_ptr clause")
    case None
    then show ?thesis using that [of p] Cons.prems by (simp add: clause_arg_hashes_def)
  next
    case (Some args)
    show ?thesis
    proof (cases "clause_is_eq_clause clause")
      case True
      then have "get_node_hash be out ` {arg \<in> set args. \<not> is_Const_node arg} \<subseteq> set arr"
        using Cons.prems(3) Some by (auto simp: clause_arg_hashes_def)
      from join_args_classes [OF assms(1) Cons.prems(1, 2) this, of "- 1"] show ?thesis
        using that Some True by (auto simp: clause_arg_hashes_def comp_def)
    next
      case False
      then show ?thesis using that [of p] Some Cons.prems by (simp add: clause_arg_hashes_def)
    qed
  qed
  from Cons.IH [OF p1(2, 3)] show ?case using p1(1) Cons.prems(3) by (simp add: Un_assoc)
qed simp

definition equal_pairs :: "bool \<Rightarrow> ('a node \<Rightarrow> string) \<Rightarrow> 'a node list \<Rightarrow> (c_int \<times> c_int) set" where
  "equal_pairs be out clauselist = (\<Union>clause \<in> set clauselist. steps (clause_arg_hashes be out clause))"

lemma steps_map: "steps (map f xs) = (\<lambda>(x, y). (f x, f y)) ` steps xs"
  by (induction xs rule: induct_list012) simp_all

lemma steps_subset: "(x, y) \<in> steps xs \<Longrightarrow> x \<in> set xs \<and> y \<in> set xs"
  by (induction xs rule: induct_list012) auto

lemma rtrancl_image:
  assumes "\<And>x y. (x, y) \<in> r \<Longrightarrow> (f x, f y) \<in> s" "(a, b) \<in> r\<^sup>*"
  shows "(f a, f b) \<in> s\<^sup>*"
  using assms(2) by (induction rule: rtrancl_induct) (auto intro: rtrancl_into_rtrancl assms(1))

lemma joined_index:
  assumes "sorted_wrt (\<lambda>a b. sint a < sint b) arr" "clauselist_hashes be out clauselist \<subseteq> set arr"
    "i < length arr" "j < length arr"
  shows "(int i, int j) \<in> joined (\<Union>clause \<in> set clauselist.
      steps (map (\<lambda>h. get_id_in_sorted_int_array h arr) (clause_arg_hashes be out clause)))
    \<longleftrightarrow> (arr ! i, arr ! j) \<in> joined (equal_pairs be out clauselist)" (is "_ \<in> joined ?I \<longleftrightarrow> _")
proof
  let ?f = "\<lambda>h. get_id_in_sorted_int_array h arr" and ?g = "\<lambda>i. arr ! nat i"
  have gf: "?g (?f h) = h" if "h \<in> set arr" for h using get_id_found [OF assms(1) that] by auto
  have fg: "?f (arr ! i) = int i" if "i < length arr" for i
    using get_id_found [OF assms(1) nth_mem [OF that]] strict_sorted_facts(1) [OF assms(1)] that
    by (auto simp: nth_eq_iff_index_eq)
  have I: "?I = (\<lambda>(x, y). (?f x, ?f y)) ` equal_pairs be out clauselist"
    unfolding equal_pairs_def steps_map by blast
  have arr: "x \<in> set arr \<and> y \<in> set arr" if "(x, y) \<in> equal_pairs be out clauselist" for x y
    using that assms(2) steps_subset unfolding equal_pairs_def by fastforce
  have "(?g x, ?g y) \<in> equal_pairs be out clauselist \<union> (equal_pairs be out clauselist)\<inverse>" if "(x, y) \<in> ?I \<union> ?I\<inverse>" for x y
    using that arr gf unfolding I by auto
  then show "(arr ! i, arr ! j) \<in> joined (equal_pairs be out clauselist)" if "(int i, int j) \<in> joined ?I"
    using rtrancl_image [of "?I \<union> ?I\<inverse>" ?g _ "int i" "int j"] that by simp
  have "(?f x, ?f y) \<in> ?I \<union> ?I\<inverse>" if "(x, y) \<in> equal_pairs be out clauselist \<union> (equal_pairs be out clauselist)\<inverse>" for x y
    using that unfolding I by auto
  then show "(int i, int j) \<in> joined ?I" if "(arr ! i, arr ! j) \<in> joined (equal_pairs be out clauselist)"
    using rtrancl_image [of _ ?f "?I \<union> ?I\<inverse>", OF _ that] fg assms(3, 4) by simp
qed

lemma collect_members_spec:
  assumes "forest p" "set is \<subseteq> {0..<length p}" "length lsts = length p"
  shows "\<exists>p' lsts'. collect_members arr p lsts is = Some (p', lsts') \<and> length p' = length p \<and> set_root p' = set_root p \<and>
    length lsts' = length p \<and>
    (\<forall>v < length p. lsts' ! v = lsts ! v @ map ((!) arr) (filter (\<lambda>i. set_root p (int i) (int v)) is))"
  using assms
proof (induction "is" arbitrary: p lsts)
  case (Cons i "is")
  obtain r where r: "set_root p (int i) r" using Cons.prems(1, 2) unfolding forest_def by fastforce
  obtain p1 where p1: "disjoint_set_get_parent p (int i) = Some (p1, r)" "length p1 = length p"
    "\<forall>w s. set_root p1 w s \<longleftrightarrow> set_root p w s" using get_parent_root [OF r] by blast
  have roots: "set_root p1 = set_root p" using p1(3) by (intro ext) simp
  have rng: "0 \<le> r" "nat r < length p" using set_root_range [OF r] by (simp_all add: nat_less_iff)
  have sub: "set is \<subseteq> {0..<length p1}" and len: "length (lsts[nat r := lsts ! nat r @ [arr ! i]]) = length p1"
    using Cons.prems(2, 3) p1(2) by simp_all
  have "forest p1" using Cons.prems(1) p1(2) by (simp add: forest_def roots)
  then obtain p' lsts' where l: "collect_members arr p1 (lsts[nat r := lsts ! nat r @ [arr ! i]]) is = Some (p', lsts')"
    "length p' = length p1" "set_root p' = set_root p1" "length lsts' = length p1"
    "\<forall>v < length p1. lsts' ! v = lsts[nat r := lsts ! nat r @ [arr ! i]] ! v @ map ((!) arr) (filter (\<lambda>i. set_root p1 (int i) (int v)) is)"
    using Cons.IH [OF _ sub len] by blast
  have "set_root p (int i) (int v) \<longleftrightarrow> v = nat r" for v using r rng set_root_unique [OF r, of "int v"] by auto
  then show ?case using l p1(1, 2) roots rng Cons.prems(3) by (simp add: nth_list_update)
qed simp

lemma pick_hashes_spec:
  assumes "forest p" "set is \<subseteq> {0..<length p}"
  shows "\<exists>hs. pick_hashes e_hashes p is = Some hs \<and> length hs = length is \<and>
    (\<forall>k < length is. \<exists>r. set_root p (int (is ! k)) r \<and> hs ! k = e_hashes ! nat r)"
  using assms
proof (induction "is" arbitrary: p)
  case (Cons i "is")
  obtain r where r: "set_root p (int i) r" using Cons.prems unfolding forest_def by fastforce
  obtain p1 where p1: "disjoint_set_get_parent p (int i) = Some (p1, r)" "length p1 = length p"
    "\<forall>w s. set_root p1 w s \<longleftrightarrow> set_root p w s" using get_parent_root [OF r] by blast
  have roots: "set_root p1 = set_root p" using p1(3) by (intro ext) simp
  have "forest p1" using Cons.prems(1) p1(2) by (simp add: forest_def roots)
  moreover have "set is \<subseteq> {0..<length p1}" using Cons.prems(2) p1(2) by simp
  ultimately obtain hs where hs: "pick_hashes e_hashes p1 is = Some hs" "length hs = length is"
    "\<forall>k < length is. \<exists>r. set_root p (int (is ! k)) r \<and> hs ! k = e_hashes ! nat r"
    using Cons.IH [of p1] unfolding roots by blast
  then show ?case using p1(1) r by (auto simp: less_Suc_eq_0_disj)
qed simp

lemma filter_by_index: "map ((!) xs) (filter (\<lambda>i. P (xs ! i)) [0..<length xs]) = filter P xs"
  by (metis (no_types, lifting) filter_cong filter_map comp_apply map_nth)

lemma get_eclasses_spec:
  "\<exists>args_hash eclass_hash. get_eclasses be out clauselist = Some (args_hash, eclass_hash) \<and>
     args_hash = get_clauselist_args be out clauselist \<and> length eclass_hash = length args_hash \<and>
     (\<forall>i < length args_hash. eclass_hash ! i = get_unordered_int_list_hash be
        (filter (\<lambda>h. (args_hash ! i, h) \<in> joined (equal_pairs be out clauselist)) args_hash))"
proof -
  define arr where "arr = get_clauselist_args be out clauselist"
  let ?n = "length arr"
  let ?I = "\<Union>clause \<in> set clauselist. steps (map (\<lambda>h. get_id_in_sorted_int_array h arr) (clause_arg_hashes be out clause))"
  have srt: "sorted_wrt (\<lambda>a b. sint a < sint b) arr" and sub: "clauselist_hashes be out clauselist \<subseteq> set arr"
    using get_clauselist_args_sorted [of be out clauselist] by (simp_all add: arr_def)
  obtain p where p: "perform_eclasses_join be out clauselist arr = Some p" "length p = ?n" "classes_of p ?I"
    using join_clauses_classes [OF srt _ classes_of_init sub] by (auto simp: perform_eclasses_join_def)
  have forest: "forest p" using p(3) by (simp add: classes_of_def)
  obtain p' lsts where l: "collect_members arr p (replicate ?n []) [0..<?n] = Some (p', lsts)" "length p' = ?n"
    "set_root p' = set_root p" "length lsts = ?n"
    "\<forall>v < ?n. lsts ! v = map ((!) arr) (filter (\<lambda>i. set_root p (int i) (int v)) [0..<?n])"
    using collect_members_spec [OF forest, of "[0..<?n]" "replicate ?n []" arr] p(2) by auto
  have "forest p'" using forest l(2, 3) p(2) by (simp add: forest_def)
  then obtain hs where hs: "pick_hashes (map (get_unordered_int_list_hash be) lsts) p' [0..<?n] = Some hs" "length hs = ?n"
    "\<forall>k < ?n. \<exists>r. set_root p (int k) r \<and> hs ! k = map (get_unordered_int_list_hash be) lsts ! nat r"
    using pick_hashes_spec [of p' "[0..<?n]" "map (get_unordered_int_list_hash be) lsts"] l(2, 3) by auto
  have "hs ! i = get_unordered_int_list_hash be (filter (\<lambda>h. (arr ! i, h) \<in> joined (equal_pairs be out clauselist)) arr)"
    if i: "i < ?n" for i
  proof -
    obtain r where r: "set_root p (int i) r" "hs ! i = map (get_unordered_int_list_hash be) lsts ! nat r" using hs(3) i by blast
    have rng: "0 \<le> r" "nat r < ?n" using set_root_range [OF r(1)] p(2) by (simp_all add: nat_less_iff)
    have "set_root p (int j) r \<longleftrightarrow> (arr ! i, arr ! j) \<in> joined (equal_pairs be out clauselist)" if "j < ?n" for j
      using same_class_root [OF r(1), of "int j"] p(2, 3) i that joined_index [OF srt sub i that] by (simp add: classes_of_def)
    then have "filter (\<lambda>j. set_root p (int j) r) [0..<?n] = filter (\<lambda>j. (arr ! i, arr ! j) \<in> joined (equal_pairs be out clauselist)) [0..<?n]"
      by (intro filter_cong) auto
    then have "lsts ! nat r = filter (\<lambda>h. (arr ! i, h) \<in> joined (equal_pairs be out clauselist)) arr"
      using l(5) rng filter_by_index [of arr "\<lambda>h. (arr ! i, h) \<in> joined (equal_pairs be out clauselist)"] by simp
    then show ?thesis using r(2) rng l(4) by simp
  qed
  moreover have "get_eclasses be out clauselist = Some (arr, hs)"
    using p(1) l(1) hs(1) by (simp add: get_eclasses_def Let_def arr_def [symmetric])
  ultimately show ?thesis using hs(2) by (simp add: arr_def)
qed

lemma get_eclasses_eq:
  "get_eclasses be out clauselist =
     Some (get_clauselist_args be out clauselist,
       map (\<lambda>a. get_unordered_int_list_hash be
              (filter (\<lambda>h. (a, h) \<in> joined (equal_pairs be out clauselist)) (get_clauselist_args be out clauselist)))
         (get_clauselist_args be out clauselist))" (is "_ = Some (?args, ?es)")
proof -
  obtain es where es: "get_eclasses be out clauselist = Some (?args, es)" "length es = length ?args"
    "\<forall>i < length ?args. es ! i = get_unordered_int_list_hash be
       (filter (\<lambda>h. (?args ! i, h) \<in> joined (equal_pairs be out clauselist)) ?args)"
    using get_eclasses_spec [of be out clauselist] by (elim exE conjE) simp
  have "es = ?es" using es(2, 3) by (intro nth_equalityI) simp_all
  then show ?thesis using es(1) by simp
qed

lemma get_clauselist_args_set:
  assumes "set clauselist = set clauselist'"
  shows "get_clauselist_args be out clauselist = get_clauselist_args be out clauselist'"
proof (rule int_order.sorted_unique)
  note srt = get_clauselist_args_sorted [of be out clauselist] get_clauselist_args_sorted [of be out clauselist']
  show "sorted_wrt (\<lambda>a b. int_cmp a b \<le> 0) (get_clauselist_args be out clauselist)"
    by (rule strict_sorted_facts(2) [OF srt(1)])
  show "sorted_wrt (\<lambda>a b. int_cmp a b \<le> 0) (get_clauselist_args be out clauselist')"
    by (rule strict_sorted_facts(2) [OF srt(3)])
  have "set (get_clauselist_args be out clauselist) = set (get_clauselist_args be out clauselist')"
    using srt assms by simp
  then show "mset (get_clauselist_args be out clauselist) = mset (get_clauselist_args be out clauselist')"
    using set_eq_iff_mset_eq_distinct [OF strict_sorted_facts(1) [OF srt(1)] strict_sorted_facts(1) [OF srt(3)]] by simp
qed

lemma get_eclasses_set:
  assumes "set clauselist = set clauselist'"
  shows "get_eclasses be out clauselist = get_eclasses be out clauselist'"
proof -
  have "equal_pairs be out clauselist = equal_pairs be out clauselist'" using assms by (simp add: equal_pairs_def)
  then show ?thesis by (simp only: get_eclasses_eq get_clauselist_args_set [OF assms])
qed

subsection \<open>The hash of a clause\<close>

definition replace_args :: "('a node \<Rightarrow> c_int) \<Rightarrow> c_int list \<Rightarrow> c_int list \<Rightarrow> 'a node list \<Rightarrow> 'a node list" where
  "replace_args hash args_hash eclass_hash args =
     map (\<lambda>arg. let arg_eclass = get_arg_eclass (hash arg) args_hash eclass_hash in
                if arg_eclass \<noteq> 0 then ParamNode arg_eclass else arg) args"

text \<open>\<^verbatim>\<open>linitial\<close> of an empty argument list is undefined.\<close>

definition clause_hash_by :: "('a node \<Rightarrow> c_int) \<Rightarrow> 'a node \<Rightarrow> c_int list \<Rightarrow> c_int list \<Rightarrow> c_int option" where
  "clause_hash_by hash clause args_hash eclass_hash =
     (case get_clause_args_ptr clause of
        None \<Rightarrow> Some (hash clause)
      | Some args \<Rightarrow>
          let args = replace_args hash args_hash eclass_hash args; cclause = set_clause_args clause args in
          if \<not> clause_is_eq_clause clause \<or> has_consts args then Some (hash cclause)
          else (case args of [] \<Rightarrow> None | arg # _ \<Rightarrow> Some (hash arg)))"

definition get_clause_hash :: "bool \<Rightarrow> ('a node \<Rightarrow> string) \<Rightarrow> 'a node \<Rightarrow> c_int list \<Rightarrow> c_int list \<Rightarrow> c_int option" where
  "get_clause_hash be out = clause_hash_by (get_node_hash be out)"

definition get_clause_hash2 :: "bool \<Rightarrow> ('a node \<Rightarrow> string) \<Rightarrow> 'a node \<Rightarrow> c_int list \<Rightarrow> c_int list \<Rightarrow> c_int option" where
  "get_clause_hash2 be out = clause_hash_by (get_node_hash2 be out)"

lemma steps_joined: "x \<in> set xs \<Longrightarrow> y \<in> set xs \<Longrightarrow> (x, y) \<in> joined (steps xs)"
proof -
  have first: "\<forall>y \<in> set (z # zs). (z, y) \<in> joined (steps (z # zs))" for z :: 'b and zs
  proof (induction zs arbitrary: z)
    case (Cons w zs)
    have mono: "joined (steps (w # zs)) \<subseteq> joined (steps (z # w # zs))" by (intro rtrancl_mono) auto
    have "(z, w) \<in> joined (steps (z # w # zs))" by auto
    then show ?case using Cons.IH [of w] mono by (auto intro: rtrancl_trans)
  qed simp
  assume "x \<in> set xs" "y \<in> set xs"
  then obtain z zs where "xs = z # zs" by (cases xs) auto
  then show ?thesis using first [of z zs] \<open>x \<in> set xs\<close> \<open>y \<in> set xs\<close> joined_sym [of z x]
    by (auto intro: rtrancl_trans)
qed

lemma joined_filter_eq:
  "(x, y) \<in> joined E \<Longrightarrow> filter (\<lambda>h. (x, h) \<in> joined E) hs = filter (\<lambda>h. (y, h) \<in> joined E) hs"
  using joined_sym [of x y E] by (intro filter_cong) (auto intro: rtrancl_trans)

lemma clause_class_common:
  assumes "get_eclasses be out clauselist = Some (args_hash, eclass_hash)" "clause \<in> set clauselist"
    and "h \<in> set (clause_arg_hashes be out clause)" "h' \<in> set (clause_arg_hashes be out clause)"
  shows "get_arg_eclass h args_hash eclass_hash = get_arg_eclass h' args_hash eclass_hash"
proof -
  let ?E = "equal_pairs be out clauselist"
  have arr: "args_hash = get_clauselist_args be out clauselist"
    and es: "\<forall>i < length args_hash. eclass_hash ! i = get_unordered_int_list_hash be (filter (\<lambda>h. (args_hash ! i, h) \<in> joined ?E) args_hash)"
    using get_eclasses_eq [of be out clauselist] assms(1) by auto
  have srt: "sorted_wrt (\<lambda>a b. sint a < sint b) args_hash" and mem: "set (clause_arg_hashes be out clause) \<subseteq> set args_hash"
    using get_clauselist_args_sorted [of be out clauselist] assms(2) unfolding arr by auto
  have val: "get_arg_eclass h args_hash eclass_hash = get_unordered_int_list_hash be (filter (\<lambda>k. (h, k) \<in> joined ?E) args_hash)"
    if h: "h \<in> set (clause_arg_hashes be out clause)" for h
  proof -
    have "h \<in> set args_hash" using mem h by blast
    from get_id_found [OF srt this] show ?thesis using es by (auto simp: get_arg_eclass_def Let_def)
  qed
  have "steps (clause_arg_hashes be out clause) \<subseteq> ?E" using assms(2) by (auto simp: equal_pairs_def)
  then have "joined (steps (clause_arg_hashes be out clause)) \<subseteq> joined ?E" by (intro rtrancl_mono) auto
  then have "(h, h') \<in> joined ?E" using steps_joined [OF assms(3, 4)] by blast
  then show ?thesis using val [OF assms(3)] val [OF assms(4)] joined_filter_eq by metis
qed

subsection \<open>Properties\<close>

text \<open>C11: \<^verbatim>\<open>get_eclasses\<close> always returns, and computes the classes of the equivalence closure. The
  array of argument hashes is strictly increasing and holds exactly the hashes of the non-constant arguments of
  equality clauses; the entry of each argument in the second array is the order-insensitive hash of all arguments
  that a chain of equality clauses joins with it. The result depends only on the set of the clauses.\<close>

theorem get_eclasses_classes:
  "\<exists>args_hash eclass_hash. get_eclasses be out clauselist = Some (args_hash, eclass_hash) \<and>
     sorted_wrt (\<lambda>a b. sint a < sint b) args_hash \<and>
     set args_hash = (\<Union>clause \<in> set clauselist. set (clause_arg_hashes be out clause)) \<and>
     length eclass_hash = length args_hash \<and>
     (\<forall>i < length args_hash. eclass_hash ! i = get_unordered_int_list_hash be
        (filter (\<lambda>h. (args_hash ! i, h) \<in> joined (equal_pairs be out clauselist)) args_hash)) \<and>
     (\<forall>clauselist'. set clauselist' = set clauselist \<longrightarrow> get_eclasses be out clauselist' = Some (args_hash, eclass_hash))"
proof (intro exI conjI)
  show "get_eclasses be out clauselist = Some (get_clauselist_args be out clauselist,
      map (\<lambda>a. get_unordered_int_list_hash be
             (filter (\<lambda>h. (a, h) \<in> joined (equal_pairs be out clauselist)) (get_clauselist_args be out clauselist)))
        (get_clauselist_args be out clauselist))"
    by (rule get_eclasses_eq)
  then show "\<forall>clauselist'. set clauselist' = set clauselist \<longrightarrow>
      get_eclasses be out clauselist' = Some (get_clauselist_args be out clauselist,
        map (\<lambda>a. get_unordered_int_list_hash be
               (filter (\<lambda>h. (a, h) \<in> joined (equal_pairs be out clauselist)) (get_clauselist_args be out clauselist)))
          (get_clauselist_args be out clauselist))"
    using get_eclasses_set [of _ clauselist be out] by metis
qed (simp_all add: get_clauselist_args_sorted)

theorem get_eclasses_classes_witness:
  "\<exists>args_hash eclass_hash. get_eclasses False (\<lambda>_. ''x'') [OpExpr () 96 [OtherNode (), OtherNode ()]] = Some (args_hash, eclass_hash) \<and>
     get_eclasses False (\<lambda>_. ''x'') [OpExpr () 96 [OtherNode (), OtherNode ()], OpExpr () 96 [OtherNode (), OtherNode ()]] =
       Some (args_hash, eclass_hash)"
  using get_eclasses_classes [of False "\<lambda>_. ''x''" "[OpExpr () 96 [OtherNode (), OtherNode ()]]"] by auto

text \<open>The hash of an equality clause does not depend on the order of its arguments. All arguments of a clause
  of the list have one class; unless the hash of that class happens to be 0, the clause without constants is hashed
  as the parameter that stands for the class.\<close>

lemma eq_clause_hash_is_class:
  assumes "get_eclasses be out clauselist = Some (args_hash, eclass_hash)" "clause \<in> set clauselist"
    and "get_clause_args_ptr clause = Some args" "clause_is_eq_clause clause" "args \<noteq> []" "\<not> has_consts args"
  shows "\<exists>e. (\<forall>arg \<in> set args. get_arg_eclass (get_node_hash be out arg) args_hash eclass_hash = e) \<and>
    (e \<noteq> 0 \<longrightarrow> get_clause_hash be out clause args_hash eclass_hash = Some (get_node_hash be out (ParamNode e)))"
proof -
  have hs: "clause_arg_hashes be out clause = map (get_node_hash be out) args"
    using assms(3, 4, 6) by (simp add: clause_arg_hashes_def has_consts_def list_ex_iff filter_id_conv)
  obtain a as where args: "args = a # as" using assms(5) by (cases args) auto
  let ?e = "get_arg_eclass (get_node_hash be out a) args_hash eclass_hash"
  have all: "\<forall>arg \<in> set args. get_arg_eclass (get_node_hash be out arg) args_hash eclass_hash = ?e"
    using clause_class_common [OF assms(1, 2)] hs args by auto
  have "get_clause_hash be out clause args_hash eclass_hash = Some (get_node_hash be out (ParamNode ?e))" if "?e \<noteq> 0"
  proof -
    have "replace_args (get_node_hash be out) args_hash eclass_hash args = map (\<lambda>_. ParamNode ?e) args"
      using all that by (simp add: replace_args_def Let_def)
    then show ?thesis
      using assms(3, 4) args by (simp add: get_clause_hash_def clause_hash_by_def has_consts_def list_ex_iff Let_def)
  qed
  then show ?thesis using all by blast
qed

end
