(* ===== verification/FeatureSubspace.thy ===== *)
theory FeatureSubspace
  imports Eclasses
begin

text \<open>
  The feature subspace of a query object (\<^verbatim>\<open>get_fss_for_object\<close> of \<^verbatim>\<open>contrib/aqo/hash.c\<close>): the
  logarithms of the selectivities are sorted by the hashes of their clauses, clauses with equal hashes are
  compacted in place, and the hashes of the clauses, the equivalence classes and the relations are combined.
  Arrays from \<^verbatim>\<open>palloc\<close> start with unknown contents, which are arguments. Selectivities are not
  negative; the logarithm of 0 is below every bound.

  The lemmas show that the in-place loops compute the sorted list of the kept pairs of hash and feature, so
  that the result does not depend on the order of the clauses, nor on the contents of fresh memory.
\<close>

subsection \<open>Definitions\<close>

definition log_selectivity_lower_bound :: real where
  "log_selectivity_lower_bound = - 30"

definition selectivity_feature :: "real \<Rightarrow> real" where
  "selectivity_feature sel =
     (if sel \<le> 0 \<or> ln sel < log_selectivity_lower_bound then log_selectivity_lower_bound else ln sel)"

definition fill_features :: "nat list \<Rightarrow> c_int list \<Rightarrow> real list \<Rightarrow> real list \<times> c_int list \<Rightarrow> real list \<times> c_int list" where
  "fill_features inverse_idx clause_hashes selectivities arrays =
     foldl (\<lambda>(features, sorted_clauses) i.
         (features[inverse_idx ! i := selectivity_feature (selectivities ! i)],
          sorted_clauses[inverse_idx ! i := clause_hashes ! i]))
       arrays [0..<length selectivities]"

text \<open>
  The two inner loops over a group of equal hashes; \<open>has_const j\<close> is the flag of the clause at place \<open>j\<close>
  of the sorted order.
\<close>

function count_consts :: "(nat \<Rightarrow> bool) \<Rightarrow> c_int list \<Rightarrow> nat \<Rightarrow> nat \<Rightarrow> nat \<Rightarrow> nat \<times> nat" where
  "count_consts has_const sorted_clauses i j k =
     (if j < length sorted_clauses \<and> sorted_clauses ! j = sorted_clauses ! i
      then count_consts has_const sorted_clauses i (j + 1) (k + of_bool (has_const j))
      else (k, j))"
  by pat_completeness auto
termination
  by (relation "measure (\<lambda>(has_const, sorted_clauses, i, j, k). length sorted_clauses - j)") auto

function compact_group ::
  "(nat \<Rightarrow> bool) \<Rightarrow> bool \<Rightarrow> nat \<Rightarrow> real list \<Rightarrow> c_int list \<Rightarrow> nat \<Rightarrow> nat \<Rightarrow> nat \<times> real list \<times> c_int list \<times> nat" where
  "compact_group has_const keep_all i features sorted_clauses j sh =
     (if j < length sorted_clauses \<and> sorted_clauses ! j = sorted_clauses ! i then
        if has_const j \<or> keep_all
        then compact_group has_const keep_all i (features[j - sh := features ! j])
               (sorted_clauses[j - sh := sorted_clauses ! j]) (j + 1) sh
        else compact_group has_const keep_all i features sorted_clauses (j + 1) (sh + 1)
      else (j, features, sorted_clauses, sh))"
  by pat_completeness auto
termination
  by (relation "measure (\<lambda>(has_const, keep_all, i, features, sorted_clauses, j, sh). length sorted_clauses - j)") auto

declare count_consts.simps [simp del] compact_group.simps [simp del]

definition sort_range :: "nat \<Rightarrow> nat \<Rightarrow> real list \<Rightarrow> real list" where
  "sort_range a len xs = take a xs @ pg_qsort double_cmp (take len (drop a xs)) @ drop (a + len) xs"

lemma compact_group_progress:
  "compact_group has_const keep_all i features sorted_clauses j sh = (j', features', sorted_clauses', sh') \<Longrightarrow>
     j \<le> j' \<and> length sorted_clauses' = length sorted_clauses \<and> length features' = length features"
proof (induction has_const keep_all i features sorted_clauses j sh rule: compact_group.induct)
  case (1 has_const keep_all i features sorted_clauses j sh)
  let ?go = "j < length sorted_clauses \<and> sorted_clauses ! j = sorted_clauses ! i"
  consider "\<not> ?go" | "?go" "has_const j \<or> keep_all" | "?go" "\<not> (has_const j \<or> keep_all)" by blast
  then show ?case
  proof cases
    case 1
    then show ?thesis using "1.prems" by (subst (asm) compact_group.simps) auto
  next
    case 2
    then have "compact_group has_const keep_all i (features[j - sh := features ! j])
        (sorted_clauses[j - sh := sorted_clauses ! j]) (j + 1) sh = (j', features', sorted_clauses', sh')"
      using "1.prems" by (subst (asm) compact_group.simps) simp
    from "1.IH"(1) [OF 2 this] show ?thesis by simp
  next
    case 3
    then have "compact_group has_const keep_all i features sorted_clauses (j + 1) (sh + 1) = (j', features', sorted_clauses', sh')"
      using "1.prems" by (subst (asm) compact_group.simps) simp
    from "1.IH"(2) [OF 3 this] show ?thesis by simp
  qed
qed

lemma compact_group_moves:
  assumes "compact_group has_const keep_all i features sorted_clauses i sh = (j', features', sorted_clauses', sh')"
    "i < length sorted_clauses"
  shows "i < j' \<and> length sorted_clauses' = length sorted_clauses"
proof -
  consider "compact_group has_const keep_all i (features[i - sh := features ! i])
        (sorted_clauses[i - sh := sorted_clauses ! i]) (i + 1) sh = (j', features', sorted_clauses', sh')"
    | "compact_group has_const keep_all i features sorted_clauses (i + 1) (sh + 1) = (j', features', sorted_clauses', sh')"
    using assms by (subst (asm) compact_group.simps) (auto split: if_splits)
  then show ?thesis by cases (auto dest: compact_group_progress)
qed

text \<open>The loop over the groups.\<close>

function group_loop :: "(nat \<Rightarrow> bool) \<Rightarrow> nat \<Rightarrow> real list \<Rightarrow> c_int list \<Rightarrow> nat \<Rightarrow> real list \<times> c_int list \<times> nat" where
  "group_loop has_const i features sorted_clauses sh =
     (if i < length sorted_clauses then
        case count_consts has_const sorted_clauses i i 0 of (k, m) \<Rightarrow>
        case compact_group has_const (k + 1 = m - i) i features sorted_clauses i sh of
          (j, features', sorted_clauses', sh') \<Rightarrow>
            group_loop has_const j (sort_range (i - sh) (j - sh' - (i - sh)) features') sorted_clauses' sh'
      else (features, sorted_clauses, sh))"
  by pat_completeness auto
termination
proof (relation "measure (\<lambda>(has_const, i, features, sorted_clauses, sh). length sorted_clauses - i)")
  fix has_const i features and sorted_clauses :: "c_int list" and sh k m j f1 s1 sh1 x1 x2 x3
  assume "i < length sorted_clauses" "(k, m) = count_consts has_const sorted_clauses i i 0"
    "(j, x1) = compact_group has_const (k + 1 = m - i) i features sorted_clauses i sh" "(f1, x2) = x1" "(s1, sh1) = x2"
  then have "i < j" "length s1 = length sorted_clauses"
    using compact_group_moves [of has_const "k + 1 = m - i" i features sorted_clauses sh j f1 s1 sh1] by auto
  then show "((has_const, j, sort_range (i - sh) (j - sh1 - (i - sh)) f1, s1, sh1), has_const, i, features, sorted_clauses, sh)
      \<in> measure (\<lambda>(has_const, i, features, sorted_clauses, sh). length sorted_clauses - i)"
    using \<open>i < length sorted_clauses\<close> by simp
qed auto

declare group_loop.simps [simp del]

definition clause_has_consts :: "'a node \<Rightarrow> bool" where
  "clause_has_consts clause = (case get_clause_args_ptr clause of None \<Rightarrow> False | Some args \<Rightarrow> has_consts args)"

definition get_fss_for_object ::
  "bool \<Rightarrow> ('a node \<Rightarrow> string) \<Rightarrow> nat list \<Rightarrow> c_int list \<Rightarrow> 'a node list \<Rightarrow> real list \<Rightarrow> c_int list \<Rightarrow> (nat \<times> c_int \<times> real list) option"
where
  "get_fss_for_object be out inverse_mem sorted_mem clauselist selectivities relidslist =
     do {
       (args_hash, eclass_hash) \<leftarrow> get_eclasses be out clauselist;
       clause_hashes \<leftarrow> those (map (\<lambda>clause. get_clause_hash be out clause args_hash eclass_hash) clauselist);
       let n = length clauselist;
       let has_consts = map clause_has_consts clauselist;
       let idx = argsort clause_hashes int_cmp;
       let inverse_idx = inverse_permutation inverse_mem idx;
       let (features, sorted_clauses) = fill_features inverse_idx clause_hashes selectivities (replicate n 0, sorted_mem);
       let (features, sorted_clauses, sh) = group_loop (\<lambda>j. has_consts ! (idx ! j)) 0 features sorted_clauses 0;
       let nfeatures = n - sh;
       let clauses_hash = get_int_array_hash be (take nfeatures sorted_clauses);
       let eclasses_hash = get_int_array_hash be eclass_hash;
       Some (nfeatures, get_fss_hash be clauses_hash eclasses_hash (get_relidslist_hash be relidslist),
         take nfeatures features)
     }"

subsection \<open>Pairs of a hash and a feature\<close>

definition pair_cmp :: "(c_int \<times> real) comparator" where
  "pair_cmp x y = (if int_cmp (fst x) (fst y) \<noteq> 0 then int_cmp (fst x) (fst y) else double_cmp (snd x) (snd y))"

interpretation pair_order: linear_comparator pair_cmp
proof
  show "pair_cmp x y < 0 \<longleftrightarrow> 0 < pair_cmp y x" for x y
    by (auto simp: pair_cmp_def int_cmp_def double_cmp_def split: if_splits)
  show "pair_cmp x z \<le> 0" if "pair_cmp x y \<le> 0" "pair_cmp y z \<le> 0" for x y z
    using that by (auto simp: pair_cmp_def int_cmp_def double_cmp_def split: if_splits)
  show "x = y" if "pair_cmp x y = 0" for x y
    using that int_order.cmp_eq double_order.cmp_eq by (auto simp: pair_cmp_def prod_eq_iff split: if_splits)
qed

lemma pair_cmp_less: "sint h < sint h' \<Longrightarrow> pair_cmp (h, f) (h', f') \<le> 0"
  by (simp add: pair_cmp_def int_cmp_def)

lemma pair_cmp_same: "pair_cmp (h, f) (h, f') \<le> 0 \<longleftrightarrow> f \<le> f'"
  by (simp add: pair_cmp_def double_cmp_le)

subsection \<open>One group of equal hashes\<close>

lemma count_consts_group:
  assumes "m \<le> length s" "\<forall>x. j \<le> x \<and> x < m \<longrightarrow> s ! x = s ! i" "m < length s \<Longrightarrow> s ! m \<noteq> s ! i" "j \<le> m"
  shows "count_consts c s i j k = (k + length (filter c [j..<m]), m)"
  using assms
proof (induction "m - j" arbitrary: j k)
  case 0
  then have "j = m" "\<not> (j < length s \<and> s ! j = s ! i)" by auto
  then show ?case by (subst count_consts.simps) auto
next
  case (Suc d)
  then have j: "j < m" "s ! j = s ! i" "j < length s" by auto
  have "count_consts c s i (j + 1) (k + of_bool (c j)) = (k + of_bool (c j) + length (filter c [j + 1..<m]), m)"
    using Suc j by (intro Suc.hyps(1)) auto
  then show ?case using j by (subst count_consts.simps) (simp add: upt_conv_Cons)
qed

lemma compact_group_spec:
  assumes "length f = n" "length s = n" "i < n" "i \<le> j" "j \<le> m" "m \<le> n" "sh \<le> j" "s ! i = h"
    and "\<forall>x. j \<le> x \<and> x < n \<longrightarrow> f ! x = F ! x \<and> s ! x = S ! x"
    and "\<forall>x. j \<le> x \<and> x < m \<longrightarrow> S ! x = h" "m < n \<Longrightarrow> S ! m \<noteq> h"
  shows "\<exists>f' s' sh'. compact_group c all i f s j sh = (m, f', s', sh') \<and> length f' = n \<and> length s' = n \<and> sh' \<le> m \<and>
    (\<forall>x. m \<le> x \<and> x < n \<longrightarrow> f' ! x = F ! x \<and> s' ! x = S ! x) \<and>
    m - sh' = j - sh + length (filter (\<lambda>x. c x \<or> all) [j..<m]) \<and>
    take (m - sh') f' = take (j - sh) f @ map ((!) F) (filter (\<lambda>x. c x \<or> all) [j..<m]) \<and>
    take (m - sh') s' = take (j - sh) s @ map (\<lambda>_. h) (filter (\<lambda>x. c x \<or> all) [j..<m])"
  using assms
proof (induction "m - j" arbitrary: j f s sh)
  case 0
  then have "j = m" "\<not> (j < length s \<and> s ! j = s ! i)" by auto
  then have "compact_group c all i f s j sh = (m, f, s, sh)" by (subst compact_group.simps) auto
  then show ?case using 0 \<open>j = m\<close> by simp
next
  case (Suc d)
  have j: "j < m" "j < n" "s ! j = s ! i" "s ! j = h" "f ! j = F ! j" "[j..<m] = j # [j + 1..<m]"
    using Suc by (auto simp: upt_conv_Cons)
  have d: "d = m - (j + 1)" using Suc.hyps(2) by simp
  show ?case
  proof (cases "c j \<or> all")
    case True
    let ?f = "f[j - sh := f ! j]" and ?s = "s[j - sh := s ! j]"
    have "compact_group c all i f s j sh = compact_group c all i ?f ?s (j + 1) sh"
      using True j Suc.prems by (subst compact_group.simps) simp
    moreover have "take (j + 1 - sh) ?f = take (j - sh) f @ [F ! j]" "take (j + 1 - sh) ?s = take (j - sh) s @ [h]"
      using Suc.prems j by (simp_all add: Suc_diff_le take_Suc_conv_app_nth)
    moreover have "?s ! i = h" using Suc.prems j by (cases "j - sh = i") auto
    moreover have "\<forall>x. j + 1 \<le> x \<and> x < n \<longrightarrow> ?f ! x = F ! x \<and> ?s ! x = S ! x" using Suc.prems by auto
    ultimately show ?thesis
      using Suc.hyps(1) [OF d, of ?f ?s sh] Suc.prems j True by (simp add: Suc_diff_le)
  next
    case False
    have "compact_group c all i f s j sh = compact_group c all i f s (j + 1) (sh + 1)"
      using False j Suc.prems by (subst compact_group.simps) simp
    then show ?thesis using Suc.hyps(1) [OF d, of f s "sh + 1"] Suc.prems j False by simp
  qed
qed

lemma group_end:
  assumes "i < length s"
  obtains m where "i < m" "m \<le> length s" "\<forall>x. i \<le> x \<and> x < m \<longrightarrow> s ! x = s ! i" "m < length s \<Longrightarrow> s ! m \<noteq> s ! i"
proof -
  let ?P = "\<lambda>m. i < m \<and> (m < length s \<longrightarrow> s ! m \<noteq> s ! i) \<and> m \<le> length s"
  define m where "m = (LEAST m. ?P m)"
  have m: "?P m" unfolding m_def by (rule LeastI [of ?P "length s"]) (use assms in auto)
  have "s ! x = s ! i" if "i \<le> x" "x < m" for x
  proof (rule ccontr)
    assume ne: "s ! x \<noteq> s ! i"
    then have "?P x" using that m by (cases "x = i") auto
    then have "m \<le> x" unfolding m_def by (rule Least_le)
    then show False using that by simp
  qed
  then show thesis using that [of m] m by blast
qed

subsection \<open>The loop over the groups\<close>

text \<open>Whether the item at place \<open>x\<close> is kept, by the items with the same hash.\<close>

definition keep_place :: "(nat \<Rightarrow> bool) \<Rightarrow> c_int list \<Rightarrow> nat \<Rightarrow> bool" where
  "keep_place c S x \<longleftrightarrow>
     c x \<or> length (filter c (filter (\<lambda>y. S ! y = S ! x) [0..<length S])) + 1 = length (filter (\<lambda>y. S ! y = S ! x) [0..<length S])"

definition boundary :: "c_int list \<Rightarrow> nat \<Rightarrow> bool" where
  "boundary S i \<longleftrightarrow> (\<forall>x y. x < i \<and> i \<le> y \<and> y < length S \<longrightarrow> sint (S ! x) < sint (S ! y))"

lemma group_places:
  assumes "boundary S i" "boundary S m" "i < m" "m \<le> length S" "\<forall>x. i \<le> x \<and> x < m \<longrightarrow> S ! x = S ! i" "i \<le> x" "x < m"
  shows "filter (\<lambda>y. S ! y = S ! x) [0..<length S] = [i..<m]"
proof -
  have upt: "[0..<length S] = [0..<i] @ [i..<m] @ [m..<length S]"
    using assms(3, 4) upt_add_eq_append [of 0 i "length S - i"] upt_add_eq_append [of i m "length S - m"] by simp
  have "S ! y \<noteq> S ! x" if "y < i" for y
    using assms(1) [unfolded boundary_def, rule_format, of y x] assms(4, 6, 7) that by auto
  moreover have "S ! y \<noteq> S ! x" if "m \<le> y" "y < length S" for y
    using assms(2) [unfolded boundary_def, rule_format, of x y] assms(7) that by auto
  moreover have "S ! y = S ! x" if "i \<le> y" "y < m" for y
    using assms(5) [rule_format, of x] assms(5) [rule_format, of y] assms(6, 7) that by simp
  ultimately show ?thesis unfolding upt filter_append by (simp add: filter_empty_conv filter_id_conv)
qed

lemma boundary_next:
  assumes "sorted_wrt (\<lambda>a b. sint a \<le> sint b) S" "boundary S i" "i < m" "m \<le> length S"
    "\<forall>x. i \<le> x \<and> x < m \<longrightarrow> S ! x = S ! i" "m < length S \<Longrightarrow> S ! m \<noteq> S ! i"
  shows "boundary S m"
  unfolding boundary_def
proof (intro allI impI)
  fix x y assume xy: "x < m \<and> m \<le> y \<and> y < length S"
  show "sint (S ! x) < sint (S ! y)"
  proof (cases "x < i")
    case True
    then show ?thesis using assms(2) [unfolded boundary_def, rule_format, of x y] assms(3) xy by simp
  next
    case False
    then have x: "S ! x = S ! i" using assms(5) [rule_format, of x] xy by simp
    have "sint (S ! i) \<le> sint (S ! m)" using sorted_wrt_nth_less [OF assms(1), of i m] assms(3) xy by simp
    moreover have "sint (S ! i) \<noteq> sint (S ! m)" using assms(6) xy by (auto dest: signed_word_eqI)
    moreover have "sint (S ! m) \<le> sint (S ! y)"
      using xy sorted_wrt_nth_less [OF assms(1), of m y] by (cases "m = y") auto
    ultimately show ?thesis unfolding x by linarith
  qed
qed

definition loop_inv :: "(nat \<Rightarrow> bool) \<Rightarrow> real list \<Rightarrow> c_int list \<Rightarrow> nat \<Rightarrow> real list \<Rightarrow> c_int list \<Rightarrow> nat \<Rightarrow> bool" where
  "loop_inv c F S i f s sh \<longleftrightarrow>
     length f = length S \<and> length s = length S \<and> i \<le> length S \<and> sh \<le> i \<and> boundary S i \<and>
     (\<forall>x. i \<le> x \<and> x < length S \<longrightarrow> f ! x = F ! x \<and> s ! x = S ! x) \<and>
     sorted_wrt (\<lambda>x y. pair_cmp x y \<le> 0) (zip (take (i - sh) s) (take (i - sh) f)) \<and>
     mset (zip (take (i - sh) s) (take (i - sh) f)) = mset (map (\<lambda>x. (S ! x, F ! x)) (filter (keep_place c S) [0..<i]))"

lemma sorted_group_append:
  assumes "sorted_wrt (\<lambda>x y. pair_cmp x y \<le> 0) ps" "\<forall>x \<in> set ps. sint (fst x) < sint h"
  shows "sorted_wrt (\<lambda>x y. pair_cmp x y \<le> 0) (ps @ map (Pair h) (pg_qsort double_cmp gs))"
proof -
  have "sorted_wrt (\<le>) (pg_qsort double_cmp gs)" using double_order.pg_qsort_sorts [of gs] by (simp add: double_cmp_le)
  then have "sorted_wrt (\<lambda>x y. pair_cmp x y \<le> 0) (map (Pair h) (pg_qsort double_cmp gs))"
    by (simp add: sorted_wrt_map pair_cmp_same)
  moreover have "\<forall>x \<in> set ps. \<forall>y \<in> set (map (Pair h) (pg_qsort double_cmp gs)). pair_cmp x y \<le> 0"
    using assms(2) pair_cmp_less by fastforce
  ultimately show ?thesis using assms(1) by (simp add: sorted_wrt_append)
qed

lemma length_pg_qsort_double: "length (pg_qsort double_cmp gs) = length gs"
  using double_order.pg_qsort_sorts [of gs] by (metis size_mset)

lemma sort_range_append:
  "length ps = a \<Longrightarrow> length gs = len \<Longrightarrow> sort_range a len (ps @ gs @ rs) = ps @ pg_qsort double_cmp gs @ rs"
  by (simp add: sort_range_def)

lemma zip_const: "length xs = length ys \<Longrightarrow> zip (map (\<lambda>_. h) xs) ys = map (Pair h) ys"
  by (induction xs ys rule: list_induct2) simp_all

lemma loop_inv_step:
  assumes "loop_inv c F S i f s sh" "sorted_wrt (\<lambda>a b. sint a \<le> sint b) S" "length F = length S" "i < length S"
  obtains k m f' s' sh' where "count_consts c s i i 0 = (k, m)" "i < m"
    "compact_group c (k + 1 = m - i) i f s i sh = (m, f', s', sh')"
    "loop_inv c F S m (sort_range (i - sh) (m - sh' - (i - sh)) f') s' sh'"
proof -
  have inv: "length f = length S" "length s = length S" "sh \<le> i" "boundary S i"
    "\<forall>x. i \<le> x \<and> x < length S \<longrightarrow> f ! x = F ! x \<and> s ! x = S ! x"
    "sorted_wrt (\<lambda>x y. pair_cmp x y \<le> 0) (zip (take (i - sh) s) (take (i - sh) f))"
    "mset (zip (take (i - sh) s) (take (i - sh) f)) = mset (map (\<lambda>x. (S ! x, F ! x)) (filter (keep_place c S) [0..<i]))"
    using assms(1) unfolding loop_inv_def by blast+
  obtain m where m: "i < m" "m \<le> length S" "\<forall>x. i \<le> x \<and> x < m \<longrightarrow> S ! x = S ! i" "m < length S \<Longrightarrow> S ! m \<noteq> S ! i"
    using group_end [OF assms(4)] by blast
  have si: "s ! i = S ! i" using inv(5) assms(4) by simp
  have bm: "boundary S m" using assms(2) inv(4) m by (rule boundary_next)
  define k where "k = length (filter c [i..<m])"
  define all where "all \<longleftrightarrow> k + 1 = m - i"
  have cc: "count_consts c s i i 0 = (k, m)"
  proof -
    have "s ! x = s ! i" if "i \<le> x" "x < m" for x using that inv(5) [rule_format, of x] m(2) m(3) [rule_format, of x] si by simp
    then have grp: "\<forall>x. i \<le> x \<and> x < m \<longrightarrow> s ! x = s ! i" by blast
    have stop: "s ! m \<noteq> s ! i" if "m < length s" using that inv(2) inv(5) [rule_format, of m] m(1, 4) si by simp
    have "m \<le> length s" using m(2) inv(2) by simp
    from count_consts_group [OF this grp stop less_imp_le [OF m(1)], of c 0] show ?thesis unfolding k_def by simp
  qed
  have keep: "keep_place c S x \<longleftrightarrow> c x \<or> all" if "i \<le> x" "x < m" for x
    using group_places [OF inv(4) bm m(1-3) that] m(1) by (simp add: keep_place_def all_def k_def)
  define K where "K = filter (\<lambda>x. c x \<or> all) [i..<m]"
  have K: "filter (keep_place c S) [0..<m] = filter (keep_place c S) [0..<i] @ K"
  proof -
    have "[0..<m] = [0..<i] @ [i..<m]" using upt_add_eq_append [of 0 i "m - i"] m(1) by simp
    moreover have "filter (keep_place c S) [i..<m] = K" unfolding K_def by (rule filter_cong) (simp_all add: keep)
    ultimately show ?thesis by simp
  qed
  obtain f' s' sh' where g: "compact_group c all i f s i sh = (m, f', s', sh')" "length f' = length S" "length s' = length S"
    "sh' \<le> m" "\<forall>x. m \<le> x \<and> x < length S \<longrightarrow> f' ! x = F ! x \<and> s' ! x = S ! x"
    "m - sh' = i - sh + length K" "take (m - sh') f' = take (i - sh) f @ map ((!) F) K"
    "take (m - sh') s' = take (i - sh) s @ map (\<lambda>_. S ! i) K"
    using compact_group_spec [OF inv(1, 2) assms(4) order_refl less_imp_le [OF m(1)] m(2) inv(3) si inv(5) m(3, 4), of c all]
    unfolding K_def by blast
  let ?ps = "zip (take (i - sh) s) (take (i - sh) f)" and ?f'' = "sort_range (i - sh) (m - sh' - (i - sh)) f'"
  have len: "m - sh' - (i - sh) = length K" using g(6) by simp
  let ?Q = "pg_qsort double_cmp (map ((!) F) K)"
  have lp: "length (take (i - sh) f) = i - sh" "length (take (i - sh) s) = i - sh" using inv(1, 2) assms(4) by simp_all
  have "f' = take (i - sh) f @ map ((!) F) K @ drop (m - sh') f'" using append_take_drop_id [of "m - sh'" f'] unfolding g(7) by simp
  then have f'': "?f'' = take (i - sh) f @ ?Q @ drop (m - sh') f'"
    using sort_range_append [OF lp(1), of "map ((!) F) K" "length K" "drop (m - sh') f'"] len by simp
  have "m - sh' \<le> length S" using m(2) by simp
  have take'': "take (m - sh') ?f'' = take (i - sh) f @ ?Q"
    unfolding f'' using lp g(6) by (simp add: length_pg_qsort_double)
  have rest'': "?f'' ! x = f' ! x" if "m \<le> x" "x < length S" for x
  proof -
    have "length (take (i - sh) f @ ?Q) = m - sh'" using lp(1) g(6) by (simp add: length_pg_qsort_double)
    moreover have "m - sh' \<le> x" using that(1) by simp
    ultimately have "((take (i - sh) f @ ?Q) @ drop (m - sh') f') ! x = drop (m - sh') f' ! (x - (m - sh'))"
      unfolding nth_append by simp
    also have "\<dots> = f' ! x" using \<open>m - sh' \<le> x\<close> that(2) g(2) by simp
    finally show ?thesis unfolding f'' by simp
  qed
  have len'': "length ?f'' = length S"
    unfolding f'' using lp g(2, 6) \<open>m - sh' \<le> length S\<close> by (simp add: length_pg_qsort_double)
  have zip: "zip (take (m - sh') s') (take (m - sh') ?f'') = ?ps @ map (Pair (S ! i)) ?Q"
    unfolding take'' g(8) using lp by (simp add: zip_const length_pg_qsort_double)
  have small: "\<forall>x \<in> set ?ps. sint (fst x) < sint (S ! i)"
  proof
    fix x assume "x \<in> set ?ps"
    then have "x \<in> set (map (\<lambda>x. (S ! x, F ! x)) (filter (keep_place c S) [0..<i]))" using mset_eq_setD [OF inv(7)] by simp
    then obtain y where "x = (S ! y, F ! y)" "y < i" by auto
    then show "sint (fst x) < sint (S ! i)" using inv(4) [unfolded boundary_def, rule_format, of y i] assms(4) by simp
  qed
  have "mset (map (Pair (S ! i)) ?Q) = mset (map (\<lambda>x. (S ! x, F ! x)) K)"
  proof -
    have "mset (map (Pair (S ! i)) ?Q) = image_mset (Pair (S ! i)) (mset (map ((!) F) K))"
      using double_order.pg_qsort_sorts [of "map ((!) F) K"] by simp
    also have "\<dots> = mset (map (\<lambda>x. (S ! i, F ! x)) K)" by (simp add: image_mset.compositionality comp_def)
    also have "map (\<lambda>x. (S ! i, F ! x)) K = map (\<lambda>x. (S ! x, F ! x)) K"
    proof (rule map_cong)
      show "(S ! i, F ! x) = (S ! x, F ! x)" if "x \<in> set K" for x using that m(3) [rule_format, of x] by (simp add: K_def)
    qed simp
    finally show ?thesis .
  qed
  then have "loop_inv c F S m ?f'' s' sh'"
    unfolding loop_inv_def zip using len'' g(3-5) m(2) bm rest'' sorted_group_append [OF inv(6) small] inv(7) by (simp add: K)
  then show thesis using that cc m(1) g(1) unfolding all_def by blast
qed

lemma loop_inv_lengths:
  "loop_inv c F S i f s sh \<Longrightarrow> length f = length S \<and> length s = length S \<and> i \<le> length S \<and> sh \<le> i"
  unfolding loop_inv_def by blast

lemma group_loop_inv:
  assumes "sorted_wrt (\<lambda>a b. sint a \<le> sint b) S" "length F = length S" "loop_inv c F S i f s sh"
  shows "\<exists>f' s' sh'. group_loop c i f s sh = (f', s', sh') \<and> loop_inv c F S (length S) f' s' sh'"
  using assms(3)
proof (induction "length S - i" arbitrary: i f s sh rule: less_induct)
  case less
  have lens: "length s = length S" "i \<le> length S" using loop_inv_lengths [OF less.prems] by simp_all
  show ?case
  proof (cases "i < length S")
    case True
    obtain k m f' s' sh' where st: "count_consts c s i i 0 = (k, m)" "i < m"
      "compact_group c (k + 1 = m - i) i f s i sh = (m, f', s', sh')"
      "loop_inv c F S m (sort_range (i - sh) (m - sh' - (i - sh)) f') s' sh'"
      using loop_inv_step [OF less.prems assms(1, 2) True] by blast
    have "group_loop c i f s sh = group_loop c m (sort_range (i - sh) (m - sh' - (i - sh)) f') s' sh'"
      using True lens(1) st(1, 3) by (subst group_loop.simps) simp
    moreover have "length S - m < length S - i" using st(2) True by simp
    ultimately show ?thesis using less.hyps [OF _ st(4)] by simp
  next
    case False
    then have "i = length S" using lens(2) by simp
    moreover have "group_loop c i f s sh = (f, s, sh)" using False lens(1) by (subst group_loop.simps) simp
    ultimately show ?thesis using less.prems by simp
  qed
qed

text \<open>The arrays after the loop hold the kept pairs in the order of hash and feature.\<close>

lemma group_loop_sorts:
  assumes "sorted_wrt (\<lambda>a b. sint a \<le> sint b) S" "length F = length S"
  shows "\<exists>f s sh. group_loop c 0 F S 0 = (f, s, sh) \<and>
    take (length S - sh) s = map fst (pg_qsort pair_cmp (map (\<lambda>x. (S ! x, F ! x)) (filter (keep_place c S) [0..<length S]))) \<and>
    take (length S - sh) f = map snd (pg_qsort pair_cmp (map (\<lambda>x. (S ! x, F ! x)) (filter (keep_place c S) [0..<length S]))) \<and>
    length S - sh = length (map (\<lambda>x. (S ! x, F ! x)) (filter (keep_place c S) [0..<length S]))"
proof -
  let ?P = "map (\<lambda>x. (S ! x, F ! x)) (filter (keep_place c S) [0..<length S])"
  have "loop_inv c F S 0 F S 0" using assms(2) by (simp add: loop_inv_def boundary_def)
  from group_loop_inv [OF assms this] obtain f s sh where g: "group_loop c 0 F S 0 = (f, s, sh)"
    and inv: "loop_inv c F S (length S) f s sh" by blast
  let ?z = "zip (take (length S - sh) s) (take (length S - sh) f)"
  have lens: "length (take (length S - sh) s) = length S - sh" "length (take (length S - sh) f) = length S - sh"
    using loop_inv_lengths [OF inv] by simp_all
  have z: "sorted_wrt (\<lambda>x y. pair_cmp x y \<le> 0) ?z" "mset ?z = mset ?P" using inv unfolding loop_inv_def by blast+
  have "?z = pg_qsort pair_cmp ?P"
    using z pair_order.pg_qsort_sorts [of ?P] by (intro pair_order.sorted_unique) simp_all
  moreover have "map fst ?z = take (length S - sh) s" "map snd ?z = take (length S - sh) f"
    using lens by simp_all
  moreover have "length S - sh = length ?P" using mset_eq_length [OF z(2)] lens by simp
  ultimately show ?thesis using g lens by (intro exI [of _ f] exI [of _ s] exI [of _ sh]) simp
qed

subsection \<open>The whole function\<close>

lemma fill_features_spec:
  assumes "\<forall>i < n. places ! i < n" "\<forall>i j. i < n \<and> j < n \<and> places ! i = places ! j \<longrightarrow> i = j"
    "length f = n" "length s = n" "length sels = n"
  shows "\<exists>f' s'. fill_features places hs sels (f, s) = (f', s') \<and> length f' = n \<and> length s' = n \<and>
    (\<forall>i < n. f' ! (places ! i) = selectivity_feature (sels ! i) \<and> s' ! (places ! i) = hs ! i)"
proof -
  let ?st = "\<lambda>(f, s) i. (f[places ! i := selectivity_feature (sels ! i)], s[places ! i := hs ! i])"
  have "\<exists>f' s'. foldl ?st (f, s) [0..<k] = (f', s') \<and> length f' = n \<and> length s' = n \<and>
    (\<forall>i < k. f' ! (places ! i) = selectivity_feature (sels ! i) \<and> s' ! (places ! i) = hs ! i)" if "k \<le> n" for k
    using that
  proof (induction k)
    case (Suc k)
    then obtain f' s' where ih: "foldl ?st (f, s) [0..<k] = (f', s')" "length f' = n" "length s' = n"
      "\<forall>i < k. f' ! (places ! i) = selectivity_feature (sels ! i) \<and> s' ! (places ! i) = hs ! i" by auto
    have "places ! k < n" using assms(1) Suc.prems by simp
    moreover have "\<forall>i < k. places ! k \<noteq> places ! i"
      using assms(2) Suc.prems by (metis Suc_le_lessD less_trans nat_neq_iff)
    ultimately show ?case using ih by (auto simp: less_Suc_eq nth_list_update)
  qed (use assms(3, 4) in simp)
  from this [of n] show ?thesis unfolding fill_features_def assms(5) by simp
qed

text \<open>The reference: the kept items as pairs.\<close>

definition keep_item :: "(c_int \<times> bool \<times> real) list \<Rightarrow> c_int \<times> bool \<times> real \<Rightarrow> bool" where
  "keep_item items x \<longleftrightarrow>
     fst (snd x) \<or>
     length (filter (\<lambda>y. fst y = fst x \<and> fst (snd y)) items) + 1 = length (filter (\<lambda>y. fst y = fst x) items)"

definition kept_pairs :: "(c_int \<times> bool \<times> real) list \<Rightarrow> (c_int \<times> real) list" where
  "kept_pairs items = map (\<lambda>x. (fst x, snd (snd x))) (filter (keep_item items) items)"

lemma kept_pairs_mset:
  assumes "mset items = mset items'"
  shows "mset (kept_pairs items) = mset (kept_pairs items')"
proof -
  have "length (filter P items) = length (filter P items')" for P
    using assms by (metis mset_filter size_mset)
  then have "keep_item items = keep_item items'" by (intro ext) (simp add: keep_item_def)
  then show ?thesis using assms by (simp add: kept_pairs_def)
qed

lemma kept_places:
  "map (\<lambda>x. (S ! x, F ! x)) (filter (keep_place c S) [0..<length S]) = kept_pairs (map (\<lambda>x. (S ! x, c x, F ! x)) [0..<length S])"
proof -
  have "keep_item (map (\<lambda>x. (S ! x, c x, F ! x)) [0..<length S]) (S ! x, c x, F ! x) \<longleftrightarrow> keep_place c S x" for x
    by (simp add: keep_item_def keep_place_def filter_map comp_def filter_filter conj_commute)
  then show ?thesis by (simp add: kept_pairs_def filter_map comp_def)
qed

definition object_items :: "c_int list \<Rightarrow> 'a node list \<Rightarrow> real list \<Rightarrow> (c_int \<times> bool \<times> real) list" where
  "object_items hashes clauselist selectivities =
     zip hashes (zip (map clause_has_consts clauselist) (map selectivity_feature selectivities))"

lemma map_nth_permutation:
  "mset idx = mset [0..<length xs] \<Longrightarrow> mset (map ((!) xs) idx) = mset xs"
  by (metis map_nth mset_map)

lemma fss_arrays:
  assumes "length hs = length cs" "length sels = length cs" "length imem = length cs" "length smem = length cs"
  defines "idx \<equiv> argsort hs int_cmp"
  shows "\<exists>f s sh. (case fill_features (inverse_permutation imem idx) hs sels (replicate (length cs) 0, smem) of
      (f, s) \<Rightarrow> group_loop (\<lambda>j. map clause_has_consts cs ! (idx ! j)) 0 f s 0) = (f, s, sh) \<and>
    take (length cs - sh) s = map fst (pg_qsort pair_cmp (kept_pairs (object_items hs cs sels))) \<and>
    take (length cs - sh) f = map snd (pg_qsort pair_cmp (kept_pairs (object_items hs cs sels))) \<and>
    length cs - sh = length (kept_pairs (object_items hs cs sels))"
proof -
  let ?n = "length cs" and ?inv = "inverse_permutation imem idx" and ?I = "object_items hs cs sels"
  have idx: "mset idx = mset [0..<?n]" "set idx = {0..<?n}" "distinct idx" "length idx = ?n"
    using int_order.argsort_permutes [of hs] int_order.argsort_set [of hs] assms(1) by (simp_all add: idx_def)
  have inv: "?inv ! (idx ! j) = j" "idx ! (?inv ! j) = j" "?inv ! j < ?n" "idx ! j < ?n" if "j < ?n" for j
  proof -
    show "?inv ! (idx ! j) = j" "idx ! (?inv ! j) = j" "?inv ! j < ?n"
      using inverse_permutation_nth [of idx imem] idx assms(3) that by simp_all
    show "idx ! j < ?n" using nth_mem [of j idx] idx(2, 4) that by simp
  qed
  have "\<forall>i j. i < ?n \<and> j < ?n \<and> ?inv ! i = ?inv ! j \<longrightarrow> i = j" using inv(2) by metis
  then obtain F S where fill: "fill_features ?inv hs sels (replicate ?n 0, smem) = (F, S)" "length F = ?n" "length S = ?n"
    "\<forall>i < ?n. F ! (?inv ! i) = selectivity_feature (sels ! i) \<and> S ! (?inv ! i) = hs ! i"
    using fill_features_spec [of ?n ?inv "replicate ?n 0" smem sels hs] inv(3) assms(2, 4) by auto
  have at: "F ! j = selectivity_feature (sels ! (idx ! j))" "S ! j = hs ! (idx ! j)" if "j < ?n" for j
    using fill(4) [rule_format, of "idx ! j"] inv(1, 4) [OF that] by simp_all
  have "S = map ((!) hs) idx" using at(2) fill(3) idx(4) by (intro nth_equalityI) simp_all
  then have srt: "sorted_wrt (\<lambda>a b. sint a \<le> sint b) S"
    using int_order.argsort_sorted [of hs] by (simp add: idx_def int_cmp_le)
  have "map (\<lambda>x. (S ! x, map clause_has_consts cs ! (idx ! x), F ! x)) [0..<?n] = map ((!) ?I) idx"
    using at idx(4) inv(4) assms(1, 2) by (intro nth_equalityI) (simp_all add: object_items_def)
  moreover have "mset (map ((!) ?I) idx) = mset ?I"
    using idx(1) assms(1, 2) by (intro map_nth_permutation) (simp add: object_items_def)
  ultimately have "mset (kept_pairs (map (\<lambda>x. (S ! x, map clause_has_consts cs ! (idx ! x), F ! x)) [0..<?n])) = mset (kept_pairs ?I)"
    by (intro kept_pairs_mset) simp
  note same = pair_order.pg_qsort_mset [OF this] mset_eq_length [OF this]
  obtain f s sh where loop: "group_loop (\<lambda>j. map clause_has_consts cs ! (idx ! j)) 0 F S 0 = (f, s, sh)"
    "take (?n - sh) s = map fst (pg_qsort pair_cmp (kept_pairs ?I))"
    "take (?n - sh) f = map snd (pg_qsort pair_cmp (kept_pairs ?I))"
    "?n - sh = length (kept_pairs ?I)"
    using group_loop_sorts [OF srt, of F "\<lambda>j. map clause_has_consts cs ! (idx ! j)"] fill(2)
    unfolding fill(3) kept_places [of S F "\<lambda>j. map clause_has_consts cs ! (idx ! j)", unfolded fill(3)] same by blast
  then show ?thesis unfolding fill(1) prod.case by blast
qed

lemma length_those: "those xs = Some ys \<Longrightarrow> length ys = length xs"
  by (induction xs arbitrary: ys) (auto split: option.splits)

lemma get_fss_for_object_eq:
  assumes "get_eclasses be out cs = Some (ah, eh)" "those (map (\<lambda>c. get_clause_hash be out c ah eh) cs) = Some hs"
    and "length sels = length cs" "length imem = length cs" "length smem = length cs"
  defines "ps \<equiv> pg_qsort pair_cmp (kept_pairs (object_items hs cs sels))"
  shows "get_fss_for_object be out imem smem cs sels relids =
    Some (length ps,
      get_fss_hash be (get_int_array_hash be (map fst ps)) (get_int_array_hash be eh) (get_relidslist_hash be relids),
      map snd ps)"
proof -
  have "length hs = length cs" using length_those [OF assms(2)] by simp
  from fss_arrays [OF this assms(3-5)] show ?thesis
    using assms(1, 2) pair_order.pg_qsort_sorts [of "kept_pairs (object_items hs cs sels)"]
    by (auto simp: get_fss_for_object_def ps_def Let_def split: prod.splits dest: mset_eq_length)
qed

lemma those_None: "those xs = None \<longleftrightarrow> None \<in> set xs"
  by (induction xs) (auto split: option.splits)

lemma those_Some: "those xs = Some ys \<Longrightarrow> ys = map the xs"
  by (induction xs arbitrary: ys) (auto split: option.splits)

lemma object_items_zip:
  "length sels = length cs \<Longrightarrow>
     object_items (map h cs) cs sels = map (\<lambda>(c, sel). (h c, clause_has_consts c, selectivity_feature sel)) (zip cs sels)"
  by (induction sels cs rule: list_induct2) (simp_all add: object_items_def)

lemma get_fss_for_object_mset:
  assumes "mset (zip cs sels) = mset (zip cs' sels')" "length sels = length cs" "length sels' = length cs'"
    and "length imem = length cs" "length smem = length cs" "length imem' = length cs'" "length smem' = length cs'"
    and "mset relids = mset relids'"
  shows "get_fss_for_object be out imem smem cs sels relids = get_fss_for_object be out imem' smem' cs' sels' relids'"
proof -
  have "mset (map fst (zip cs sels)) = mset (map fst (zip cs' sels'))" using assms(1) by (simp add: mset_map)
  then have "mset cs = mset cs'" using assms(2, 3) by simp
  then have set: "set cs = set cs'" by (rule mset_eq_setD)
  obtain ah eh where ec: "get_eclasses be out cs = Some (ah, eh)" using get_eclasses_eq by blast
  have ec': "get_eclasses be out cs' = Some (ah, eh)" using get_eclasses_set [OF set] ec by simp
  let ?g = "\<lambda>c. get_clause_hash be out c ah eh" and ?h = "\<lambda>c. the (get_clause_hash be out c ah eh)"
  show ?thesis
  proof (cases "those (map ?g cs)")
    case None
    then have "those (map ?g cs') = None" using set by (auto simp: those_None)
    then show ?thesis using None ec ec' by (simp add: get_fss_for_object_def)
  next
    case (Some hs)
    then have "those (map ?g cs') \<noteq> None" using set those_None [of "map ?g cs"] those_None [of "map ?g cs'"] by auto
    then obtain hs' where hs': "those (map ?g cs') = Some hs'" by blast
    have "hs = map ?h cs" "hs' = map ?h cs'" using those_Some [OF Some] those_Some [OF hs'] by simp_all
    then have "mset (object_items hs cs sels) = mset (object_items hs' cs' sels')"
      using assms(1-3) by (simp add: object_items_zip)
    then have "pg_qsort pair_cmp (kept_pairs (object_items hs cs sels)) = pg_qsort pair_cmp (kept_pairs (object_items hs' cs' sels'))"
      by (intro pair_order.pg_qsort_mset kept_pairs_mset)
    moreover have "get_relidslist_hash be relids = get_relidslist_hash be relids'"
      using get_unordered_int_list_hash_mset [OF assms(8)] by (simp add: get_relidslist_hash_def)
    ultimately show ?thesis
      by (simp only: get_fss_for_object_eq [OF ec Some assms(2, 4, 5)] get_fss_for_object_eq [OF ec' hs' assms(3, 6, 7)])
  qed
qed

lemma selectivity_feature_bounds:
  "log_selectivity_lower_bound \<le> selectivity_feature sel" "sel \<le> 1 \<Longrightarrow> selectivity_feature sel \<le> 0"
  by (auto simp: selectivity_feature_def log_selectivity_lower_bound_def)

subsection \<open>Properties\<close>

text \<open>C9: the feature subspace does not depend on the order of the clauses. Permute the clauses together with
  their selectivities and permute the relations: the number of features, the hash of the subspace and the feature
  vector stay the same, and the contents of fresh memory never matter.\<close>

theorem get_fss_for_object_order_insensitive:
  assumes "mset (zip cs sels) = mset (zip cs' sels')" "length sels = length cs" "length sels' = length cs'"
    and "length imem = length cs" "length smem = length cs" "length imem' = length cs'" "length smem' = length cs'"
    and "mset relids = mset relids'"
  shows "get_fss_for_object be out imem smem cs sels relids = get_fss_for_object be out imem' smem' cs' sels' relids'"
  using assms by (rule get_fss_for_object_mset)

theorem get_fss_for_object_order_insensitive_witness:
  "get_fss_for_object False (\<lambda>_. ''x'') [7, 7] [1, 2] [OtherNode (), OpExpr () 96 [Const (), ParamNode 3]] [1 / 2, 1 / 4] [5, 9] =
   get_fss_for_object False (\<lambda>_. ''x'') [0, 1] [3, 4] [OpExpr () 96 [Const (), ParamNode 3], OtherNode ()] [1 / 4, 1 / 2] [9, 5]"
  by (rule get_fss_for_object_order_insensitive) simp_all

text \<open>C10: the in-place loops of \<^verbatim>\<open>get_fss_for_object\<close> compute the reference. The features are those of the
  kept clauses, ordered by clause hash and then by value; within the clauses of one hash all with a constant are
  kept, and all of them when exactly one has no constant. The clause part of the subspace hash is that of the kept
  hashes in the same order.\<close>

theorem get_fss_for_object_reference:
  assumes "get_eclasses be out cs = Some (ah, eh)" "those (map (\<lambda>c. get_clause_hash be out c ah eh) cs) = Some hs"
    and "length sels = length cs" "length imem = length cs" "length smem = length cs"
  shows "get_fss_for_object be out imem smem cs sels relids =
    (let ps = pg_qsort pair_cmp (kept_pairs (object_items hs cs sels)) in
     Some (length ps,
       get_fss_hash be (get_int_array_hash be (map fst ps)) (get_int_array_hash be eh) (get_relidslist_hash be relids),
       map snd ps))"
  using get_fss_for_object_eq [OF assms] by (simp add: Let_def)

theorem get_fss_for_object_reference_witness:
  "\<exists>ah eh h. get_fss_for_object False (\<lambda>_. ''x'') [7] [1] [OtherNode ()] [1] [5] =
     (let ps = pg_qsort pair_cmp (kept_pairs (object_items [h] [OtherNode ()] [1])) in
      Some (length ps,
        get_fss_hash False (get_int_array_hash False (map fst ps)) (get_int_array_hash False eh) (get_relidslist_hash False [5]),
        map snd ps))"
proof -
  obtain ah eh where "get_eclasses False (\<lambda>_. ''x'') [OtherNode ()] = Some (ah, eh)" using get_eclasses_eq by blast
  from get_fss_for_object_reference [OF this, of "[get_node_hash False (\<lambda>_. ''x'') (OtherNode ())]" "[1]" "[7]" "[1]" "[5]"]
  show ?thesis by (auto simp: get_clause_hash_def clause_hash_by_def)
qed

text \<open>C40: bounds of the features. Every feature is at least the lower bound of -30, also for a selectivity of 0,
  and not positive when the selectivities are at most 1; there are at most as many features as clauses.\<close>

theorem fss_features_bounded:
  assumes "get_fss_for_object be out imem smem cs sels relids = Some (nfeatures, fss_hash, features)"
    and "length sels = length cs" "length imem = length cs" "length smem = length cs" "\<forall>sel \<in> set sels. sel \<le> 1"
  shows "length features = nfeatures \<and> nfeatures \<le> length cs \<and> (\<forall>x \<in> set features. - 30 \<le> x \<and> x \<le> 0)"
proof -
  obtain ah eh where ec: "get_eclasses be out cs = Some (ah, eh)" using get_eclasses_eq by blast
  obtain hs where hs: "those (map (\<lambda>c. get_clause_hash be out c ah eh) cs) = Some hs"
    using assms(1) ec by (cases "those (map (\<lambda>c. get_clause_hash be out c ah eh) cs)") (auto simp: get_fss_for_object_def)
  let ?K = "kept_pairs (object_items hs cs sels)"
  have srt: "mset (pg_qsort pair_cmp ?K) = mset ?K" using pair_order.pg_qsort_sorts by blast
  have feats: "features = map snd (pg_qsort pair_cmp ?K)" "nfeatures = length (pg_qsort pair_cmp ?K)"
    using assms(1) get_fss_for_object_eq [OF ec hs assms(2-4)] by simp_all
  have lenK: "length ?K \<le> length cs"
    by (simp add: kept_pairs_def) (rule order_trans [OF length_filter_le], simp add: object_items_def)
  have "x \<in> selectivity_feature ` set sels" if "x \<in> set features" for x
  proof -
    have "x \<in> snd ` set ?K" using that feats(1) mset_eq_setD [OF srt] by auto
    then obtain h c where "(h, c, x) \<in> set (object_items hs cs sels)" by (auto simp: kept_pairs_def)
    then show ?thesis by (auto simp: object_items_def dest!: set_zip_rightD)
  qed
  then have "\<forall>x \<in> set features. - 30 \<le> x \<and> x \<le> 0"
    using assms(5) selectivity_feature_bounds unfolding log_selectivity_lower_bound_def by blast
  then show ?thesis using feats mset_eq_length [OF srt] lenK by simp
qed

theorem fss_features_bounded_witness:
  "\<exists>nfeatures fss_hash features.
     get_fss_for_object False (\<lambda>_. ''x'') [7] [1] [OtherNode ()] [1 / 2] [5] = Some (nfeatures, fss_hash, features) \<and>
     nfeatures \<le> 1 \<and> list_all (\<lambda>x. - 30 \<le> x \<and> x \<le> 0) features"
proof -
  obtain ah eh where ec: "get_eclasses False (\<lambda>_. ''x'') [OtherNode ()] = Some (ah, eh)" using get_eclasses_eq by blast
  then obtain nf h fs where "get_fss_for_object False (\<lambda>_. ''x'') [7] [1] [OtherNode ()] [1 / 2] [5] = Some (nf, h, fs)"
    using get_fss_for_object_eq [OF ec, of "[get_node_hash False (\<lambda>_. ''x'') (OtherNode ())]" "[1 / 2]" "[7]" "[1]" "[5]"]
    by (auto simp: get_clause_hash_def clause_hash_by_def)
  with fss_features_bounded [OF this] show ?thesis by (auto simp: list_all_iff)
qed

end
