(* ===== verification/Bitmapset.thy ===== *)
theory Bitmapset
  imports Prelude JenkinsHash
begin

text \<open>
  Bitmapsets (\<^verbatim>\<open>src/backend/nodes/bitmapset.c\<close>): sets of non-negative integers that the
  planner uses for relation ids. A \<^verbatim>\<open>Bitmapset\<close> is its flexible array of
  \<^verbatim>\<open>nwords\<close> 32-bit words, \<^verbatim>\<open>nwords\<close> being the length of the list; a nullable
  pointer to one is an option. The recycling operations return the modified set: the caller
  always continues with the returned pointer.

  The abstraction \<open>members\<close> maps a pointer to the set of its members; the lemmas show that each
  operation is the set operation its comment names, that the two iteration idioms enumerate the
  members in increasing order, and that equal sets have equal hash keys.
\<close>

type_synonym bitmapword = "32 word"
type_synonym Bitmapset = "bitmapword list"

datatype BMS_Comparison = BMS_EQUAL | BMS_SUBSET1 | BMS_SUBSET2 | BMS_DIFFERENT
datatype BMS_Membership = BMS_EMPTY_SET | BMS_SINGLETON | BMS_MULTIPLE

abbreviation BITS_PER_BITMAPWORD :: nat where "BITS_PER_BITMAPWORD \<equiv> 32"

definition WORDNUM :: "int \<Rightarrow> nat" where "WORDNUM x = nat x div BITS_PER_BITMAPWORD"
definition BITNUM :: "int \<Rightarrow> nat" where "BITNUM x = nat x mod BITS_PER_BITMAPWORD"

abbreviation nwords :: "Bitmapset \<Rightarrow> nat" where "nwords a \<equiv> length a"

definition RIGHTMOST_ONE :: "bitmapword \<Rightarrow> bitmapword" where
  "RIGHTMOST_ONE x = x AND (- x)"

definition HAS_MULTIPLE_ONES :: "bitmapword \<Rightarrow> bool" where
  "HAS_MULTIPLE_ONES x \<longleftrightarrow> RIGHTMOST_ONE x \<noteq> x"

definition rightmost_one_pos :: "nat list" where
  "rightmost_one_pos = [
    0, 0, 1, 0, 2, 0, 1, 0, 3, 0, 1, 0, 2, 0, 1, 0,
    4, 0, 1, 0, 2, 0, 1, 0, 3, 0, 1, 0, 2, 0, 1, 0,
    5, 0, 1, 0, 2, 0, 1, 0, 3, 0, 1, 0, 2, 0, 1, 0,
    4, 0, 1, 0, 2, 0, 1, 0, 3, 0, 1, 0, 2, 0, 1, 0,
    6, 0, 1, 0, 2, 0, 1, 0, 3, 0, 1, 0, 2, 0, 1, 0,
    4, 0, 1, 0, 2, 0, 1, 0, 3, 0, 1, 0, 2, 0, 1, 0,
    5, 0, 1, 0, 2, 0, 1, 0, 3, 0, 1, 0, 2, 0, 1, 0,
    4, 0, 1, 0, 2, 0, 1, 0, 3, 0, 1, 0, 2, 0, 1, 0,
    7, 0, 1, 0, 2, 0, 1, 0, 3, 0, 1, 0, 2, 0, 1, 0,
    4, 0, 1, 0, 2, 0, 1, 0, 3, 0, 1, 0, 2, 0, 1, 0,
    5, 0, 1, 0, 2, 0, 1, 0, 3, 0, 1, 0, 2, 0, 1, 0,
    4, 0, 1, 0, 2, 0, 1, 0, 3, 0, 1, 0, 2, 0, 1, 0,
    6, 0, 1, 0, 2, 0, 1, 0, 3, 0, 1, 0, 2, 0, 1, 0,
    4, 0, 1, 0, 2, 0, 1, 0, 3, 0, 1, 0, 2, 0, 1, 0,
    5, 0, 1, 0, 2, 0, 1, 0, 3, 0, 1, 0, 2, 0, 1, 0,
    4, 0, 1, 0, 2, 0, 1, 0, 3, 0, 1, 0, 2, 0, 1, 0]"

definition number_of_ones :: "nat list" where
  "number_of_ones = [
    0, 1, 1, 2, 1, 2, 2, 3, 1, 2, 2, 3, 2, 3, 3, 4,
    1, 2, 2, 3, 2, 3, 3, 4, 2, 3, 3, 4, 3, 4, 4, 5,
    1, 2, 2, 3, 2, 3, 3, 4, 2, 3, 3, 4, 3, 4, 4, 5,
    2, 3, 3, 4, 3, 4, 4, 5, 3, 4, 4, 5, 4, 5, 5, 6,
    1, 2, 2, 3, 2, 3, 3, 4, 2, 3, 3, 4, 3, 4, 4, 5,
    2, 3, 3, 4, 3, 4, 4, 5, 3, 4, 4, 5, 4, 5, 5, 6,
    2, 3, 3, 4, 3, 4, 4, 5, 3, 4, 4, 5, 4, 5, 5, 6,
    3, 4, 4, 5, 4, 5, 5, 6, 4, 5, 5, 6, 5, 6, 6, 7,
    1, 2, 2, 3, 2, 3, 3, 4, 2, 3, 3, 4, 3, 4, 4, 5,
    2, 3, 3, 4, 3, 4, 4, 5, 3, 4, 4, 5, 4, 5, 5, 6,
    2, 3, 3, 4, 3, 4, 4, 5, 3, 4, 4, 5, 4, 5, 5, 6,
    3, 4, 4, 5, 4, 5, 5, 6, 4, 5, 5, 6, 5, 6, 6, 7,
    2, 3, 3, 4, 3, 4, 4, 5, 3, 4, 4, 5, 4, 5, 5, 6,
    3, 4, 4, 5, 4, 5, 5, 6, 4, 5, 5, 6, 5, 6, 6, 7,
    3, 4, 4, 5, 4, 5, 5, 6, 4, 5, 5, 6, 5, 6, 6, 7,
    4, 5, 5, 6, 5, 6, 6, 7, 5, 6, 6, 7, 6, 7, 7, 8]"

subsection \<open>Operations that leave their inputs untouched\<close>

definition bms_copy :: "Bitmapset option \<Rightarrow> Bitmapset option" where
  "bms_copy a = (case a of None \<Rightarrow> None | Some ws \<Rightarrow> Some ws)"

definition bms_is_empty :: "Bitmapset option \<Rightarrow> bool" where
  "bms_is_empty a = (case a of None \<Rightarrow> True | Some ws \<Rightarrow> list_all (\<lambda>w. w = 0) ws)"

fun bms_equal_words :: "Bitmapset \<Rightarrow> Bitmapset \<Rightarrow> bool" where
  "bms_equal_words (s # shorter) (l # longer) = (if s \<noteq> l then False else bms_equal_words shorter longer)"
| "bms_equal_words [] (l # longer) = (if l \<noteq> 0 then False else bms_equal_words [] longer)"
| "bms_equal_words shorter [] = True"

definition bms_equal :: "Bitmapset option \<Rightarrow> Bitmapset option \<Rightarrow> bool" where
  "bms_equal a b =
     (case a of
        None \<Rightarrow> (case b of None \<Rightarrow> True | Some _ \<Rightarrow> bms_is_empty b)
      | Some aw \<Rightarrow>
          (case b of
             None \<Rightarrow> bms_is_empty a
           | Some bw \<Rightarrow>
               if nwords aw \<le> nwords bw then bms_equal_words aw bw else bms_equal_words bw aw))"

definition bms_make_singleton :: "int \<Rightarrow> Bitmapset option result" where
  "bms_make_singleton x =
     (if x < 0 then Inl (Elog ''negative bitmapset member not allowed'')
      else Inr (Some ((replicate (WORDNUM x + 1) 0)[WORDNUM x := push_bit (BITNUM x) 1])))"

text \<open>The loops \<^verbatim>\<open>for (i = 0; i < otherlen; i++) result->words[i] op= other->words[i]\<close>.\<close>

fun or_words :: "Bitmapset \<Rightarrow> Bitmapset \<Rightarrow> Bitmapset" where
  "or_words (r # result) (w # other) = (r OR w) # or_words result other"
| "or_words result other = result"

fun and_words :: "Bitmapset \<Rightarrow> Bitmapset \<Rightarrow> Bitmapset" where
  "and_words (r # result) (w # other) = (r AND w) # and_words result other"
| "and_words result other = result"

fun andnot_words :: "Bitmapset \<Rightarrow> Bitmapset \<Rightarrow> Bitmapset" where
  "andnot_words (r # result) (w # other) = (r AND NOT w) # andnot_words result other"
| "andnot_words result other = result"

definition bms_union :: "Bitmapset option \<Rightarrow> Bitmapset option \<Rightarrow> Bitmapset option" where
  "bms_union a b =
     (case a of None \<Rightarrow> bms_copy b
      | Some aw \<Rightarrow>
          (case b of None \<Rightarrow> bms_copy a
           | Some bw \<Rightarrow>
               if nwords aw \<le> nwords bw then Some (or_words bw aw) else Some (or_words aw bw)))"

definition bms_intersect :: "Bitmapset option \<Rightarrow> Bitmapset option \<Rightarrow> Bitmapset option" where
  "bms_intersect a b =
     (case a of None \<Rightarrow> None
      | Some aw \<Rightarrow>
          (case b of None \<Rightarrow> None
           | Some bw \<Rightarrow>
               if nwords aw \<le> nwords bw then Some (and_words aw bw) else Some (and_words bw aw)))"

definition bms_difference :: "Bitmapset option \<Rightarrow> Bitmapset option \<Rightarrow> Bitmapset option" where
  "bms_difference a b =
     (case a of None \<Rightarrow> None
      | Some aw \<Rightarrow>
          (case b of None \<Rightarrow> bms_copy a | Some bw \<Rightarrow> Some (andnot_words aw bw)))"

fun bms_is_subset_words :: "Bitmapset \<Rightarrow> Bitmapset \<Rightarrow> bool" where
  "bms_is_subset_words (a # as) (b # bs) = (if a AND NOT b \<noteq> 0 then False else bms_is_subset_words as bs)"
| "bms_is_subset_words (a # as) [] = (if a \<noteq> 0 then False else bms_is_subset_words as [])"
| "bms_is_subset_words [] bs = True"

definition bms_is_subset :: "Bitmapset option \<Rightarrow> Bitmapset option \<Rightarrow> bool" where
  "bms_is_subset a b =
     (case a of None \<Rightarrow> True
      | Some aw \<Rightarrow> (case b of None \<Rightarrow> bms_is_empty a | Some bw \<Rightarrow> bms_is_subset_words aw bw))"

text \<open>
  The status loop of \<^verbatim>\<open>bms_subset_compare\<close>: the common words first, then the extra words of
  the longer set; \<open>BMS_DIFFERENT\<close> is returned as soon as it is known.
\<close>

fun subset_compare_words :: "BMS_Comparison \<Rightarrow> Bitmapset \<Rightarrow> Bitmapset \<Rightarrow> BMS_Comparison" where
  "subset_compare_words result (aword # as) (bword # bs) =
     (if aword AND NOT bword \<noteq> 0 \<and> result = BMS_SUBSET1 then BMS_DIFFERENT
      else
        let result1 = (if aword AND NOT bword \<noteq> 0 then BMS_SUBSET2 else result) in
        if bword AND NOT aword \<noteq> 0 \<and> result1 = BMS_SUBSET2 then BMS_DIFFERENT
        else
          let result2 = (if bword AND NOT aword \<noteq> 0 then BMS_SUBSET1 else result1) in
          subset_compare_words result2 as bs)"
| "subset_compare_words result (aword # as) [] =
     (if aword \<noteq> 0 then
        (if result = BMS_SUBSET1 then BMS_DIFFERENT else subset_compare_words BMS_SUBSET2 as [])
      else subset_compare_words result as [])"
| "subset_compare_words result [] (bword # bs) =
     (if bword \<noteq> 0 then
        (if result = BMS_SUBSET2 then BMS_DIFFERENT else subset_compare_words BMS_SUBSET1 [] bs)
      else subset_compare_words result [] bs)"
| "subset_compare_words result [] [] = result"

definition bms_subset_compare :: "Bitmapset option \<Rightarrow> Bitmapset option \<Rightarrow> BMS_Comparison" where
  "bms_subset_compare a b =
     (case a of
        None \<Rightarrow> (case b of None \<Rightarrow> BMS_EQUAL
                 | Some _ \<Rightarrow> if bms_is_empty b then BMS_EQUAL else BMS_SUBSET1)
      | Some aw \<Rightarrow>
          (case b of None \<Rightarrow> if bms_is_empty a then BMS_EQUAL else BMS_SUBSET2
           | Some bw \<Rightarrow> subset_compare_words BMS_EQUAL aw bw))"

definition bms_is_member :: "int \<Rightarrow> Bitmapset option \<Rightarrow> bool result" where
  "bms_is_member x a =
     (if x < 0 then Inl (Elog ''negative bitmapset member not allowed'')
      else case a of None \<Rightarrow> Inr False
           | Some ws \<Rightarrow>
               if WORDNUM x \<ge> nwords ws then Inr False
               else Inr (ws ! WORDNUM x AND push_bit (BITNUM x) 1 \<noteq> 0))"

fun bms_overlap_words :: "Bitmapset \<Rightarrow> Bitmapset \<Rightarrow> bool" where
  "bms_overlap_words (a # as) (b # bs) = (if a AND b \<noteq> 0 then True else bms_overlap_words as bs)"
| "bms_overlap_words as bs = False"

definition bms_overlap :: "Bitmapset option \<Rightarrow> Bitmapset option \<Rightarrow> bool" where
  "bms_overlap a b =
     (case a of None \<Rightarrow> False
      | Some aw \<Rightarrow> (case b of None \<Rightarrow> False | Some bw \<Rightarrow> bms_overlap_words aw bw))"

fun overlap_list_loop :: "Bitmapset \<Rightarrow> int list \<Rightarrow> bool result" where
  "overlap_list_loop ws [] = Inr False"
| "overlap_list_loop ws (x # xs) =
     (if x < 0 then Inl (Elog ''negative bitmapset member not allowed'')
      else if WORDNUM x < nwords ws \<and> ws ! WORDNUM x AND push_bit (BITNUM x) 1 \<noteq> 0 then Inr True
      else overlap_list_loop ws xs)"

definition bms_overlap_list :: "Bitmapset option \<Rightarrow> int list \<Rightarrow> bool result" where
  "bms_overlap_list a b =
     (case a of None \<Rightarrow> Inr False
      | Some ws \<Rightarrow> if b = [] then Inr False else overlap_list_loop ws b)"

fun nonempty_difference_words :: "Bitmapset \<Rightarrow> Bitmapset \<Rightarrow> bool" where
  "nonempty_difference_words (a # as) (b # bs) =
     (if a AND NOT b \<noteq> 0 then True else nonempty_difference_words as bs)"
| "nonempty_difference_words (a # as) [] = (if a \<noteq> 0 then True else nonempty_difference_words as [])"
| "nonempty_difference_words [] bs = False"

definition bms_nonempty_difference :: "Bitmapset option \<Rightarrow> Bitmapset option \<Rightarrow> bool" where
  "bms_nonempty_difference a b =
     (case a of None \<Rightarrow> False
      | Some aw \<Rightarrow>
          (case b of None \<Rightarrow> \<not> bms_is_empty a | Some bw \<Rightarrow> nonempty_difference_words aw bw))"

lemma drop_bit_8_less: "w \<noteq> 0 \<Longrightarrow> unat (drop_bit 8 w) < unat (w :: bitmapword)"
proof -
  assume "w \<noteq> 0"
  then have "0 < unat w" by (simp add: unat_gt_0)
  then show ?thesis by (simp add: unat_drop_bit_eq drop_bit_eq_div unat_div del: unat_gt_0)
qed

text \<open>
  The loop \<^verbatim>\<open>while ((w & 255) == 0) { w >>= 8; result += 8; }\<close> and the table lookup after it.
  Every caller has just tested \<^verbatim>\<open>w != 0\<close>; on 0 the C loop would not end, and the definition
  returns its accumulator.
\<close>

function scan_rightmost :: "bitmapword \<Rightarrow> nat \<Rightarrow> nat" where
  "scan_rightmost w result =
     (if w = 0 then result
      else if w AND 255 = 0 then scan_rightmost (drop_bit 8 w) (result + 8)
      else result + rightmost_one_pos ! unat (w AND 255))"
  by pat_completeness auto

termination
  by (relation "measure (\<lambda>(w, r). unat w)") (simp_all add: drop_bit_8_less)

declare scan_rightmost.simps [simp del]

fun singleton_loop :: "nat \<Rightarrow> int \<Rightarrow> Bitmapset \<Rightarrow> int option" where
  "singleton_loop wordnum result [] = Some result"
| "singleton_loop wordnum result (w # ws) =
     (if w \<noteq> 0 then
        if result \<ge> 0 \<or> HAS_MULTIPLE_ONES w then None
        else singleton_loop (wordnum + 1) (int (scan_rightmost w (wordnum * BITS_PER_BITMAPWORD))) ws
      else singleton_loop (wordnum + 1) result ws)"

definition bms_singleton_member :: "Bitmapset option \<Rightarrow> int result" where
  "bms_singleton_member a =
     (case a of None \<Rightarrow> Inl (Elog ''bitmapset is empty'')
      | Some ws \<Rightarrow>
          (case singleton_loop 0 (- 1) ws of
             None \<Rightarrow> Inl (Elog ''bitmapset has multiple members'')
           | Some result \<Rightarrow>
               if result < 0 then Inl (Elog ''bitmapset is empty'') else Inr result))"

text \<open>The out parameter \<^verbatim>\<open>*member\<close> is an argument and the second component of the result.\<close>

definition bms_get_singleton_member :: "Bitmapset option \<Rightarrow> int \<Rightarrow> bool \<times> int" where
  "bms_get_singleton_member a member =
     (case a of None \<Rightarrow> (False, member)
      | Some ws \<Rightarrow>
          (case singleton_loop 0 (- 1) ws of
             None \<Rightarrow> (False, member)
           | Some result \<Rightarrow> if result < 0 then (False, member) else (True, result)))"

function count_ones :: "bitmapword \<Rightarrow> nat \<Rightarrow> nat" where
  "count_ones w result =
     (if w \<noteq> 0 then count_ones (drop_bit 8 w) (result + number_of_ones ! unat (w AND 255))
      else result)"
  by pat_completeness auto
termination
  by (relation "measure (\<lambda>(w, r). unat w)") (simp_all add: drop_bit_8_less)

declare count_ones.simps [simp del]

definition bms_num_members :: "Bitmapset option \<Rightarrow> nat" where
  "bms_num_members a = (case a of None \<Rightarrow> 0 | Some ws \<Rightarrow> foldl (\<lambda>result w. count_ones w result) 0 ws)"

fun membership_loop :: "BMS_Membership \<Rightarrow> Bitmapset \<Rightarrow> BMS_Membership" where
  "membership_loop result [] = result"
| "membership_loop result (w # ws) =
     (if w \<noteq> 0 then
        if result \<noteq> BMS_EMPTY_SET \<or> HAS_MULTIPLE_ONES w then BMS_MULTIPLE
        else membership_loop BMS_SINGLETON ws
      else membership_loop result ws)"

definition bms_membership :: "Bitmapset option \<Rightarrow> BMS_Membership" where
  "bms_membership a = (case a of None \<Rightarrow> BMS_EMPTY_SET | Some ws \<Rightarrow> membership_loop BMS_EMPTY_SET ws)"

subsection \<open>Operations that recycle their input\<close>

definition bms_add_member :: "Bitmapset option \<Rightarrow> int \<Rightarrow> Bitmapset option result" where
  "bms_add_member a x =
     (if x < 0 then Inl (Elog ''negative bitmapset member not allowed'')
      else case a of None \<Rightarrow> bms_make_singleton x
           | Some ws \<Rightarrow>
               let ws = (if WORDNUM x \<ge> nwords ws then ws @ replicate (WORDNUM x + 1 - nwords ws) 0
                         else ws)
               in Inr (Some (ws[WORDNUM x := ws ! WORDNUM x OR push_bit (BITNUM x) 1])))"

definition bms_del_member :: "Bitmapset option \<Rightarrow> int \<Rightarrow> Bitmapset option result" where
  "bms_del_member a x =
     (if x < 0 then Inl (Elog ''negative bitmapset member not allowed'')
      else case a of None \<Rightarrow> Inr None
           | Some ws \<Rightarrow>
               Inr (Some (if WORDNUM x < nwords ws
                          then ws[WORDNUM x := ws ! WORDNUM x AND NOT (push_bit (BITNUM x) 1)]
                          else ws)))"

definition bms_add_members :: "Bitmapset option \<Rightarrow> Bitmapset option \<Rightarrow> Bitmapset option" where
  "bms_add_members a b =
     (case a of None \<Rightarrow> bms_copy b
      | Some aw \<Rightarrow>
          (case b of None \<Rightarrow> a
           | Some bw \<Rightarrow>
               if nwords aw < nwords bw then Some (or_words bw aw) else Some (or_words aw bw)))"

fun int_members_words :: "Bitmapset \<Rightarrow> Bitmapset \<Rightarrow> Bitmapset" where
  "int_members_words (a # as) (b # bs) = (a AND b) # int_members_words as bs"
| "int_members_words (a # as) [] = 0 # int_members_words as []"
| "int_members_words [] bs = []"

definition bms_int_members :: "Bitmapset option \<Rightarrow> Bitmapset option \<Rightarrow> Bitmapset option" where
  "bms_int_members a b =
     (case a of None \<Rightarrow> None
      | Some aw \<Rightarrow> (case b of None \<Rightarrow> None | Some bw \<Rightarrow> Some (int_members_words aw bw)))"

definition bms_del_members :: "Bitmapset option \<Rightarrow> Bitmapset option \<Rightarrow> Bitmapset option" where
  "bms_del_members a b =
     (case a of None \<Rightarrow> None
      | Some aw \<Rightarrow> (case b of None \<Rightarrow> a | Some bw \<Rightarrow> Some (andnot_words aw bw)))"

definition bms_join :: "Bitmapset option \<Rightarrow> Bitmapset option \<Rightarrow> Bitmapset option" where
  "bms_join a b =
     (case a of None \<Rightarrow> b
      | Some aw \<Rightarrow>
          (case b of None \<Rightarrow> a
           | Some bw \<Rightarrow>
               if nwords aw < nwords bw then Some (or_words bw aw) else Some (or_words aw bw)))"

subsection \<open>Iteration and hashing\<close>

fun first_member_loop :: "nat \<Rightarrow> Bitmapset \<Rightarrow> int \<times> Bitmapset" where
  "first_member_loop wordnum [] = (- 1, [])"
| "first_member_loop wordnum (w # ws) =
     (if w \<noteq> 0 then
        (int (scan_rightmost (RIGHTMOST_ONE w) (wordnum * BITS_PER_BITMAPWORD)),
         (w AND NOT (RIGHTMOST_ONE w)) # ws)
      else
        let (result, ws') = first_member_loop (wordnum + 1) ws in (result, w # ws'))"

definition bms_first_member :: "Bitmapset option \<Rightarrow> int \<times> Bitmapset option" where
  "bms_first_member a =
     (case a of None \<Rightarrow> (- 1, None)
      | Some ws \<Rightarrow> let (result, ws') = first_member_loop 0 ws in (result, Some ws'))"

fun next_member_loop :: "nat \<Rightarrow> bitmapword \<Rightarrow> Bitmapset \<Rightarrow> int" where
  "next_member_loop wordnum wmask [] = - 2"
| "next_member_loop wordnum wmask (w # ws) =
     (let w = w AND wmask in
      if w \<noteq> 0 then int (scan_rightmost w (wordnum * BITS_PER_BITMAPWORD))
      else next_member_loop (wordnum + 1) (NOT 0) ws)"

definition bms_next_member :: "Bitmapset option \<Rightarrow> int \<Rightarrow> int" where
  "bms_next_member a prevbit =
     (case a of None \<Rightarrow> - 2
      | Some ws \<Rightarrow>
          let prevbit = prevbit + 1 in
          next_member_loop (WORDNUM prevbit) (push_bit (BITNUM prevbit) (NOT 0))
            (drop (WORDNUM prevbit) ws))"

text \<open>The loop variable is \<^verbatim>\<open>lastword + 1\<close>.\<close>

fun lastword_loop :: "Bitmapset \<Rightarrow> nat \<Rightarrow> nat" where
  "lastword_loop ws 0 = 0"
| "lastword_loop ws (Suc n) = (if ws ! n \<noteq> 0 then Suc n else lastword_loop ws n)"

definition bms_hash_value :: "bool \<Rightarrow> Bitmapset option \<Rightarrow> uint32" where
  "bms_hash_value be a =
     (case a of None \<Rightarrow> 0
      | Some ws \<Rightarrow>
          (case lastword_loop ws (nwords ws) of
             0 \<Rightarrow> 0
           | Suc n \<Rightarrow> hash_any be True (concat (map (store32 be) (take (Suc n) ws)))))"

subsection \<open>The abstraction to sets\<close>

definition bit_at :: "Bitmapset \<Rightarrow> nat \<Rightarrow> bool" where
  "bit_at ws n \<longleftrightarrow> n div 32 < nwords ws \<and> bit (ws ! (n div 32)) (n mod 32)"

definition members :: "Bitmapset option \<Rightarrow> nat set" where
  "members a = (case a of None \<Rightarrow> {} | Some ws \<Rightarrow> {n. bit_at ws n})"

lemma members_simps [simp]: "members None = {}" "n \<in> members (Some ws) \<longleftrightarrow> bit_at ws n"
  by (simp_all add: members_def)

lemma word_bit_bound: "bit (w :: bitmapword) n \<Longrightarrow> n < 32"
  using bit_imp_le_length [of w n] by simp

lemma bit_at_Nil [simp]: "\<not> bit_at [] n"
  by (simp add: bit_at_def)

lemma bit_at_Cons [simp]: "bit_at (w # ws) n \<longleftrightarrow> (if n < 32 then bit w n else bit_at ws (n - 32))"
proof (cases "n < 32")
  case False
  then have "n div 32 = Suc ((n - 32) div 32)" "n mod 32 = (n - 32) mod 32"
    by (simp_all add: div_if le_mod_geq)
  with False show ?thesis by (simp add: bit_at_def)
qed (simp add: bit_at_def)

lemma bit_at_bound: "bit_at ws n \<Longrightarrow> n < 32 * nwords ws"
  by (simp add: bit_at_def div_less_iff_less_mult mult.commute)

lemma finite_members [simp]: "finite (members a)"
proof (cases a)
  case (Some ws)
  have "members a \<subseteq> {..< 32 * nwords ws}" using Some by (auto dest: bit_at_bound)
  then show ?thesis by (rule finite_subset) simp
qed simp

text \<open>
  A statement about the bits of two word arrays holds of the whole arrays if and only if it holds of
  their first words and of the rest.
\<close>

lemma all_shift: "(\<forall>n \<ge> k. Q (n - k)) \<longleftrightarrow> (\<forall>n :: nat. Q n)"
proof
  assume a: "\<forall>n \<ge> k. Q (n - k)"
  show "\<forall>n. Q n"
  proof
    fix n
    from a [rule_format, of "n + k"] show "Q n" by simp
  qed
qed blast

lemma all_bit_at_Cons:
  "(\<forall>n. P (bit_at (a # as) n) (bit_at (b # bs) n)) \<longleftrightarrow>
     (\<forall>n < 32. P (bit a n) (bit b n)) \<and> (\<forall>n. P (bit_at as n) (bit_at bs n))"
proof -
  have "(\<forall>n. P (bit_at (a # as) n) (bit_at (b # bs) n)) \<longleftrightarrow>
        (\<forall>n < 32. P (bit a n) (bit b n)) \<and> (\<forall>n \<ge> 32. P (bit_at as (n - 32)) (bit_at bs (n - 32)))"
    by (auto simp: not_less)
  also have "(\<forall>n \<ge> 32. P (bit_at as (n - 32)) (bit_at bs (n - 32))) \<longleftrightarrow> (\<forall>n. P (bit_at as n) (bit_at bs n))"
    by (rule all_shift)
  finally show ?thesis .
qed

lemma all_bit_at_Cons_Nil:
  
  "(\<forall>n. P (bit_at (a # as) n)) \<longleftrightarrow> (\<forall>n < 32. P (bit a n)) \<and> (\<forall>n. P (bit_at as n))"
  using all_bit_at_Cons [of "\<lambda>x _. P x" a as a as] .

lemma word_eq_0_bits: "w = 0 \<longleftrightarrow> (\<forall>n < 32. \<not> bit (w :: bitmapword) n)"
  by (auto intro: bit_word_eqI)

lemma word_andnot_0_bits: "v AND NOT w = 0 \<longleftrightarrow> (\<forall>n < 32. bit v n \<longrightarrow> bit (w :: bitmapword) n)"
  unfolding word_eq_0_bits by (auto simp: bit_simps)

lemma word_and_0_bits: "v AND w = 0 \<longleftrightarrow> (\<forall>n < 32. \<not> (bit v n \<and> bit (w :: bitmapword) n))"
  unfolding word_eq_0_bits by (auto simp: bit_simps)

lemma word_eq_bits: "v = w \<longleftrightarrow> (\<forall>n < 32. bit v n \<longleftrightarrow> bit (w :: bitmapword) n)"
  by (auto intro: bit_word_eqI)

lemmas word_bits = word_eq_0_bits word_andnot_0_bits word_and_0_bits

subsection \<open>Each operation is the set operation\<close>

lemma bit_at_or_words: "nwords o1 \<le> nwords r \<Longrightarrow> bit_at (or_words r o1) n \<longleftrightarrow> bit_at r n \<or> bit_at o1 n"
  by (induction r o1 arbitrary: n rule: or_words.induct) (auto simp: bit_simps)

lemma bit_at_and_words: "nwords r \<le> nwords o1 \<Longrightarrow> bit_at (and_words r o1) n \<longleftrightarrow> bit_at r n \<and> bit_at o1 n"
  by (induction r o1 arbitrary: n rule: and_words.induct) (auto simp: bit_simps)

lemma bit_at_andnot_words: "bit_at (andnot_words r o1) n \<longleftrightarrow> bit_at r n \<and> \<not> bit_at o1 n"
  by (induction r o1 arbitrary: n rule: andnot_words.induct) (auto simp: bit_simps)

lemma bit_at_int_members_words: "bit_at (int_members_words r o1) n \<longleftrightarrow> bit_at r n \<and> bit_at o1 n"
  by (induction r o1 arbitrary: n rule: int_members_words.induct) (auto simp: bit_simps)

lemmas bit_at_words = bit_at_or_words bit_at_and_words bit_at_andnot_words bit_at_int_members_words

lemma members_copy [bms_simps]: "members (bms_copy a) = members a"
  by (simp add: bms_copy_def split: option.split)

lemma members_union [bms_simps]: "members (bms_union a b) = members a \<union> members b"
  by (cases a; cases b) (auto simp: bms_union_def bms_copy_def bit_at_words)

lemma members_intersect [bms_simps]: "members (bms_intersect a b) = members a \<inter> members b"
  by (cases a; cases b) (auto simp: bms_intersect_def bit_at_words)

lemma members_difference [bms_simps]: "members (bms_difference a b) = members a - members b"
  by (cases a; cases b) (auto simp: bms_difference_def bms_copy_def bit_at_words)

lemma members_add_members [bms_simps]: "members (bms_add_members a b) = members a \<union> members b"
  by (cases a; cases b) (auto simp: bms_add_members_def bms_copy_def bit_at_words)

lemma members_int_members [bms_simps]: "members (bms_int_members a b) = members a \<inter> members b"
  by (cases a; cases b) (auto simp: bms_int_members_def bit_at_words)

lemma members_del_members [bms_simps]: "members (bms_del_members a b) = members a - members b"
  by (cases a; cases b) (auto simp: bms_del_members_def bit_at_words)

lemma members_join [bms_simps]: "members (bms_join a b) = members a \<union> members b"
  by (cases a; cases b) (auto simp: bms_join_def bit_at_words)

lemma is_empty_words: "list_all (\<lambda>w. w = 0) ws \<longleftrightarrow> (\<forall>n. \<not> bit_at ws n)"
  by (induction ws) (simp_all add: all_bit_at_Cons_Nil [where P = "\<lambda>x. \<not> x"] word_eq_0_bits del: bit_at_Cons)

lemma is_empty_iff [bms_simps]: "bms_is_empty a \<longleftrightarrow> members a = {}"
  by (auto simp: bms_is_empty_def is_empty_words members_def split: option.split)

lemma equal_words_iff: "nwords s \<le> nwords l \<Longrightarrow> bms_equal_words s l \<longleftrightarrow> (\<forall>n. bit_at s n = bit_at l n)"
  by (induction s l rule: bms_equal_words.induct)
    (simp_all add: all_bit_at_Cons [where P = "(=)"] all_bit_at_Cons_Nil [where P = "\<lambda>x. \<not> x"] word_eq_0_bits word_eq_bits
      del: bit_at_Cons)

lemma equal_iff [bms_simps]: "bms_equal a b \<longleftrightarrow> members a = members b"
  by (cases a; cases b) (auto simp: bms_equal_def bms_simps equal_words_iff set_eq_iff)

lemma is_subset_words_iff: "bms_is_subset_words as bs \<longleftrightarrow> (\<forall>n. bit_at as n \<longrightarrow> bit_at bs n)"
  by (induction as bs rule: bms_is_subset_words.induct)
    (simp_all add: all_bit_at_Cons [where P = "\<lambda>x y. x \<longrightarrow> y"] all_bit_at_Cons_Nil [where P = "\<lambda>x. \<not> x"] word_eq_0_bits
      bit_and_iff bit_not_iff del: bit_at_Cons, blast?)

lemma is_subset_iff [bms_simps]: "bms_is_subset a b \<longleftrightarrow> members a \<subseteq> members b"
  by (cases a; cases b) (auto simp: bms_is_subset_def bms_simps is_subset_words_iff)

lemma nonempty_difference_words_iff: "nonempty_difference_words as bs \<longleftrightarrow> \<not> bms_is_subset_words as bs"
  by (induction as bs rule: bms_is_subset_words.induct) simp_all

lemma nonempty_difference_iff [bms_simps]: "bms_nonempty_difference a b \<longleftrightarrow> \<not> members a \<subseteq> members b"
  by (cases a; cases b) (auto simp: bms_nonempty_difference_def bms_simps
      nonempty_difference_words_iff is_subset_words_iff)

lemma overlap_words_iff: "bms_overlap_words as bs \<longleftrightarrow> \<not> (\<forall>n. \<not> (bit_at as n \<and> bit_at bs n))"
  by (induction as bs rule: bms_overlap_words.induct)
    (simp_all add: all_bit_at_Cons [where P = "\<lambda>x y. x \<longrightarrow> \<not> y"] word_eq_0_bits
      bit_and_iff del: bit_at_Cons, blast?)

lemma overlap_iff [bms_simps]: "bms_overlap a b \<longleftrightarrow> members a \<inter> members b \<noteq> {}"
  by (cases a; cases b) (auto simp: bms_overlap_def overlap_words_iff)

text \<open>The four results of the comparison as the pair of the two inclusions.\<close>

definition comparison_of :: "bool \<Rightarrow> bool \<Rightarrow> BMS_Comparison" where
  "comparison_of p q =
     (if p then if q then BMS_EQUAL else BMS_SUBSET1 else if q then BMS_SUBSET2 else BMS_DIFFERENT)"

lemma subset_compare_words_iff:
  "result \<noteq> BMS_DIFFERENT \<Longrightarrow> subset_compare_words result as bs =
     comparison_of (result \<noteq> BMS_SUBSET2 \<and> bms_is_subset_words as bs)
       (result \<noteq> BMS_SUBSET1 \<and> bms_is_subset_words bs as)"
proof (induction result as bs rule: subset_compare_words.induct)
  case (4 result)
  then show ?case by (cases result) (simp_all add: comparison_of_def)
qed (auto simp: Let_def comparison_of_def)

lemma subset_compare_eq:
  "bms_subset_compare a b = comparison_of (members a \<subseteq> members b) (members b \<subseteq> members a)"
  by (cases a; cases b)
    (auto simp: bms_subset_compare_def bms_simps subset_compare_words_iff is_subset_words_iff comparison_of_def)

subsection \<open>Single members\<close>

declare push_bit_of_1 [simp del]

lemma and_push_bit_1: "v AND push_bit k 1 \<noteq> 0 \<longleftrightarrow> bit v k" for v :: bitmapword
  by (simp add: bit_iff_and_push_bit_not_eq_0)

lemma push_bit_1_bit: "bit (push_bit k 1 :: bitmapword) n \<longleftrightarrow> n = k \<and> k < 32"
  by (auto simp: bit_simps)

lemma bit_at_member: "bit_at ws (nat x) \<longleftrightarrow> WORDNUM x < nwords ws \<and> bit (ws ! WORDNUM x) (BITNUM x)"
  by (simp add: bit_at_def WORDNUM_def BITNUM_def)

lemma BITNUM_less [simp]: "BITNUM x < 32"
  by (simp add: BITNUM_def)

lemma word_bit_index: "n div 32 = WORDNUM x \<and> n mod 32 = BITNUM x \<longleftrightarrow> n = nat x"
  unfolding WORDNUM_def BITNUM_def by (metis div_mult_mod_eq)

lemma bit_at_update:
  assumes "i < nwords ws"
  shows "bit_at (ws[i := w]) n \<longleftrightarrow> (if n div 32 = i then bit w (n mod 32) else bit_at ws n)"
  using assms by (simp add: bit_at_def)

lemma bit_at_append_zeros [simp]: "bit_at (ws @ replicate k 0) n \<longleftrightarrow> bit_at ws n"
  by (auto simp: bit_at_def nth_append)

lemma bit_at_zeros [simp]: "\<not> bit_at (replicate k 0) n"
  by (auto simp: bit_at_def)

lemma bit_at_set_bit:
  assumes "WORDNUM x < nwords ws"
  shows "bit_at (ws[WORDNUM x := ws ! WORDNUM x OR push_bit (BITNUM x) 1]) n \<longleftrightarrow> n = nat x \<or> bit_at ws n"
proof (cases "n div 32 = WORDNUM x")
  case True
  then show ?thesis
    using assms word_bit_index [of n x]
    by (auto simp: bit_at_update bit_or_iff push_bit_1_bit bit_at_def)
next
  case False
  then show ?thesis using assms by (auto simp: bit_at_update WORDNUM_def)
qed

lemma bit_at_clear_bit:
  assumes "WORDNUM x < nwords ws"
  shows "bit_at (ws[WORDNUM x := ws ! WORDNUM x AND NOT (push_bit (BITNUM x) 1)]) n \<longleftrightarrow> n \<noteq> nat x \<and> bit_at ws n"
proof (cases "n div 32 = WORDNUM x")
  case True
  then show ?thesis
    using assms word_bit_index [of n x]
    by (auto simp: bit_at_update bit_and_iff bit_not_iff push_bit_1_bit bit_at_def)
next
  case False
  then show ?thesis using assms by (auto simp: bit_at_update WORDNUM_def)
qed

lemma is_member_eq: "0 \<le> x \<Longrightarrow> bms_is_member x a = Inr (nat x \<in> members a)"
  by (cases a) (auto simp: bms_is_member_def bit_at_member and_push_bit_1)

lemma make_singleton_members:
  assumes "0 \<le> x"
  shows "\<exists>b. bms_make_singleton x = Inr (Some b) \<and> members (Some b) = {nat x}"
proof -
  let ?z = "replicate (WORDNUM x + 1) 0 :: Bitmapset"
  have "WORDNUM x < nwords ?z" by simp
  moreover have "?z ! WORDNUM x = 0" by (simp del: replicate_Suc)
  ultimately have "bit_at (?z[WORDNUM x := push_bit (BITNUM x) 1]) n \<longleftrightarrow> n = nat x" for n
    using bit_at_set_bit [of x ?z n] by (simp del: replicate_Suc)
  then show ?thesis using assms by (auto simp: bms_make_singleton_def members_def)
qed

lemma add_member_members:
  assumes "0 \<le> x"
  shows "\<exists>b. bms_add_member a x = Inr (Some b) \<and> members (Some b) = insert (nat x) (members a)"
proof (cases a)
  case None
  then show ?thesis using assms make_singleton_members [OF assms] by (simp add: bms_add_member_def)
next
  case (Some ws)
  define vs where "vs = (if WORDNUM x \<ge> nwords ws then ws @ replicate (WORDNUM x + 1 - nwords ws) 0 else ws)"
  have "WORDNUM x < nwords vs" by (simp add: vs_def)
  moreover have "bit_at vs n \<longleftrightarrow> bit_at ws n" for n by (simp add: vs_def)
  moreover have "bms_add_member a x = Inr (Some (vs[WORDNUM x := vs ! WORDNUM x OR push_bit (BITNUM x) 1]))"
    using assms Some by (simp add: bms_add_member_def vs_def Let_def)
  ultimately show ?thesis using Some by (auto simp: bit_at_set_bit)
qed

lemma del_member_members:
  assumes "0 \<le> x"
  shows "\<exists>b. bms_del_member a x = Inr b \<and> members b = members a - {nat x}"
proof (cases a)
  case (Some ws)
  show ?thesis
  proof (cases "WORDNUM x < nwords ws")
    case True
    then show ?thesis using assms Some by (auto simp: bms_del_member_def bit_at_clear_bit)
  next
    case False
    then have "\<not> bit_at ws (nat x)" by (simp add: bit_at_member)
    then show ?thesis using assms Some False by (auto simp: bms_del_member_def)
  qed
qed (use assms in \<open>simp add: bms_del_member_def\<close>)

lemma overlap_list_members:
  "\<forall>x \<in> set b. 0 \<le> x \<Longrightarrow> bms_overlap_list a b = Inr (\<exists>x \<in> set b. nat x \<in> members a)"
proof (cases a)
  case (Some ws)
  assume "\<forall>x \<in> set b. 0 \<le> x"
  then have "overlap_list_loop ws b = Inr (\<exists>x \<in> set b. bit_at ws (nat x))"
    by (induction b) (auto simp: bit_at_member and_push_bit_1)
  then show ?thesis by (simp add: bms_overlap_list_def Some)
qed (simp add: bms_overlap_list_def)

subsection \<open>The rightmost bit of a word\<close>

definition least_bit :: "(nat \<Rightarrow> bool) \<Rightarrow> nat \<Rightarrow> bool" where
  "least_bit P n \<longleftrightarrow> P n \<and> (\<forall>j < n. \<not> P j)"

lemma least_bit_unique: "least_bit P m \<Longrightarrow> least_bit P n \<Longrightarrow> m = n"
  by (auto simp: least_bit_def) (metis linorder_neqE_nat)

lemma least_bit_exists: "P n \<Longrightarrow> \<exists>m. least_bit P m"
  unfolding least_bit_def by (metis exists_least_iff)

lemma rightmost_one_pos_table:
  "list_all (\<lambda>(b, p). bit (b :: int) p \<and> list_all (\<lambda>j. \<not> bit b j) [0..<p]) (zip [1..255] (tl rightmost_one_pos))"
  by code_simp

lemma number_of_ones_table:
  "list_all (\<lambda>(b, c). length (filter (bit (b :: int)) [0..<8]) = c) (zip [0..255] number_of_ones)"
  by code_simp

lemma rightmost_one_pos_least:
  assumes "0 < b" "b < 256"
  shows "least_bit (bit (int b)) (rightmost_one_pos ! b)"
proof -
  have "length (tl rightmost_one_pos) = 255" by (simp add: rightmost_one_pos_def)
  moreover have "rightmost_one_pos ! b = tl rightmost_one_pos ! (b - 1)"
    using assms by (simp add: nth_tl rightmost_one_pos_def)
  moreover have "[1..255] ! (b - 1) = int b" using assms by (simp add: nth_upto of_nat_diff)
  ultimately have "bit (int b) (rightmost_one_pos ! b) \<and> list_all (\<lambda>j. \<not> bit (int b) j) [0..<rightmost_one_pos ! b]"
    using list_all_length [THEN iffD1, OF rightmost_one_pos_table, rule_format, of "b - 1"] assms by simp
  then show ?thesis by (auto simp: least_bit_def list_all_iff)
qed

lemma number_of_ones_card:
  assumes "b < 256"
  shows "number_of_ones ! b = card {n. n < 8 \<and> bit (int b) n}"
proof -
  have "length number_of_ones = 256" by (simp add: number_of_ones_def)
  moreover have "[0..255] ! b = int b" using assms by (simp add: nth_upto)
  ultimately have "number_of_ones ! b = length (filter (bit (int b)) [0..<8])"
    using number_of_ones_table assms by (auto simp: list_all_length dest!: spec [of _ b])
  also have "\<dots> = card {n. n < 8 \<and> bit (int b) n}"
    by (simp add: distinct_length_filter Int_def conj_commute)
  finally show ?thesis .
qed


lemma unat_low_byte: "unat (w AND 255 :: bitmapword) < 256"
  using word_and_le1 [of w 255] by (simp add: word_le_nat_alt)

lemma bit_255: "bit (255 :: bitmapword) n \<longleftrightarrow> n < 8"
proof -
  have "bit (mask 8 :: bitmapword) n \<longleftrightarrow> n < 8" by (auto simp: bit_mask_iff)
  moreover have "(mask 8 :: bitmapword) = 255" by (simp add: mask_eq_exp_minus_1)
  ultimately show ?thesis by (simp only:)
qed

lemma bit_low_byte: "bit (uint (w AND 255 :: bitmapword)) n \<longleftrightarrow> n < 8 \<and> bit w n"
  by (auto simp: bit_uint_iff bit_and_iff bit_255 simp del: bit_numeral_word_iff)

lemma low_byte_0: "w AND 255 = 0 \<longleftrightarrow> (\<forall>n < 8. \<not> bit (w :: bitmapword) n)"
  by (auto simp: word_eq_0_bits bit_and_iff bit_255 simp del: bit_numeral_word_iff dest: word_bit_bound)

lemma bit_drop_8: "bit (drop_bit 8 w) n \<longleftrightarrow> bit (w :: bitmapword) (n + 8)"
  by (simp add: bit_drop_bit_eq add.commute)

lemma scan_rightmost_eq: "least_bit (bit w) n \<Longrightarrow> scan_rightmost w result = result + n"
proof (induction w result arbitrary: n rule: scan_rightmost.induct)
  case (1 w result)
  from 1 have w: "w \<noteq> 0" by (auto simp: least_bit_def)
  show ?case
  proof (cases "w AND 255 = 0")
    case True
    with 1 have "8 \<le> n" by (auto simp: low_byte_0 least_bit_def not_less [symmetric])
    then have "least_bit (bit (drop_bit 8 w)) (n - 8)"
      using "1.prems" by (auto simp: least_bit_def bit_drop_8)
    then show ?thesis using 1 w True \<open>8 \<le> n\<close> by (subst scan_rightmost.simps) simp
  next
    case False
    let ?b = "unat (w AND 255)"
    from False have "0 < ?b" by (simp add: unat_gt_0)
    then have "least_bit (bit (int ?b)) (rightmost_one_pos ! ?b)"
      by (rule rightmost_one_pos_least) (rule unat_low_byte)
    then have "least_bit (bit w) (rightmost_one_pos ! ?b)"
      by (auto simp: least_bit_def bit_low_byte)
    with 1 have "n = rightmost_one_pos ! ?b" by (blast intro: least_bit_unique)
    then show ?thesis using w False by (subst scan_rightmost.simps) simp
  qed
qed

lemma RIGHTMOST_ONE_eq:
  assumes "least_bit (bit w) n"
  shows "RIGHTMOST_ONE w = push_bit n 1"
proof -
  define u where "u = drop_bit n w"
  have w: "w = push_bit n u"
  proof (rule bit_word_eqI)
    fix j
    assume "j < LENGTH(32)"
    then show "bit w j = bit (push_bit n u) j"
      using assms by (cases "j < n") (auto simp: u_def bit_simps least_bit_def)
  qed
  have "odd u" using assms by (simp add: u_def least_bit_def bit_iff_odd_drop_bit)
  then have "NOT u AND 1 = 0" by (simp add: and_one_eq even_iff_mod_2_eq_zero [symmetric])
  then have "- u = NOT u OR 1" by (simp add: minus_eq_not_plus_1 disjunctive_add_eq_or)
  moreover have "- w = push_bit n (- u)" by (simp add: w push_bit_eq_mult)
  ultimately have "RIGHTMOST_ONE w = push_bit n (u AND (NOT u OR 1))"
    by (simp add: RIGHTMOST_ONE_def w push_bit_and)
  also have "u AND (NOT u OR 1) = 1"
    using \<open>odd u\<close> by (simp add: bit.conj_disj_distrib and_one_eq odd_iff_mod_2_eq_one)
  finally show ?thesis .
qed

lemma word_least_bit: "w \<noteq> 0 \<Longrightarrow> \<exists>n. least_bit (bit (w :: bitmapword)) n \<and> n < 32"
  by (metis least_bit_exists least_bit_def word_bit_bound word_eq_0_bits)

subsection \<open>Counting\<close>

lemma Collect_singletonD: "Collect P = {x} \<Longrightarrow> P y \<Longrightarrow> y = x"
  by auto

lemma card_Collect_1D: "card (Collect P) = Suc 0 \<Longrightarrow> \<exists>x. P x"
  by (metis card_1_singletonE Collect_empty_eq empty_not_insert One_nat_def)

lemma card_bit_at_Nil [simp]: "card (Collect (bit_at [])) = 0"
  by (simp add: card_eq_0_iff)

lemma finite_word_bits [simp]: "finite {n. bit (w :: bitmapword) n}"
  by (rule finite_subset [of _ "{..< 32}"]) (auto dest: word_bit_bound)

lemma word_bits_split: "{n. bit w n} = {n. n < 8 \<and> bit w n} \<union> (+) 8 ` {n. bit (drop_bit 8 (w :: bitmapword)) n}"
  (is "?L = ?R")
proof (rule set_eqI)
  fix n
  have "8 \<le> n \<Longrightarrow> n \<in> (+) 8 ` {n. bit (drop_bit 8 w) n} \<longleftrightarrow> bit w n"
    by (auto simp: image_iff bit_drop_8 add.commute intro!: exI [of _ "n - 8"])
  moreover have "n < 8 \<Longrightarrow> n \<notin> (+) 8 ` {n. bit (drop_bit 8 w) n}" by auto
  ultimately show "n \<in> ?L \<longleftrightarrow> n \<in> ?R" by (cases "n < 8") auto
qed

lemma count_ones_eq: "count_ones w result = result + card {n. bit w n}"
proof (induction w result rule: count_ones.induct)
  case (1 w result)
  have "card {n. bit w n} = card {n. n < 8 \<and> bit w n} + card {n. bit (drop_bit 8 w) n}"
    by (subst word_bits_split, subst card_Un_disjoint) (auto simp: card_image)
  moreover have "number_of_ones ! unat (w AND 255) = card {n. n < 8 \<and> bit w n}"
    using number_of_ones_card [OF unat_low_byte [of w]] by (simp add: bit_low_byte)
  ultimately show ?case using 1 by (subst count_ones.simps) auto
qed

lemma bit_at_Cons_set: "{n. bit_at (w # ws) n} = {n. bit w n} \<union> (+) 32 ` {n. bit_at ws n}" (is "?L = ?R")
proof (rule set_eqI)
  fix n
  have "32 \<le> n \<Longrightarrow> n \<in> (+) 32 ` {n. bit_at ws n} \<longleftrightarrow> bit_at ws (n - 32)"
    by (auto simp: image_iff intro!: exI [of _ "n - 32"])
  moreover have "n < 32 \<Longrightarrow> n \<notin> (+) 32 ` {n. bit_at ws n}" by auto
  moreover have "32 \<le> n \<Longrightarrow> \<not> bit w n" using word_bit_bound [of w n] by auto
  ultimately show "n \<in> ?L \<longleftrightarrow> n \<in> ?R" by (cases "n < 32") auto
qed

lemma finite_bit_at [simp]: "finite {n. bit_at ws n}"
  using finite_members [of "Some ws"] by (simp add: members_def)

lemma card_bit_at_Cons: "card {n. bit_at (w # ws) n} = card {n. bit w n} + card {n. bit_at ws n}"
  unfolding bit_at_Cons_set
  by (subst card_Un_disjoint) (auto simp: card_image dest: word_bit_bound)

lemma num_members_eq: "bms_num_members a = card (members a)"
proof (cases a)
  case (Some ws)
  have "foldl (\<lambda>result w. count_ones w result) c ws = c + card {n. bit_at ws n}" for c
    by (induction ws arbitrary: c) (simp_all add: count_ones_eq card_bit_at_Cons del: bit_at_Cons)
  then show ?thesis by (simp add: Some bms_num_members_def members_def)
qed (simp add: bms_num_members_def)

lemma word_bits_empty: "card {n. bit (w :: bitmapword) n} = 0 \<longleftrightarrow> w = 0"
  by (auto intro!: bit_word_eqI)

lemma HAS_MULTIPLE_ONES_iff: "HAS_MULTIPLE_ONES w \<longleftrightarrow> 2 \<le> card {n. bit w n}"
proof (cases "w = 0")
  case True
  then show ?thesis by (simp add: HAS_MULTIPLE_ONES_def RIGHTMOST_ONE_def)
next
  case False
  then obtain n where n: "least_bit (bit w) n" "n < 32" using word_least_bit by blast
  then have 1: "n \<in> {n. bit w n}" by (simp add: least_bit_def)
  have "card {n. bit w n} < 2 \<longleftrightarrow> card {n. bit w n} \<le> Suc 0" by auto
  also have "\<dots> \<longleftrightarrow> (\<forall>m. bit w m \<longrightarrow> m = n)" using 1 by (subst card_le_Suc0_iff_eq) auto
  also have "\<dots> \<longleftrightarrow> w = push_bit n 1" using 1 n
    by (auto simp: word_eq_bits push_bit_1_bit dest: word_bit_bound)
  finally show ?thesis using RIGHTMOST_ONE_eq [OF n(1)] by (auto simp: HAS_MULTIPLE_ONES_def not_less)
qed

definition membership_of :: "nat \<Rightarrow> BMS_Membership" where
  "membership_of n = (if n = 0 then BMS_EMPTY_SET else if n = 1 then BMS_SINGLETON else BMS_MULTIPLE)"

lemma membership_loop_eq:
  "c \<le> 1 \<Longrightarrow> membership_loop (membership_of c) ws = membership_of (c + card {n. bit_at ws n})"
proof (induction ws arbitrary: c)
  case (Cons w ws)
  let ?n = "card {n. bit w n}"
  consider "w = 0" | "?n = 1" "w \<noteq> 0" | "2 \<le> ?n" "w \<noteq> 0" using word_bits_empty [of w] by fastforce
  then show ?case
  proof cases
    case 1
    then show ?thesis using Cons by (simp add: card_bit_at_Cons del: bit_at_Cons)
  next
    case 2
    then show ?thesis using Cons.IH [of 1] Cons.prems
      by (auto simp: card_bit_at_Cons membership_of_def HAS_MULTIPLE_ONES_iff simp del: bit_at_Cons)
  next
    case 3
    then have "2 \<le> c + card {n. bit_at (w # ws) n}" by (simp add: card_bit_at_Cons del: bit_at_Cons)
    then have "membership_of (c + card {n. bit_at (w # ws) n}) = BMS_MULTIPLE"
      by (auto simp: membership_of_def simp del: bit_at_Cons)
    with 3 show ?thesis by (simp add: HAS_MULTIPLE_ONES_iff del: bit_at_Cons)
  qed
qed simp

lemma membership_eq: "bms_membership a = membership_of (card (members a))"
proof (cases a)
  case (Some ws)
  have "BMS_EMPTY_SET = membership_of 0" by (simp add: membership_of_def)
  then show ?thesis using membership_loop_eq [of 0 ws] by (simp add: Some bms_membership_def members_def)
qed (simp add: bms_membership_def membership_of_def)

lemma singleton_loop_nonneg:
  "0 \<le> r \<Longrightarrow> singleton_loop k r ws = (if card {n. bit_at ws n} = 0 then Some r else None)"
proof (induction ws arbitrary: k)
  case (Cons w ws)
  then show ?case
    using word_bits_empty [of w] by (auto simp: card_bit_at_Cons simp del: bit_at_Cons card_0_eq)
qed simp

lemma singleton_loop_eq:
  "singleton_loop k (- 1) ws =
     (if card {n. bit_at ws n} = 0 then Some (- 1)
      else if card {n. bit_at ws n} = 1 then Some (int (32 * k + (THE n. bit_at ws n)))
      else None)"
proof (induction ws arbitrary: k)
  case (Cons w ws)
  let ?n = "card {n. bit w n}"
  consider "w = 0" | "?n = 1" "w \<noteq> 0" | "2 \<le> ?n" "w \<noteq> 0" using word_bits_empty [of w] by fastforce
  then show ?case
  proof cases
    case 1
    have "(THE n. bit_at (0 # ws) n) = 32 + (THE n. bit_at ws n)" if "card {n. bit_at ws n} = 1"
    proof -
      from that obtain m where m: "{n. bit_at ws n} = {m}" by (auto simp: card_1_singleton_iff)
      then have "{n. bit_at (0 # ws) n} = {32 + m}" by (simp add: bit_at_Cons_set del: bit_at_Cons)
      with m show ?thesis by (metis (mono_tags) mem_Collect_eq singleton_iff the_equality)
    qed
    with 1 Cons show ?thesis by (auto simp: card_bit_at_Cons simp del: bit_at_Cons)
  next
    case 2
    then obtain m where m: "least_bit (bit w) m" "m < 32" using word_least_bit by blast
    with 2 have w: "{n. bit w n} = {m}" by (auto simp: card_1_singleton_iff least_bit_def dest: Collect_singletonD)
    have "(THE n. bit_at (w # ws) n) = m" if "card {n. bit_at ws n} = 0"
    proof -
      from that have "{n. bit_at ws n} = {}" by (simp only: card_0_eq finite_bit_at)
      then have "{n. bit_at (w # ws) n} = {m}" by (simp add: bit_at_Cons_set w del: bit_at_Cons)
      then show ?thesis by (metis (mono_tags) mem_Collect_eq singleton_iff the_equality)
    qed
    moreover have "\<not> HAS_MULTIPLE_ONES w" using 2 by (simp add: HAS_MULTIPLE_ONES_iff)
    ultimately show ?thesis using 2 scan_rightmost_eq [OF m(1)]
      by (auto simp: card_bit_at_Cons singleton_loop_nonneg simp del: bit_at_Cons card_0_eq)
  next
    case 3
    then show ?thesis
      by (auto simp: HAS_MULTIPLE_ONES_iff card_bit_at_Cons simp del: bit_at_Cons card_0_eq)
  qed
qed simp

lemma singleton_member_eq:
  "bms_singleton_member a =
     (if members a = {} then Inl (Elog ''bitmapset is empty'')
      else if card (members a) = 1 then Inr (int (THE n. n \<in> members a))
      else Inl (Elog ''bitmapset has multiple members''))"
proof (cases a)
  case (Some ws)
  have "card (members a) = card {n. bit_at ws n}" by (simp add: Some members_def)
  then show ?thesis
    by (auto simp: Some bms_singleton_member_def singleton_loop_eq members_def split: option.splits)
qed (simp add: bms_singleton_member_def)

lemma get_singleton_member_eq:
  "bms_get_singleton_member a m =
     (if card (members a) = 1 then (True, int (THE n. n \<in> members a)) else (False, m))"
  by (cases a) (auto simp: bms_get_singleton_member_def singleton_loop_eq members_def dest: card_Collect_1D)

subsection \<open>Iterating over the members\<close>

lemma least_bit_Cons_0:
  assumes "least_bit (bit_at (0 # ws)) n"
  shows "32 \<le> n \<and> least_bit (bit_at ws) (n - 32)"
proof (intro conjI)
  show "32 \<le> n" using assms by (auto simp: least_bit_def split: if_splits)
  then have "bit_at ws (n - 32)" using assms by (simp add: least_bit_def)
  moreover have "\<forall>j < n - 32. \<not> bit_at ws j"
  proof (intro allI impI)
    fix j
    assume "j < n - 32"
    then have "\<not> bit_at (0 # ws) (j + 32)" using assms by (simp add: least_bit_def del: bit_at_Cons)
    then show "\<not> bit_at ws j" by simp
  qed
  ultimately show "least_bit (bit_at ws) (n - 32)" by (simp add: least_bit_def)
qed

lemma next_member_loop_found:
  "least_bit (bit_at ws) n \<Longrightarrow> next_member_loop k (NOT 0) ws = int (32 * k + n)"
proof (induction ws arbitrary: k n)
  case (Cons w ws)
  show ?case
  proof (cases "w = 0")
    case True
    with Cons.prems have "32 \<le> n" "least_bit (bit_at ws) (n - 32)"
      using least_bit_Cons_0 [of ws n] by (simp_all del: bit_at_Cons)
    then show ?thesis using Cons.IH [of "n - 32" "k + 1"] True by simp
  next
    case False
    then obtain m where m: "least_bit (bit w) m" "m < 32" using word_least_bit by blast
    then have "least_bit (bit_at (w # ws)) m" by (auto simp: least_bit_def)
    with Cons.prems have "m = n" by (blast intro: least_bit_unique)
    with m False show ?thesis by (simp add: scan_rightmost_eq)
  qed
qed (simp add: least_bit_def)

lemma next_member_loop_none: "\<forall>n. \<not> bit_at ws n \<Longrightarrow> next_member_loop k (NOT 0) ws = - 2"
proof (induction ws arbitrary: k)
  case (Cons w ws)
  then have "\<forall>n < 32. \<not> bit w n" "\<forall>n. \<not> bit_at ws n"
    using all_bit_at_Cons_Nil [of "\<lambda>x. \<not> x" w ws] by auto
  with Cons.IH show ?case by (simp add: word_eq_0_bits [symmetric])
qed simp

lemma bit_at_drop: "bit_at (drop k ws) n \<longleftrightarrow> bit_at ws (32 * k + n)"
  by (auto simp: bit_at_def less_diff_conv add.commute)

text \<open>Masking the first word away below a bit position hides exactly the members below it.\<close>

definition mask_first :: "bitmapword \<Rightarrow> Bitmapset \<Rightarrow> Bitmapset" where
  "mask_first m ws = (case ws of [] \<Rightarrow> [] | w # rest \<Rightarrow> (w AND m) # rest)"

lemma next_member_loop_mask: "next_member_loop k m ws = next_member_loop k (NOT 0) (mask_first m ws)"
  by (cases ws) (simp_all add: mask_first_def)

lemma bit_at_mask_first:
  "b < 32 \<Longrightarrow> bit_at (mask_first (NOT (mask b)) ws) n \<longleftrightarrow> b \<le> n \<and> bit_at ws n"
  by (cases ws) (auto simp: mask_first_def bit_simps)

lemma next_member_words:
  assumes "- 1 \<le> prevbit"
  shows "least_bit (\<lambda>m. prevbit < int m \<and> bit_at ws m) n \<Longrightarrow> bms_next_member (Some ws) prevbit = int n"
    and "\<forall>m. \<not> (prevbit < int m \<and> bit_at ws m) \<Longrightarrow> bms_next_member (Some ws) prevbit = - 2"
proof -
  define p where "p = nat (prevbit + 1)"
  define vs where "vs = mask_first (push_bit (p mod 32) (NOT 0)) (drop (p div 32) ws)"
  have lt: "prevbit < int m \<longleftrightarrow> p \<le> m" for m using assms by (auto simp: p_def)
  have bit: "bit_at vs n \<longleftrightarrow> p \<le> 32 * (p div 32) + n \<and> bit_at ws (32 * (p div 32) + n)" for n
  proof -
    have "p \<le> 32 * (p div 32) + n \<longleftrightarrow> p mod 32 \<le> n" using mult_div_mod_eq [of 32 p] by linarith
    then show ?thesis by (simp add: vs_def bit_at_mask_first bit_at_drop)
  qed
  have loop: "bms_next_member (Some ws) prevbit = next_member_loop (p div 32) (NOT 0) vs"
    by (simp only: bms_next_member_def option.case Let_def p_def WORDNUM_def BITNUM_def vs_def
        next_member_loop_mask [of _ "push_bit b (NOT 0)" for b])
  show "bms_next_member (Some ws) prevbit = int n" if n: "least_bit (\<lambda>m. prevbit < int m \<and> bit_at ws m) n"
  proof -
    have le: "32 * (p div 32) \<le> n" using n times_div_less_eq_dividend [of 32 p] by (auto simp: least_bit_def lt)
    then have "least_bit (bit_at vs) (n - 32 * (p div 32))"
      using n by (auto simp: least_bit_def bit lt)
    then have "next_member_loop (p div 32) (NOT 0) vs = int (32 * (p div 32) + (n - 32 * (p div 32)))"
      by (rule next_member_loop_found)
    then show ?thesis using le by (simp only: loop le_add_diff_inverse)
  qed
  show "bms_next_member (Some ws) prevbit = - 2" if "\<forall>m. \<not> (prevbit < int m \<and> bit_at ws m)"
    unfolding loop using that by (intro next_member_loop_none) (simp add: bit lt)
qed

lemma least_bit_Min:
  assumes "finite {n. P n}" "P m"
  shows "least_bit P (Min {n. P n})"
proof -
  from assms obtain k where k: "least_bit P k" using least_bit_exists by blast
  then have "Min {n. P n} = k"
    using assms by (intro Min_eqI) (auto simp: least_bit_def not_less [symmetric])
  with k show ?thesis by simp
qed

lemma next_member_eq:
  assumes "- 1 \<le> prevbit"
  shows "bms_next_member a prevbit =
    (if \<exists>m \<in> members a. prevbit < int m then int (Min {m \<in> members a. prevbit < int m}) else - 2)"
proof (cases a)
  case None
  then show ?thesis by (simp add: bms_next_member_def)
next
  case (Some ws)
  let ?P = "\<lambda>m. prevbit < int m \<and> bit_at ws m"
  have eq: "{m \<in> members a. prevbit < int m} = {m. ?P m}" by (auto simp: Some)
  have fin: "finite {m. ?P m}" by (rule finite_subset [OF _ finite_bit_at [of ws]]) auto
  show ?thesis
  proof (cases "\<exists>m. ?P m")
    case True
    then have "least_bit ?P (Min {m. ?P m})" using least_bit_Min [OF fin] by blast
    with assms True show ?thesis unfolding eq using Some by (auto simp: next_member_words)
  next
    case False
    with assms show ?thesis using Some by (auto simp: next_member_words)
  qed
qed

text \<open>
  The iteration idiom \<^verbatim>\<open>x = -1; while ((x = bms_next_member(a, x)) >= 0) process x;\<close>.
  Each round moves to a larger member, so the loop ends.
\<close>

lemma next_member_in:
  assumes "- 1 \<le> prevbit" "0 \<le> bms_next_member a prevbit"
  shows "nat (bms_next_member a prevbit) \<in> members a \<and> prevbit < bms_next_member a prevbit"
proof -
  let ?S = "{m \<in> members a. prevbit < int m}"
  from assms have "?S \<noteq> {}" and eq: "bms_next_member a prevbit = int (Min ?S)"
    by (auto simp: next_member_eq split: if_splits)
  moreover have "finite ?S" by (rule finite_subset [OF _ finite_members [of a]]) auto
  ultimately have "Min ?S \<in> ?S" using Min_in by blast
  then show ?thesis unfolding eq by simp
qed

lemma next_member_bounds:
  assumes "0 \<le> bms_next_member (Some ws) prevbit"
  shows "prevbit < bms_next_member (Some ws) prevbit \<and> bms_next_member (Some ws) prevbit < int (32 * nwords ws)"
proof (cases "- 1 \<le> prevbit")
  case True
  with next_member_in [OF True assms] assms show ?thesis by (auto dest!: bit_at_bound)
next
  case False
  then have "bms_next_member (Some ws) prevbit = bms_next_member (Some ws) (- 1)"
    by (simp add: bms_next_member_def WORDNUM_def BITNUM_def)
  with next_member_in [of "- 1" "Some ws"] assms False show ?thesis by (auto dest!: bit_at_bound)
qed

function bms_next_iteration :: "Bitmapset option \<Rightarrow> int \<Rightarrow> int list" where
  "bms_next_iteration a x =
     (let y = bms_next_member a x in if y \<ge> 0 then y # bms_next_iteration a y else [])"
  by pat_completeness auto
termination
proof (relation "measure (\<lambda>(a, x). nat (32 * int (length (the a)) - x))")
  fix a x y
  assume y: "y = bms_next_member a x" "y \<ge> 0"
  then obtain ws where "a = Some ws" by (cases a) (auto simp: bms_next_member_def)
  with y next_member_bounds [of ws x]
  show "((a, y), a, x) \<in> measure (\<lambda>(a, x). nat (32 * int (length (the a)) - x))" by simp
qed simp

declare bms_next_iteration.simps [simp del]

lemma sorted_list_of_set_Min:
  "finite S \<Longrightarrow> S \<noteq> {} \<Longrightarrow> sorted_list_of_set S = Min S # sorted_list_of_set (S - {Min S})"
  by (rule sorted_list_of_set_nonempty)

lemma next_iteration_eq:
  "- 1 \<le> x \<Longrightarrow> bms_next_iteration a x = map int (sorted_list_of_set {m \<in> members a. x < int m})"
proof (induction a x rule: bms_next_iteration.induct)
  case (1 a x)
  let ?S = "{m \<in> members a. x < int m}"
  have fin: "finite ?S" by (rule finite_subset [OF _ finite_members [of a]]) auto
  show ?case
  proof (cases "?S = {}")
    case True
    then have "bms_next_member a x = - 2" using "1.prems" by (auto simp: next_member_eq)
    with True show ?thesis by (subst bms_next_iteration.simps) simp
  next
    case False
    then have y: "bms_next_member a x = int (Min ?S)" using "1.prems" by (auto simp: next_member_eq)
    have "?S - {Min ?S} = {m \<in> members a. int (Min ?S) < int m}"
      using Min_in [OF fin False] Min_le [OF fin] by (auto simp: le_less)
    then show ?thesis
      using 1 fin False by (subst bms_next_iteration.simps) (simp add: y sorted_list_of_set_Min)
  qed
qed

lemma next_iteration_members: "bms_next_iteration a (- 1) = map int (sorted_list_of_set (members a))"
proof -
  have "{m \<in> members a. - 1 < int m} = members a" by auto
  then show ?thesis by (simp add: next_iteration_eq)
qed

text \<open>The destructive idiom: find and remove the first member until none is left.\<close>

lemma first_member_loop_found:
  assumes "least_bit (bit_at ws) n"
  shows "\<exists>ws'. first_member_loop k ws = (int (32 * k + n), ws') \<and> (\<forall>m. bit_at ws' m \<longleftrightarrow> m \<noteq> n \<and> bit_at ws m)"
  using assms
proof (induction ws arbitrary: k n)
  case (Cons w ws)
  show ?case
  proof (cases "w = 0")
    case True
    with Cons.prems have "32 \<le> n" "least_bit (bit_at ws) (n - 32)"
      using least_bit_Cons_0 [of ws n] by (simp_all del: bit_at_Cons)
    with Cons.IH [of "n - 32" "k + 1"] obtain ws' where
      "first_member_loop (k + 1) ws = (int (32 * (k + 1) + (n - 32)), ws')"
      and ws': "\<forall>m. bit_at ws' m \<longleftrightarrow> m \<noteq> n - 32 \<and> bit_at ws m" by blast
    with \<open>32 \<le> n\<close> True have "first_member_loop k (w # ws) = (int (32 * k + n), 0 # ws')" by simp
    moreover have "bit_at (0 # ws') m \<longleftrightarrow> m \<noteq> n \<and> bit_at (0 # ws) m" for m
      using ws' [rule_format, of "m - 32"] \<open>32 \<le> n\<close> by (cases "m < 32") auto
    ultimately show ?thesis unfolding True by (intro exI conjI allI)
  next
    case False
    then obtain m where m: "least_bit (bit w) m" "m < 32" using word_least_bit by blast
    then have "least_bit (bit_at (w # ws)) m" by (auto simp: least_bit_def)
    with Cons.prems have mn: "m = n" by (blast intro: least_bit_unique)
    have "least_bit (bit (push_bit m 1 :: bitmapword)) m"
      using m by (auto simp: least_bit_def push_bit_1_bit)
    then have "first_member_loop k (w # ws) = (int (32 * k + m), (w AND NOT (push_bit m 1)) # ws)"
      using False by (simp add: RIGHTMOST_ONE_eq [OF m(1)] scan_rightmost_eq)
    moreover have "bit_at ((w AND NOT (push_bit m 1)) # ws) j \<longleftrightarrow> j \<noteq> m \<and> bit_at (w # ws) j" for j
      using m(2) by (auto simp: bit_and_iff bit_not_iff push_bit_1_bit)
    ultimately show ?thesis unfolding mn by (intro exI conjI allI)
  qed
qed (simp add: least_bit_def)

lemma first_member_loop_none: "\<forall>n. \<not> bit_at ws n \<Longrightarrow> first_member_loop k ws = (- 1, ws)"
proof (induction ws arbitrary: k)
  case (Cons w ws)
  then have "\<forall>n < 32. \<not> bit w n" "\<forall>n. \<not> bit_at ws n"
    using all_bit_at_Cons_Nil [of "\<lambda>x. \<not> x" w ws] by auto
  with Cons.IH show ?case by (simp add: word_eq_0_bits [symmetric])
qed simp

lemma first_member_eq:
  "fst (bms_first_member a) = (if members a = {} then - 1 else int (Min (members a)))"
  "members (snd (bms_first_member a)) = (if members a = {} then {} else members a - {Min (members a)})"
proof -
  consider "a = None" | ws where "a = Some ws" "\<forall>n. \<not> bit_at ws n"
    | ws m where "a = Some ws" "bit_at ws m" by (cases a) auto
  then have "fst (bms_first_member a) = (if members a = {} then - 1 else int (Min (members a))) \<and>
    members (snd (bms_first_member a)) = (if members a = {} then {} else members a - {Min (members a)})"
  proof cases
    case (3 ws m)
    then have "least_bit (bit_at ws) (Min {n. bit_at ws n})" by (intro least_bit_Min) auto
    then obtain ws' where "first_member_loop 0 ws = (int (Min {n. bit_at ws n}), ws')"
      "\<forall>m. bit_at ws' m \<longleftrightarrow> m \<noteq> Min {n. bit_at ws n} \<and> bit_at ws m"
      using first_member_loop_found [of ws _ 0] by auto
    then show ?thesis using 3 by (auto simp: bms_first_member_def members_def)
  qed (auto simp: bms_first_member_def first_member_loop_none members_def)
  then show "fst (bms_first_member a) = (if members a = {} then - 1 else int (Min (members a)))"
    "members (snd (bms_first_member a)) = (if members a = {} then {} else members a - {Min (members a)})"
    by auto
qed

function bms_first_iteration :: "Bitmapset option \<Rightarrow> int list" where
  "bms_first_iteration a =
     (let (x, a') = bms_first_member a in if x \<ge> 0 then x # bms_first_iteration a' else [])"
  by pat_completeness auto
termination
proof (relation "measure (\<lambda>a. card (members a))")
  fix a xy and x :: int and a'
  assume "xy = bms_first_member a" "(x, a') = xy" "x \<ge> 0"
  then have "bms_first_member a = (x, a')" "x \<ge> 0" by simp_all
  with first_member_eq [of a] have ne: "members a \<noteq> {}" and rest: "members a' = members a - {Min (members a)}"
    by (simp_all split: if_splits)
  have "Min (members a) \<in> members a" using ne by (intro Min_in) simp_all
  then have "card (members a') < card (members a)" unfolding rest by (intro card_Diff1_less) simp_all
  then show "(a', a) \<in> measure (\<lambda>a. card (members a))" by simp
qed simp

declare bms_first_iteration.simps [simp del]

lemma first_iteration_members: "bms_first_iteration a = map int (sorted_list_of_set (members a))"
proof (induction a rule: bms_first_iteration.induct)
  case (1 a)
  obtain x a' where eq: "bms_first_member a = (x, a')" by fastforce
  show ?case
  proof (cases "members a = {}")
    case True
    with first_member_eq(1) [of a] eq have "x = - 1" by simp
    with True eq show ?thesis by (subst bms_first_iteration.simps) simp
  next
    case False
    with first_member_eq [of a] eq have "x = int (Min (members a))" "members a' = members a - {Min (members a)}"
      by simp_all
    with 1 eq False show ?thesis
      by (subst bms_first_iteration.simps) (simp add: sorted_list_of_set_Min)
  qed
qed

subsection \<open>Hash keys\<close>

definition strip_zeros :: "Bitmapset \<Rightarrow> Bitmapset" where
  "strip_zeros ws = take (lastword_loop ws (nwords ws)) ws"

lemma lastword_loop_props:
  "lastword_loop ws n \<le> n \<and> (lastword_loop ws n \<noteq> 0 \<longrightarrow> ws ! (lastword_loop ws n - 1) \<noteq> 0) \<and>
     (\<forall>i. lastword_loop ws n \<le> i \<and> i < n \<longrightarrow> ws ! i = 0)"
  by (induction n) (auto simp: le_Suc_eq less_Suc_eq)

lemma bit_at_strip_zeros: "bit_at (strip_zeros ws) n \<longleftrightarrow> bit_at ws n"
proof (cases "n div 32 < lastword_loop ws (nwords ws)")
  case True
  then show ?thesis by (simp add: strip_zeros_def bit_at_def)
next
  case False
  then have "n div 32 < nwords ws \<Longrightarrow> ws ! (n div 32) = 0"
    using lastword_loop_props [of ws "nwords ws"] by simp
  with False show ?thesis by (auto simp: strip_zeros_def bit_at_def)
qed

lemma strip_zeros_last: "strip_zeros ws \<noteq> [] \<Longrightarrow> last (strip_zeros ws) \<noteq> 0"
  using lastword_loop_props [of ws "nwords ws"] by (auto simp: strip_zeros_def last_conv_nth min_def)

lemma bit_at_nth: "i < nwords ws \<Longrightarrow> b < 32 \<Longrightarrow> bit (ws ! i) b \<longleftrightarrow> bit_at ws (32 * i + b)"
  by (simp add: bit_at_def)

lemma words_length_le:
  assumes "\<forall>n. bit_at vs n \<longleftrightarrow> bit_at ws n" "vs \<noteq> [] \<Longrightarrow> last vs \<noteq> 0"
  shows "nwords vs \<le> nwords ws"
proof (rule ccontr)
  assume "\<not> nwords vs \<le> nwords ws"
  then have ne: "vs \<noteq> []" and le: "nwords ws \<le> nwords vs - 1" by auto
  with assms obtain b where b: "b < 32" "bit (last vs) b" by (auto simp: word_eq_0_bits)
  then have "bit_at vs (32 * (nwords vs - 1) + b)" using ne by (simp add: last_conv_nth bit_at_def)
  then have "bit_at ws (32 * (nwords vs - 1) + b)" using assms by simp
  then show False using bit_at_bound le by fastforce
qed

lemma words_unique:
  assumes "\<forall>n. bit_at vs n \<longleftrightarrow> bit_at ws n" "vs \<noteq> [] \<Longrightarrow> last vs \<noteq> 0" "ws \<noteq> [] \<Longrightarrow> last ws \<noteq> 0"
  shows "vs = ws"
proof (rule nth_equalityI)
  show len: "nwords vs = nwords ws" using words_length_le [of vs ws] words_length_le [of ws vs] assms by auto
  fix i
  assume "i < nwords vs"
  then show "vs ! i = ws ! i" using len assms(1) by (auto simp: word_eq_bits bit_at_nth)
qed

lemma hash_value_strip:
  "bms_hash_value be a =
     (case a of None \<Rightarrow> 0
      | Some ws \<Rightarrow> if strip_zeros ws = [] then 0 else hash_any be True (concat (map (store32 be) (strip_zeros ws))))"
  by (auto simp: bms_hash_value_def strip_zeros_def split: option.split nat.split)

lemma hash_value_members:
  assumes "members a = members b"
  shows "bms_hash_value be a = bms_hash_value be b"
proof -
  define w where "w = (\<lambda>x :: Bitmapset option. case x of None \<Rightarrow> [] | Some ws \<Rightarrow> strip_zeros ws)"
  have h: "bms_hash_value be x = (if w x = [] then 0 else hash_any be True (concat (map (store32 be) (w x))))" for x
    by (auto simp: hash_value_strip w_def split: option.split)
  have bits: "bit_at (w x) n \<longleftrightarrow> n \<in> members x" for x n
    by (cases x) (auto simp: w_def bit_at_strip_zeros)
  have last: "w x \<noteq> [] \<Longrightarrow> last (w x) \<noteq> 0" for x
    by (cases x) (auto simp: w_def strip_zeros_last)
  have "w a = w b" using assms by (intro words_unique) (auto simp: bits last)
  then show ?thesis by (simp add: h)
qed

subsection \<open>The contract the planner relies on\<close>

text \<open>
  What path generation uses of sets of relation ids: a comparison that reports both inclusions at
  once, a subset test and an equality test, over an abstraction to sets of ids.
\<close>

locale relids_compare =
  fixes ids :: "'r \<Rightarrow> nat set"
    and compare :: "'r \<Rightarrow> 'r \<Rightarrow> BMS_Comparison"
    and subset :: "'r \<Rightarrow> 'r \<Rightarrow> bool"
    and same :: "'r \<Rightarrow> 'r \<Rightarrow> bool"
  assumes compare_ids: "compare a b = comparison_of (ids a \<subseteq> ids b) (ids b \<subseteq> ids a)"
    and subset_ids: "subset a b \<longleftrightarrow> ids a \<subseteq> ids b"
    and same_ids: "same a b \<longleftrightarrow> ids a = ids b"
begin

lemma compare_cases:
  "compare a b = BMS_EQUAL \<longleftrightarrow> ids a = ids b"
  "compare a b = BMS_SUBSET1 \<longleftrightarrow> ids a \<subset> ids b"
  "compare a b = BMS_SUBSET2 \<longleftrightarrow> ids b \<subset> ids a"
  "compare a b = BMS_DIFFERENT \<longleftrightarrow> \<not> ids a \<subseteq> ids b \<and> \<not> ids b \<subseteq> ids a"
  by (auto simp: compare_ids comparison_of_def)

lemma compare_refl: "compare a a = BMS_EQUAL"
  by (simp add: compare_cases)

lemma compare_swap:
  "compare b a = (case compare a b of BMS_SUBSET1 \<Rightarrow> BMS_SUBSET2 | BMS_SUBSET2 \<Rightarrow> BMS_SUBSET1 | c \<Rightarrow> c)"
  by (simp add: compare_ids comparison_of_def)

lemma same_iff_compare: "same a b \<longleftrightarrow> compare a b = BMS_EQUAL"
  by (simp add: same_ids compare_cases)

end

interpretation relids: relids_compare members bms_subset_compare bms_is_subset bms_equal
  by unfold_locales (simp_all add: subset_compare_eq bms_simps)

subsection \<open>Properties\<close>

text \<open>C33: copy, union, intersection, difference, join and the three recycling variants compute the set operations their comments
  name, for NULL pointers and for inputs of any lengths.\<close>

theorem bms_set_algebra:
  "members (bms_union a b) = members a \<union> members b \<and>
   members (bms_intersect a b) = members a \<inter> members b \<and>
   members (bms_difference a b) = members a - members b \<and>
   members (bms_add_members a b) = members a \<union> members b \<and>
   members (bms_int_members a b) = members a \<inter> members b \<and>
   members (bms_del_members a b) = members a - members b \<and>
   members (bms_join a b) = members a \<union> members b \<and>
   members (bms_copy a) = members a"
  by (simp add: bms_simps)

text \<open>C32: the comparisons agree with set theory: \<^verbatim>\<open>bms_subset_compare\<close> returns EQUAL,
  SUBSET1, SUBSET2 or DIFFERENT exactly according to the two inclusions, and the Boolean tests
  decide equality, inclusion, overlap, non-inclusion and emptiness.\<close>

theorem bms_comparisons:
  "bms_subset_compare a b =
     (if members a = members b then BMS_EQUAL
      else if members a \<subseteq> members b then BMS_SUBSET1
      else if members b \<subseteq> members a then BMS_SUBSET2
      else BMS_DIFFERENT) \<and>
   (bms_equal a b \<longleftrightarrow> members a = members b) \<and>
   (bms_is_subset a b \<longleftrightarrow> members a \<subseteq> members b) \<and>
   (bms_overlap a b \<longleftrightarrow> members a \<inter> members b \<noteq> {}) \<and>
   (bms_nonempty_difference a b \<longleftrightarrow> members a - members b \<noteq> {}) \<and>
   (bms_is_empty a \<longleftrightarrow> members a = {})"
  by (auto simp: subset_compare_eq comparison_of_def bms_simps)

text \<open>For a non-negative integer, adding makes it a member and nothing else changes, deleting
  removes exactly it, and the membership test answers membership; for a negative one each of these
  operations raises the error.\<close>

lemma bms_single_member_ops:
  "(x < 0 \<longrightarrow>
      bms_add_member a x = Inl (Elog ''negative bitmapset member not allowed'') \<and>
      bms_del_member a x = Inl (Elog ''negative bitmapset member not allowed'') \<and>
      bms_is_member x a = Inl (Elog ''negative bitmapset member not allowed'') \<and>
      bms_make_singleton x = Inl (Elog ''negative bitmapset member not allowed'')) \<and>
   (0 \<le> x \<longrightarrow>
      (\<exists>b. bms_add_member a x = Inr b \<and> members b = insert (nat x) (members a)) \<and>
      (\<exists>b. bms_del_member a x = Inr b \<and> members b = members a - {nat x}) \<and>
      bms_is_member x a = Inr (nat x \<in> members a) \<and>
      (\<exists>b. bms_make_singleton x = Inr b \<and> members b = {nat x}))"
proof (cases "x < 0")
  case True
  then show ?thesis
    by (simp add: bms_add_member_def bms_del_member_def bms_is_member_def bms_make_singleton_def)
next
  case False
  then have "0 \<le> x" by simp
  with add_member_members [of x a] del_member_members [of x a] is_member_eq [of x a] make_singleton_members [of x]
  show ?thesis by auto
qed

text \<open>C34: the two documented iteration idioms, repeated \<^verbatim>\<open>bms_next_member\<close> from -1 and repeated
  \<^verbatim>\<open>bms_first_member\<close>, terminate and visit every member exactly once, in increasing order.\<close>

theorem bms_iterations_enumerate:
  "bms_next_iteration a (- 1) = map int (sorted_list_of_set (members a)) \<and>
   bms_first_iteration a = map int (sorted_list_of_set (members a))"
  by (simp add: next_iteration_members first_iteration_members)

text \<open>\<^verbatim>\<open>bms_next_member\<close> returns the smallest member greater than its argument, or -2 if
  there is none.\<close>

lemma bms_next_member_least:
  assumes "- 1 \<le> prevbit"
  shows "bms_next_member a prevbit =
    (if {m \<in> members a. prevbit < int m} = {} then - 2 else int (Min {m \<in> members a. prevbit < int m}))"
  using next_member_eq [OF assms, of a] by auto

text \<open>The counting operations: the number of members, the three-way membership class, and the
  sole member with the two errors raised otherwise.\<close>

lemma bms_counting:
  "bms_num_members a = card (members a) \<and>
   bms_membership a =
     (if card (members a) = 0 then BMS_EMPTY_SET
      else if card (members a) = 1 then BMS_SINGLETON else BMS_MULTIPLE) \<and>
   bms_singleton_member a =
     (if card (members a) = 0 then Inl (Elog ''bitmapset is empty'')
      else if card (members a) = 1 then Inr (int (Min (members a)))
      else Inl (Elog ''bitmapset has multiple members''))"
proof -
  have "(THE n. n \<in> members a) = Min (members a)" if "card (members a) = 1"
    using that by (auto simp: card_1_singleton_iff)
  then show ?thesis
    by (simp add: num_members_eq membership_eq membership_of_def singleton_member_eq)
qed

text \<open>Two sets that are \<^verbatim>\<open>bms_equal\<close> have the same hash key, whatever their numbers of
  trailing zero words, on machines of either byte order.\<close>

lemma bms_hash_respects_equal:
  assumes "bms_equal a b"
  shows "bms_hash_value be a = bms_hash_value be b"
  using assms by (intro hash_value_members) (simp add: bms_simps)

end
