(* ===== verification/PathCost.thy ===== *)
theory PathCost
  imports Bitmapset
begin

text \<open>
  Paths and relations of the planner (\<^verbatim>\<open>src/include/nodes/relation.h\<close>) and the comparisons of
  two paths: by cost, exactly and fuzzily, by the exploration value the exploratory optimizer adds,
  and by sort order (\<^verbatim>\<open>src/backend/optimizer/util/pathnode.c\<close>,
  \<^verbatim>\<open>src/backend/optimizer/path/pathkeys.c\<close>).

  A path carries the fields path generation reads; \<open>path_addr\<close> is the address of the node,
  \<open>is_IndexPath\<close> its node tag test, and the two flags of the parent relation that the cost comparison
  reads through \<^verbatim>\<open>parent\<close> are fields of the path (they are set when the relation is built,
  before any path of it exists). Path keys are canonical, so a key is its address and a list of keys
  is compared key by key; the test that the two list pointers are the same only anticipates what the
  loop returns on equal lists.
\<close>

record ParamPathInfo =
  ppi_req_outer :: "Bitmapset option"
  ppi_rows :: real

record Path =
  path_addr :: address
  is_IndexPath :: bool
  parent_consider_startup :: bool
  parent_consider_param_startup :: bool
  param_info :: "ParamPathInfo option"
  parallel_safe :: bool
  rows :: real
  startup_cost :: cost
  total_cost :: cost
  pathkeys :: "address list"
  explore_value :: real

record RelOptInfo =
  consider_startup :: bool
  consider_param_startup :: bool
  pathlist :: "Path list"
  partial_pathlist :: "Path list"
  cheapest_startup_path :: "Path option"
  cheapest_total_path :: "Path option"
  cheapest_unique_path :: "Path option"
  cheapest_parameterized_paths :: "Path list"
  cheapest_cost_explore_pathlist :: "Path list"
  best_cost :: real

datatype PathCostComparison = COSTS_EQUAL | COSTS_BETTER1 | COSTS_BETTER2 | COSTS_DIFFERENT
datatype PathKeysComparison = PATHKEYS_EQUAL | PATHKEYS_BETTER1 | PATHKEYS_BETTER2 | PATHKEYS_DIFFERENT
datatype CostSelector = STARTUP_COST | TOTAL_COST

definition PATH_REQ_OUTER :: "Path \<Rightarrow> Bitmapset option" where
  "PATH_REQ_OUTER p = (case param_info p of None \<Rightarrow> None | Some ppi \<Rightarrow> ppi_req_outer ppi)"

definition STD_FUZZ_FACTOR :: real where "STD_FUZZ_FACTOR = 101 / 100"

definition compare_path_costs :: "Path \<Rightarrow> Path \<Rightarrow> CostSelector \<Rightarrow> int" where
  "compare_path_costs path1 path2 criterion =
     (if criterion = STARTUP_COST then
        if startup_cost path1 < startup_cost path2 then - 1
        else if startup_cost path1 > startup_cost path2 then 1
        else if total_cost path1 < total_cost path2 then - 1
        else if total_cost path1 > total_cost path2 then 1
        else 0
      else
        if total_cost path1 < total_cost path2 then - 1
        else if total_cost path1 > total_cost path2 then 1
        else if startup_cost path1 < startup_cost path2 then - 1
        else if startup_cost path1 > startup_cost path2 then 1
        else 0)"

definition fractional_cost :: "Path \<Rightarrow> real \<Rightarrow> cost" where
  "fractional_cost path fraction = startup_cost path + fraction * (total_cost path - startup_cost path)"

definition compare_fractional_path_costs :: "Path \<Rightarrow> Path \<Rightarrow> real \<Rightarrow> int" where
  "compare_fractional_path_costs path1 path2 fraction =
     (if fraction \<le> 0 \<or> fraction \<ge> 1 then compare_path_costs path1 path2 TOTAL_COST
      else
        let cost1 = fractional_cost path1 fraction; cost2 = fractional_cost path2 fraction in
        if cost1 < cost2 then - 1 else if cost1 > cost2 then 1 else 0)"

definition CONSIDER_PATH_STARTUP_COST :: "Path \<Rightarrow> bool" where
  "CONSIDER_PATH_STARTUP_COST p =
     (if param_info p = None then parent_consider_startup p else parent_consider_param_startup p)"

definition compare_path_costs_fuzzily :: "Path \<Rightarrow> Path \<Rightarrow> real \<Rightarrow> PathCostComparison" where
  "compare_path_costs_fuzzily path1 path2 fuzz_factor =
     (if total_cost path1 > total_cost path2 * fuzz_factor then
        if CONSIDER_PATH_STARTUP_COST path1 \<and> startup_cost path2 > startup_cost path1 * fuzz_factor
        then COSTS_DIFFERENT else COSTS_BETTER2
      else if total_cost path2 > total_cost path1 * fuzz_factor then
        if CONSIDER_PATH_STARTUP_COST path2 \<and> startup_cost path1 > startup_cost path2 * fuzz_factor
        then COSTS_DIFFERENT else COSTS_BETTER1
      else if startup_cost path1 > startup_cost path2 * fuzz_factor then COSTS_BETTER2
      else if startup_cost path2 > startup_cost path1 * fuzz_factor then COSTS_BETTER1
      else COSTS_EQUAL)"

definition compare_path_explore_value_fuzzily :: "Path \<Rightarrow> Path \<Rightarrow> real \<Rightarrow> int" where
  "compare_path_explore_value_fuzzily path1 path2 fuzz_factor =
     (if explore_value path1 > explore_value path2 * fuzz_factor then 1
      else if explore_value path2 > explore_value path1 * fuzz_factor then - 1
      else 0)"

fun compare_pathkeys :: "address list \<Rightarrow> address list \<Rightarrow> PathKeysComparison" where
  "compare_pathkeys (pathkey1 # keys1) (pathkey2 # keys2) =
     (if pathkey1 \<noteq> pathkey2 then PATHKEYS_DIFFERENT else compare_pathkeys keys1 keys2)"
| "compare_pathkeys (pathkey1 # keys1) [] = PATHKEYS_BETTER1"
| "compare_pathkeys [] (pathkey2 # keys2) = PATHKEYS_BETTER2"
| "compare_pathkeys [] [] = PATHKEYS_EQUAL"

definition pathkeys_contained_in :: "address list \<Rightarrow> address list \<Rightarrow> bool" where
  "pathkeys_contained_in keys1 keys2 =
     (case compare_pathkeys keys1 keys2 of
        PATHKEYS_EQUAL \<Rightarrow> True | PATHKEYS_BETTER2 \<Rightarrow> True | _ \<Rightarrow> False)"

definition is_include_in_pathlist :: "Path \<Rightarrow> Path list \<Rightarrow> bool" where
  "is_include_in_pathlist trypath paths = list_ex (\<lambda>currentPath. path_addr trypath = path_addr currentPath) paths"

text \<open>\<^verbatim>\<open>path->param_info ? NIL : path->pathkeys\<close>, the policy of \<^verbatim>\<open>add_path\<close>.\<close>

definition policy_pathkeys :: "Path \<Rightarrow> address list" where
  "policy_pathkeys p = (if param_info p \<noteq> None then [] else pathkeys p)"

subsection \<open>Sort orders form a prefix order\<close>

definition is_prefix :: "'a list \<Rightarrow> 'a list \<Rightarrow> bool" where
  "is_prefix xs ys \<longleftrightarrow> (\<exists>zs. ys = xs @ zs)"

lemma is_prefix_simps [simp]:
  "is_prefix [] ys" "\<not> is_prefix (x # xs) []" "is_prefix (x # xs) (y # ys) \<longleftrightarrow> x = y \<and> is_prefix xs ys"
  by (auto simp: is_prefix_def)

lemma is_prefix_refl [simp]: "is_prefix xs xs"
  by (simp add: is_prefix_def)

lemma is_prefix_trans: "is_prefix xs ys \<Longrightarrow> is_prefix ys zs \<Longrightarrow> is_prefix xs zs"
  by (auto simp: is_prefix_def)

lemma compare_pathkeys_eq:
  "compare_pathkeys keys1 keys2 =
     (if keys1 = keys2 then PATHKEYS_EQUAL
      else if is_prefix keys2 keys1 then PATHKEYS_BETTER1
      else if is_prefix keys1 keys2 then PATHKEYS_BETTER2
      else PATHKEYS_DIFFERENT)"
  by (induction keys1 keys2 rule: compare_pathkeys.induct) auto

lemma compare_pathkeys_no_worse1:
  "compare_pathkeys keys1 keys2 \<noteq> PATHKEYS_DIFFERENT \<Longrightarrow> compare_pathkeys keys1 keys2 \<noteq> PATHKEYS_BETTER2
     \<Longrightarrow> is_prefix keys2 keys1"
  by (auto simp: compare_pathkeys_eq split: if_splits)

lemma compare_pathkeys_no_worse2:
  "compare_pathkeys keys1 keys2 \<noteq> PATHKEYS_DIFFERENT \<Longrightarrow> compare_pathkeys keys1 keys2 \<noteq> PATHKEYS_BETTER1
     \<Longrightarrow> is_prefix keys1 keys2"
  by (auto simp: compare_pathkeys_eq split: if_splits)

lemma pathkeys_contained_in_iff: "pathkeys_contained_in keys1 keys2 \<longleftrightarrow> is_prefix keys1 keys2"
proof -
  have "is_prefix keys2 keys1 \<Longrightarrow> is_prefix keys1 keys2 \<Longrightarrow> keys1 = keys2" by (auto simp: is_prefix_def)
  then show ?thesis by (auto simp: pathkeys_contained_in_def compare_pathkeys_eq)
qed

subsection \<open>Exact and fuzzy cost order\<close>

lemma compare_path_costs_total:
  "compare_path_costs p q TOTAL_COST \<le> 0 \<longleftrightarrow>
     total_cost p < total_cost q \<or> total_cost p = total_cost q \<and> startup_cost p \<le> startup_cost q"
  "compare_path_costs p q TOTAL_COST < 0 \<longleftrightarrow>
     total_cost p < total_cost q \<or> total_cost p = total_cost q \<and> startup_cost p < startup_cost q"
  "compare_path_costs p q TOTAL_COST = 0 \<longleftrightarrow> total_cost p = total_cost q \<and> startup_cost p = startup_cost q"
  by (auto simp: compare_path_costs_def)

lemma compare_path_costs_startup:
  "compare_path_costs p q STARTUP_COST \<le> 0 \<longleftrightarrow>
     startup_cost p < startup_cost q \<or> startup_cost p = startup_cost q \<and> total_cost p \<le> total_cost q"
  by (auto simp: compare_path_costs_def)

lemma compare_path_costs_swap: "compare_path_costs p q c = - compare_path_costs q p c"
  by (auto simp: compare_path_costs_def)

lemma compare_path_costs_trans:
  "compare_path_costs p q c \<le> 0 \<Longrightarrow> compare_path_costs q r c \<le> 0 \<Longrightarrow> compare_path_costs p r c \<le> 0"
  by (cases c) (auto simp: compare_path_costs_total compare_path_costs_startup)

lemma fuzzy_not_worse1:
  assumes "compare_path_costs_fuzzily p q f = COSTS_EQUAL \<or> compare_path_costs_fuzzily p q f = COSTS_BETTER1"
  shows "total_cost p \<le> f * total_cost q \<and> (CONSIDER_PATH_STARTUP_COST q \<longrightarrow> startup_cost p \<le> f * startup_cost q)"
  using assms by (auto simp: compare_path_costs_fuzzily_def mult.commute split: if_splits)

lemma fuzzy_scale: "0 \<le> x \<Longrightarrow> 1 \<le> f \<Longrightarrow> x * f < y \<Longrightarrow> x \<le> f * y" for x y f :: real
proof -
  assume *: "0 \<le> x" "1 \<le> f" "x * f < y"
  have "x \<le> x * f" using * by (simp add: mult_le_cancel_left1)
  then have "x \<le> y" "0 \<le> y" using * by auto
  moreover have "y \<le> f * y" using * \<open>0 \<le> y\<close> by (simp add: mult_le_cancel_right1)
  ultimately show ?thesis by linarith
qed

lemma fuzzy_not_worse2:
  assumes "compare_path_costs_fuzzily p q f = COSTS_EQUAL \<or> compare_path_costs_fuzzily p q f = COSTS_BETTER2"
    and "0 \<le> total_cost q" "0 \<le> startup_cost q" "1 \<le> f"
  shows "total_cost q \<le> f * total_cost p \<and> (CONSIDER_PATH_STARTUP_COST p \<longrightarrow> startup_cost q \<le> f * startup_cost p)"
  using assms fuzzy_scale [of "total_cost q" f "total_cost p"] fuzzy_scale [of "startup_cost q" f "startup_cost p"]
  by (auto simp: compare_path_costs_fuzzily_def mult.commute split: if_splits)

text \<open>The fuzzy cost comparison means what its comment says. With a factor of at least 1 and
  non-negative costs, EQUAL is returned exactly if both costs are within the factor of each other,
  DIFFERENT exactly if startup and total cost favour different paths and the startup cost of the loser
  on total cost is to be considered, and exchanging the paths exchanges BETTER1 and BETTER2.\<close>

lemma compare_path_costs_fuzzily_spec:
  assumes "1 \<le> f" "0 \<le> total_cost p" "0 \<le> total_cost q" "0 \<le> startup_cost p" "0 \<le> startup_cost q"
  shows "(compare_path_costs_fuzzily p q f = COSTS_EQUAL \<longleftrightarrow>
            total_cost p \<le> total_cost q * f \<and> total_cost q \<le> total_cost p * f \<and>
            startup_cost p \<le> startup_cost q * f \<and> startup_cost q \<le> startup_cost p * f) \<and>
    (compare_path_costs_fuzzily p q f = COSTS_DIFFERENT \<longleftrightarrow>
       total_cost p > total_cost q * f \<and> startup_cost q > startup_cost p * f \<and> CONSIDER_PATH_STARTUP_COST p \<or>
       total_cost q > total_cost p * f \<and> startup_cost p > startup_cost q * f \<and> CONSIDER_PATH_STARTUP_COST q) \<and>
    (compare_path_costs_fuzzily p q f = COSTS_BETTER1 \<longleftrightarrow> compare_path_costs_fuzzily q p f = COSTS_BETTER2)"
proof -
  have "\<not> (total_cost p > total_cost q * f \<and> total_cost q > total_cost p * f)"
    "\<not> (startup_cost p > startup_cost q * f \<and> startup_cost q > startup_cost p * f)"
    using assms fuzzy_scale [of "total_cost q" f "total_cost p"] fuzzy_scale [of "startup_cost q" f "startup_cost p"]
    by (auto simp: mult.commute)
  then show ?thesis by (auto simp: compare_path_costs_fuzzily_def)
qed

definition sample_path :: "address \<Rightarrow> cost \<Rightarrow> cost \<Rightarrow> real \<Rightarrow> Path" where
  "sample_path a s t ev =
     \<lparr>path_addr = a, is_IndexPath = False, parent_consider_startup = True,
      parent_consider_param_startup = False, param_info = None, parallel_safe = True, rows = 10,
      startup_cost = s, total_cost = t, pathkeys = [], explore_value = ev\<rparr>"

end
