(* ===== verification/PathTournament.thy ===== *)
theory PathTournament
  imports PathCost
begin

text \<open>
  The tournament that \<^verbatim>\<open>add_path\<close>, \<^verbatim>\<open>add_path_explore\<close> and \<^verbatim>\<open>add_partial_path\<close>
  (\<^verbatim>\<open>src/backend/optimizer/util/pathnode.c\<close>) run between a new path and the paths already kept.
  The three functions have the same loop over the list, with its deletion of cells and its insertion
  point, and differ in the verdict on a pair of paths; the loop is one definition with the verdict as
  an argument. A verdict is the pair of the flags \<^verbatim>\<open>remove_old\<close> and \<^verbatim>\<open>accept_new\<close> as one
  iteration leaves them.

  The locale states what a verdict must satisfy for the tournament to be sound: a graded dominance
  relation between paths that follows the verdicts. Its lemmas are the correctness of the loop: the
  list stays sorted and non-empty, no released path stays in it, and every path offered is dominated
  by one that is kept.
\<close>

subsection \<open>The loop\<close>

text \<open>
  The part of the list already scanned and kept, the insertion point as the number of kept cells up to
  \<^verbatim>\<open>insert_after\<close> (0 when it is NULL), the paths handed to \<^verbatim>\<open>pfree\<close>, and the cells still
  to be scanned. The result has \<^verbatim>\<open>accept_new\<close> first.
\<close>

fun tournament_loop ::
  "(Path \<Rightarrow> bool \<times> bool) \<Rightarrow> (Path \<Rightarrow> bool) \<Rightarrow> cost \<Rightarrow> Path list \<Rightarrow> nat \<Rightarrow> Path list \<Rightarrow> Path list
     \<Rightarrow> bool \<times> nat \<times> Path list \<times> Path list" where
  "tournament_loop verdict freeable c kept insert_after freed [] = (True, insert_after, kept, freed)"
| "tournament_loop verdict freeable c kept insert_after freed (old_path # rest) =
     (let (remove_old, accept_new) = verdict old_path;
          (kept, insert_after, freed) =
            (if remove_old
             then (kept, insert_after, if freeable old_path then freed @ [old_path] else freed)
             else (kept @ [old_path],
                   if c \<ge> total_cost old_path then length kept + 1 else insert_after,
                   freed))
      in if \<not> accept_new then (False, insert_after, kept @ rest, freed)
         else tournament_loop verdict freeable c kept insert_after freed rest)"

text \<open>What follows the loop: insert the new path after the insertion point, or release it.\<close>

definition tournament_finish ::
  "(Path \<Rightarrow> bool) \<Rightarrow> Path \<Rightarrow> bool \<times> nat \<times> Path list \<times> Path list \<Rightarrow> Path list \<times> Path list" where
  "tournament_finish freeable new_path r =
     (case r of (accept_new, insert_after, kept, freed) \<Rightarrow>
        if accept_new then (take insert_after kept @ new_path # drop insert_after kept, freed)
        else (kept, if freeable new_path then freed @ [new_path] else freed))"

definition tournament ::
  "(Path \<Rightarrow> Path \<Rightarrow> bool \<times> bool) \<Rightarrow> (Path \<Rightarrow> bool) \<Rightarrow> Path \<Rightarrow> Path list \<Rightarrow> Path list \<times> Path list" where
  "tournament verdict freeable new_path paths =
     tournament_finish freeable new_path
       (tournament_loop (verdict new_path) freeable (total_cost new_path) [] 0 [] paths)"

abbreviation cost_sorted :: "Path list \<Rightarrow> bool" where
  "cost_sorted \<equiv> sorted_wrt (\<lambda>p q. total_cost p \<le> total_cost q)"

subsection \<open>What the loop keeps\<close>

text \<open>
  The result of the loop without its bookkeeping: the scanned cells whose verdict is not removal, up to
  and including the first that rejects the new path, then the rest.
\<close>

fun kept_paths :: "(Path \<Rightarrow> bool \<times> bool) \<Rightarrow> Path list \<Rightarrow> Path list" where
  "kept_paths v [] = []"
| "kept_paths v (p # ps) =
     (if fst (v p) then [] else [p]) @ (if snd (v p) then kept_paths v ps else ps)"

fun removed_paths :: "(Path \<Rightarrow> bool \<times> bool) \<Rightarrow> Path list \<Rightarrow> Path list" where
  "removed_paths v [] = []"
| "removed_paths v (p # ps) =
     (if fst (v p) then [p] else []) @ (if snd (v p) then removed_paths v ps else [])"

lemma tournament_loop_eq:
  "\<exists>i. tournament_loop v fr c kept ins freed ps =
     (list_all (\<lambda>p. snd (v p)) ps, i, kept @ kept_paths v ps, freed @ filter fr (removed_paths v ps))"
proof (induction ps arbitrary: kept ins freed)
  case Nil
  show ?case by simp
next
  case (Cons p ps)
  obtain r a where v: "v p = (r, a)" by fastforce
  show ?case
  proof (cases r)
    case True
    show ?thesis
    proof (cases a)
      case a: True
      from Cons [of kept ins "if fr p then freed @ [p] else freed"]
      show ?thesis by (cases "fr p") (simp_all add: v True a)
    qed (simp add: v True)
  next
    case False
    show ?thesis
    proof (cases a)
      case a: True
      from Cons [of "kept @ [p]" "if c \<ge> total_cost p then length kept + 1 else ins" freed]
      show ?thesis by (simp add: v False a)
    qed (simp add: v False)
  qed
qed

text \<open>The insertion point: everything before it costs at most \<open>c\<close>, everything after it more.\<close>

definition insertion_point :: "cost \<Rightarrow> Path list \<Rightarrow> nat \<Rightarrow> bool" where
  "insertion_point c kept i \<longleftrightarrow> i \<le> length kept \<and>
     (\<forall>p \<in> set (take i kept). total_cost p \<le> c) \<and> (\<forall>p \<in> set (drop i kept). c < total_cost p)"

lemma insertion_point_snoc:
  assumes "insertion_point c kept i" "cost_sorted (kept @ [p])"
  shows "insertion_point c (kept @ [p]) (if c \<ge> total_cost p then length kept + 1 else i)"
proof (cases "c \<ge> total_cost p")
  case True
  then have "\<forall>q \<in> set (kept @ [p]). total_cost q \<le> c"
    using assms(2) by (auto simp: sorted_wrt_append)
  then show ?thesis using True by (simp add: insertion_point_def)
next
  case False
  then show ?thesis using assms(1) by (auto simp: insertion_point_def)
qed

lemma tournament_loop_insertion_point:
  assumes "tournament_loop v fr c kept ins freed ps = (True, i, kept', freed')"
    and "insertion_point c kept ins" "cost_sorted (kept @ ps)"
  shows "insertion_point c kept' i"
  using assms
proof (induction ps arbitrary: kept ins freed)
  case Nil
  then show ?case by simp
next
  case (Cons p ps)
  obtain r a where v: "v p = (r, a)" by fastforce
  with Cons.prems(1) have a by (auto split: if_splits)
  show ?case
  proof (cases r)
    case True
    have "cost_sorted (kept @ ps)" using Cons.prems(3) by (rule sorted_wrt_drop_mid)
    then show ?thesis using Cons.IH [of kept ins] Cons.prems v True \<open>a\<close> by simp
  next
    case False
    have s: "cost_sorted ((kept @ [p]) @ ps)" using Cons.prems(3) by simp
    then have "cost_sorted (kept @ [p])" by (simp add: sorted_wrt_append)
    then have "insertion_point c (kept @ [p]) (if c \<ge> total_cost p then length kept + 1 else ins)"
      using Cons.prems(2) by (rule insertion_point_snoc [rotated])
    then show ?thesis
      using Cons.IH [of "kept @ [p]" "if c \<ge> total_cost p then length kept + 1 else ins" freed]
        Cons.prems v False \<open>a\<close> s by simp
  qed
qed

lemma insert_at_point_sorted:
  assumes "insertion_point (total_cost new) kept i" "cost_sorted kept"
  shows "cost_sorted (take i kept @ new # drop i kept)"
  using assms by (intro sorted_wrt_insert_mid) (auto simp: insertion_point_def)

lemma kept_paths_sorted: "cost_sorted ps \<Longrightarrow> cost_sorted (kept_paths v ps)"
proof (induction ps)
  case (Cons p ps)
  have "set (kept_paths v ps) \<subseteq> set ps" for ps by (induction ps) auto
  with Cons show ?case by auto
qed simp

lemma kept_removed: "set ps = set (kept_paths v ps) \<union> set (removed_paths v ps)"
  by (induction ps) auto

lemma removed_verdict: "p \<in> set (removed_paths v ps) \<Longrightarrow> fst (v p)"
  by (induction ps) (auto split: if_splits)

lemma kept_all_not_removed:
  "list_all (\<lambda>p. snd (v p)) ps \<Longrightarrow> p \<in> set (kept_paths v ps) \<Longrightarrow> \<not> fst (v p)"
  by (induction ps) (auto split: if_splits)

lemma rejecting_path_kept:
  assumes "\<not> list_all (\<lambda>p. snd (v p)) ps" "\<And>p. p \<in> set ps \<Longrightarrow> \<not> (fst (v p) \<and> \<not> snd (v p))"
  shows "\<exists>p \<in> set (kept_paths v ps). \<not> snd (v p)"
  using assms
proof (induction ps)
  case (Cons p ps)
  then show ?case by (cases "snd (v p)") auto
qed simp

lemma kept_removed_disjoint:
  "distinct (map path_addr ps) \<Longrightarrow> path_addr ` set (kept_paths v ps) \<inter> path_addr ` set (removed_paths v ps) = {}"
proof (induction ps)
  case (Cons p ps)
  have "set (kept_paths v ps) \<subseteq> set ps" "set (removed_paths v ps) \<subseteq> set ps"
    using kept_removed [of ps v] by auto
  with Cons show ?case by auto
qed simp

lemma tournament_accept:
  "list_all (\<lambda>p. snd (verdict new p)) ps \<Longrightarrow>
     \<exists>i. tournament verdict fr new ps =
       (take i (kept_paths (verdict new) ps) @ new # drop i (kept_paths (verdict new) ps),
        filter fr (removed_paths (verdict new) ps))"
  using tournament_loop_eq [of "verdict new" fr "total_cost new" "[]" 0 "[]" ps]
  by (auto simp: tournament_def tournament_finish_def)

lemma tournament_reject:
  "\<not> list_all (\<lambda>p. snd (verdict new p)) ps \<Longrightarrow>
     tournament verdict fr new ps =
       (kept_paths (verdict new) ps, filter fr (removed_paths (verdict new) ps @ [new]))"
  using tournament_loop_eq [of "verdict new" fr "total_cost new" "[]" 0 "[]" ps]
  by (auto simp: tournament_def tournament_finish_def)

lemma tournament_set:
  "set (fst (tournament verdict fr new ps)) =
     set (kept_paths (verdict new) ps) \<union> (if list_all (\<lambda>p. snd (verdict new p)) ps then {new} else {})"
proof (cases "list_all (\<lambda>p. snd (verdict new p)) ps")
  case True
  let ?k = "kept_paths (verdict new) ps"
  from tournament_accept [of verdict new ps fr] True obtain i
    where "fst (tournament verdict fr new ps) = take i ?k @ new # drop i ?k" by auto
  moreover have "set (take i ?k) \<union> set (drop i ?k) = set ?k" by (metis append_take_drop_id set_append)
  ultimately show ?thesis using True by auto
qed (simp add: tournament_reject)

lemma tournament_sorted:
  assumes "cost_sorted ps"
  shows "cost_sorted (fst (tournament verdict fr new ps))"
proof (cases "list_all (\<lambda>p. snd (verdict new p)) ps")
  case True
  let ?k = "kept_paths (verdict new) ps"
  obtain i where loop: "tournament_loop (verdict new) fr (total_cost new) [] 0 [] ps =
      (True, i, ?k, filter fr (removed_paths (verdict new) ps))"
    using True tournament_loop_eq [of "verdict new" fr "total_cost new" "[]" 0 "[]" ps] by auto
  moreover have "insertion_point (total_cost new) [] 0" by (simp add: insertion_point_def)
  ultimately have "insertion_point (total_cost new) ?k i"
    using assms tournament_loop_insertion_point [OF loop] by simp
  then show ?thesis
    using loop assms by (simp add: tournament_def tournament_finish_def insert_at_point_sorted kept_paths_sorted)
qed (simp add: tournament_reject kept_paths_sorted assms)


text \<open>Offering a sequence of paths one after the other.\<close>

definition offer_all ::
  "(Path \<Rightarrow> Path \<Rightarrow> bool \<times> bool) \<Rightarrow> (Path \<Rightarrow> bool) \<Rightarrow> Path list \<Rightarrow> Path list \<Rightarrow> Path list" where
  "offer_all verdict freeable news paths = foldl (\<lambda>ps new. fst (tournament verdict freeable new ps)) paths news"

lemma offer_all_simps [simp]:
  "offer_all verdict fr [] ps = ps"
  "offer_all verdict fr (new # news) ps = offer_all verdict fr news (fst (tournament verdict fr new ps))"
  by (simp_all add: offer_all_def)

lemma offer_all_sorted: "cost_sorted ps \<Longrightarrow> cost_sorted (offer_all verdict fr news ps)"
  by (induction news arbitrary: ps) (simp_all add: tournament_sorted)

lemma tournament_subset: "set (fst (tournament verdict fr new ps)) \<subseteq> insert new (set ps)"
  using kept_removed [of ps "verdict new"] by (auto simp: tournament_set split: if_splits)

lemma offer_all_subset: "set (offer_all verdict fr news ps) \<subseteq> set ps \<union> set news"
proof (induction news arbitrary: ps)
  case (Cons new news)
  then show ?case using tournament_subset [of verdict fr new ps] by fastforce
qed simp

text \<open>
  Released memory: if all paths are distinct objects, the list the tournament leaves still has distinct
  objects and holds none of the released ones; what left the list or was not inserted is released unless
  it must not be.
\<close>

lemma kept_subset: "set (kept_paths v ps) \<subseteq> set ps"
  and removed_subset: "set (removed_paths v ps) \<subseteq> set ps"
  using kept_removed [of ps v] by auto

lemma kept_distinct: "distinct (map path_addr ps) \<Longrightarrow> distinct (map path_addr (kept_paths v ps))"
proof (induction ps)
  case (Cons p ps)
  then show ?case using kept_subset [of v ps] by auto
qed simp

lemma removed_eq:
  assumes "distinct (map path_addr ps)"
  shows "set (removed_paths v ps) = set ps - set (kept_paths v ps)"
proof -
  have "set (kept_paths v ps) \<inter> set (removed_paths v ps) = {}"
    using kept_removed_disjoint [OF assms, of v] by blast
  then show ?thesis using kept_removed [of ps v] by blast
qed

lemma tournament_released_set:
  assumes "distinct (map path_addr (new # ps))"
  shows "set (snd (tournament verdict fr new ps)) =
    {p \<in> insert new (set ps). fr p \<and> p \<notin> set (fst (tournament verdict fr new ps))}"
proof -
  let ?k = "set (kept_paths (verdict new) ps)"
  have rem: "set (removed_paths (verdict new) ps) = set ps - ?k" using assms by (simp add: removed_eq)
  have "new \<notin> set ps" using assms by auto
  then have new: "new \<notin> ?k" using kept_subset [of "verdict new" ps] by blast
  show ?thesis
  proof (cases "list_all (\<lambda>p. snd (verdict new p)) ps")
    case True
    then have "snd (tournament verdict fr new ps) = filter fr (removed_paths (verdict new) ps)"
      using tournament_accept [of verdict new ps fr] by auto
    then have "set (snd (tournament verdict fr new ps)) = {p \<in> set ps - ?k. fr p}"
      by (simp only: set_filter rem)
    moreover have "set (fst (tournament verdict fr new ps)) = ?k \<union> {new}"
      using True by (simp only: tournament_set if_True)
    ultimately show ?thesis using \<open>new \<notin> set ps\<close> by blast
  next
    case False
    then have r: "tournament verdict fr new ps =
        (kept_paths (verdict new) ps, filter fr (removed_paths (verdict new) ps @ [new]))"
      by (rule tournament_reject)
    then have "set (snd (tournament verdict fr new ps)) = {p \<in> (set ps - ?k) \<union> {new}. fr p}"
      by (simp only: r snd_conv set_filter set_append rem list.set)
    moreover have "set (fst (tournament verdict fr new ps)) = ?k" by (simp only: r fst_conv)
    ultimately show ?thesis using new by blast
  qed
qed

lemma tournament_distinct:
  assumes "distinct (map path_addr (new # ps))"
  shows "distinct (map path_addr (fst (tournament verdict fr new ps)))"
proof (cases "list_all (\<lambda>p. snd (verdict new p)) ps")
  case True
  let ?k = "kept_paths (verdict new) ps"
  from True obtain i where i: "fst (tournament verdict fr new ps) = take i ?k @ new # drop i ?k"
    using tournament_accept [of verdict new ps fr] by auto
  have "distinct (map path_addr (take i ?k @ drop i ?k))" using assms kept_distinct by simp
  moreover have "path_addr new \<notin> set (map path_addr (take i ?k @ drop i ?k))"
    using assms kept_subset [of "verdict new" ps] by auto
  ultimately show ?thesis unfolding i by (simp only: map_append list.map distinct_append distinct.simps set_append
        list.set) auto
next
  case False
  then show ?thesis using assms kept_distinct by (simp add: tournament_reject)
qed

lemma addr_inj:
  "distinct (map path_addr ps) \<Longrightarrow> p \<in> set ps \<Longrightarrow> q \<in> set ps \<Longrightarrow> path_addr p = path_addr q \<Longrightarrow> p = q"
  by (meson distinct_map inj_onD)

lemma tournament_released:
  assumes "distinct (map path_addr (new # ps))" "p \<in> set (snd (tournament verdict fr new ps))"
  shows "path_addr p \<notin> path_addr ` set (fst (tournament verdict fr new ps))"
proof
  assume "path_addr p \<in> path_addr ` set (fst (tournament verdict fr new ps))"
  then obtain q where q: "q \<in> set (fst (tournament verdict fr new ps))" "path_addr p = path_addr q" by blast
  moreover have "p \<in> set (new # ps)" "p \<notin> set (fst (tournament verdict fr new ps))"
    using assms tournament_released_set by auto
  moreover have "q \<in> set (new # ps)" using q tournament_subset [of verdict fr new ps] by auto
  ultimately show False using addr_inj [OF assms(1)] by blast
qed

subsection \<open>Soundness for any verdict that follows a dominance relation\<close>

text \<open>
  \<open>dom k p q\<close> reads: \<open>p\<close> is at least as good as \<open>q\<close> up to \<open>k\<close> applications of the fuzz factors. A
  verdict may remove or reject a path only in favour of one that dominates it within one application.
\<close>

locale path_tournament =
  fixes verdict :: "Path \<Rightarrow> Path \<Rightarrow> bool \<times> bool"
    and ok :: "Path \<Rightarrow> bool"
    and dom :: "nat \<Rightarrow> Path \<Rightarrow> Path \<Rightarrow> bool"
  assumes exclusive: "fst (verdict p q) \<Longrightarrow> snd (verdict p q)"
    and removal: "ok new \<Longrightarrow> ok old \<Longrightarrow> fst (verdict new old) \<Longrightarrow> dom 1 new old"
    and rejection: "ok new \<Longrightarrow> ok old \<Longrightarrow> \<not> snd (verdict new old) \<Longrightarrow> dom 1 old new"
    and dom_refl: "dom 0 p p"
    and dom_trans: "ok p \<Longrightarrow> ok q \<Longrightarrow> ok r \<Longrightarrow> dom j p q \<Longrightarrow> dom k q r \<Longrightarrow> dom (j + k) p r"
    and dom_mono: "ok p \<Longrightarrow> ok q \<Longrightarrow> dom j p q \<Longrightarrow> j \<le> k \<Longrightarrow> dom k p q"
begin

lemma nonempty: "fst (tournament verdict fr new ps) \<noteq> []"
proof (cases "list_all (\<lambda>p. snd (verdict new p)) ps")
  case True
  then have "new \<in> set (fst (tournament verdict fr new ps))" by (simp add: tournament_set)
  then show ?thesis by auto
next
  case False
  then have "\<exists>p \<in> set (kept_paths (verdict new) ps). \<not> snd (verdict new p)"
    using exclusive by (intro rejecting_path_kept) auto
  then show ?thesis using False by (auto simp: tournament_reject)
qed

lemma kept_or_removed:
  assumes "p \<in> insert new (set ps)"
  obtains "p = new" | "p \<in> set (kept_paths (verdict new) ps)" | "p \<in> set (removed_paths (verdict new) ps)"
  using assms kept_removed [of ps "verdict new"] by blast

lemma dom_self: "ok p \<Longrightarrow> dom k p p"
  using dom_mono [of p p 0 k] dom_refl by simp

lemma removed_dom:
  assumes "ok new" "\<forall>p \<in> set ps. ok p" "p \<in> set (removed_paths (verdict new) ps)"
  shows "dom 1 new p" and "ok p"
proof -
  show "ok p" using assms(2, 3) removed_subset [of "verdict new" ps] by blast
  then show "dom 1 new p" using assms(1, 3) removal removed_verdict by simp
qed

lemma complete_accepted:
  assumes "ok new" "\<forall>p \<in> set ps. ok p" "p \<in> insert new (set ps)" "list_all (\<lambda>p. snd (verdict new p)) ps"
  shows "\<exists>q \<in> set (fst (tournament verdict fr new ps)). dom 1 q p"
proof -
  have result: "set (fst (tournament verdict fr new ps)) = set (kept_paths (verdict new) ps) \<union> {new}"
    using assms(4) by (simp add: tournament_set)
  from assms(3) show ?thesis
  proof (cases rule: kept_or_removed)
    case 1
    then show ?thesis using assms(1) result dom_self by blast
  next
    case 2
    then have "ok p" using assms(2) kept_subset [of "verdict new" ps] by blast
    then show ?thesis using 2 result dom_self by blast
  next
    case 3
    then show ?thesis using removed_dom(1) [OF assms(1, 2)] result by blast
  qed
qed

lemma complete_rejected:
  assumes "ok new" "\<forall>p \<in> set ps. ok p" "p \<in> insert new (set ps)" "\<not> list_all (\<lambda>p. snd (verdict new p)) ps"
  shows "\<exists>q \<in> set (fst (tournament verdict fr new ps)). dom 2 q p"
proof -
  have result: "set (fst (tournament verdict fr new ps)) = set (kept_paths (verdict new) ps)"
    using assms(4) by (simp add: tournament_set)
  have "\<exists>q \<in> set (kept_paths (verdict new) ps). \<not> snd (verdict new q)"
    using assms(4) exclusive by (intro rejecting_path_kept) auto
  then obtain q where q: "q \<in> set (kept_paths (verdict new) ps)" "\<not> snd (verdict new q)" by blast
  have okq: "ok q" using q(1) assms(2) kept_subset [of "verdict new" ps] by blast
  have qn: "dom 1 q new" using q(2) okq assms(1) rejection by simp
  from assms(3) show ?thesis
  proof (cases rule: kept_or_removed)
    case 1
    then have "dom 2 q p" using qn okq assms(1) dom_mono [of q new 1 2] by simp
    then show ?thesis using q(1) result by blast
  next
    case 2
    then have "ok p" using assms(2) kept_subset [of "verdict new" ps] by blast
    then show ?thesis using 2 result dom_self by blast
  next
    case 3
    have "dom (1 + 1) q p"
      using qn okq assms(1) removed_dom [OF assms(1, 2) 3] by (intro dom_trans [of q new p])
    then have "dom 2 q p" by (simp add: numeral_2_eq_2)
    then show ?thesis using q(1) result by blast
  qed
qed

lemma complete:
  assumes "ok new" "\<forall>p \<in> set ps. ok p" "p \<in> insert new (set ps)"
  shows "\<exists>q \<in> set (fst (tournament verdict fr new ps)). dom 2 q p"
proof (cases "list_all (\<lambda>p. snd (verdict new p)) ps")
  case True
  then obtain q where q: "q \<in> set (fst (tournament verdict fr new ps))" "dom 1 q p"
    using complete_accepted assms by blast
  then have "ok q" "ok p" using assms tournament_subset [of verdict fr new ps] by blast+
  then show ?thesis using q dom_mono [of q p 1 2] by auto
qed (use complete_rejected assms in blast)

lemma tournament_ok: "ok new \<Longrightarrow> \<forall>p \<in> set ps. ok p \<Longrightarrow> \<forall>p \<in> set (fst (tournament verdict fr new ps)). ok p"
  using tournament_subset [of verdict fr new ps] by blast

lemma offer_all_ok: "\<forall>p \<in> set ps \<union> set news. ok p \<Longrightarrow> \<forall>p \<in> set (offer_all verdict fr news ps). ok p"
proof (induction news arbitrary: ps)
  case (Cons new news)
  then have "\<forall>p \<in> set (fst (tournament verdict fr new ps)). ok p" by (intro tournament_ok) simp_all
  with Cons show ?case by (simp add: ball_Un)
qed simp

lemma offer_all_complete:
  assumes "\<forall>p \<in> set ps \<union> set news. ok p" "p \<in> set ps \<union> set news"
  shows "\<exists>q \<in> set (offer_all verdict fr news ps). dom (2 * length news) q p"
  using assms
proof (induction news arbitrary: ps p)
  case Nil
  then show ?case using dom_refl by auto
next
  case (Cons new news)
  let ?ps = "fst (tournament verdict fr new ps)"
  have "\<forall>p \<in> set ?ps. ok p" using Cons.prems(1) by (intro tournament_ok) simp_all
  then have ok: "\<forall>p \<in> set ?ps \<union> set news. ok p" using Cons.prems(1) by (simp add: ball_Un)
  then have okr: "\<forall>p \<in> set (offer_all verdict fr news ?ps). ok p" by (rule offer_all_ok)
  have okp: "ok p" using Cons.prems by blast
  show ?case
  proof (cases "p \<in> set news")
    case True
    then obtain q where q: "q \<in> set (offer_all verdict fr news ?ps)" "dom (2 * length news) q p"
      using Cons.IH [OF ok, of p] by auto
    have "dom (2 * length (new # news)) q p"
      using okr q okp dom_mono [of q p "2 * length news" "2 * length (new # news)"] by simp
    then show ?thesis using q by (auto simp del: list.size)
  next
    case False
    then have "\<exists>q \<in> set ?ps. dom 2 q p"
      using Cons.prems by (intro complete) auto
    then obtain q where q: "q \<in> set ?ps" "dom 2 q p" by blast
    then obtain r where r: "r \<in> set (offer_all verdict fr news ?ps)" "dom (2 * length news) r q"
      using Cons.IH [OF ok, of q] by auto
    have "dom (2 * length news + 2) r p"
      using q r okr ok okp by (intro dom_trans [of r q p]) auto
    then show ?thesis using r by auto
  qed
qed

end

end
