(* ===== verification/AddPath.thy ===== *)
theory AddPath
  imports PathTournament
begin

text \<open>
  Adding a path to a relation: \<^verbatim>\<open>add_path\<close>, \<^verbatim>\<open>add_path_precheck\<close>,
  \<^verbatim>\<open>add_partial_path\<close> and \<^verbatim>\<open>add_partial_path_precheck\<close> of
  \<^verbatim>\<open>src/backend/optimizer/util/pathnode.c\<close>. The functions that change the relation return the new
  relation and the paths they release.

  The lemmas interpret the tournament contract for both verdicts and show what the planner relies on:
  the list is sorted by total cost, every path offered is dominated by a kept one, and a path the
  precheck turns away would not have been accepted.
\<close>

text \<open>
  One iteration of the loop of \<^verbatim>\<open>add_path\<close>: the pair (\<^verbatim>\<open>remove_old\<close>,
  \<^verbatim>\<open>accept_new\<close>).
\<close>

definition add_path_equal_costs :: "Path \<Rightarrow> Path \<Rightarrow> PathKeysComparison \<Rightarrow> bool \<times> bool" where
  "add_path_equal_costs new_path old_path keyscmp =
     (let outercmp = bms_subset_compare (PATH_REQ_OUTER new_path) (PATH_REQ_OUTER old_path) in
      if keyscmp = PATHKEYS_BETTER1 then
        (if (outercmp = BMS_EQUAL \<or> outercmp = BMS_SUBSET1) \<and> rows new_path \<le> rows old_path \<and>
            parallel_safe new_path \<ge> parallel_safe old_path
         then (True, True) else (False, True))
      else if keyscmp = PATHKEYS_BETTER2 then
        (if (outercmp = BMS_EQUAL \<or> outercmp = BMS_SUBSET2) \<and> rows new_path \<ge> rows old_path \<and>
            parallel_safe new_path \<le> parallel_safe old_path
         then (False, False) else (False, True))
      else if outercmp = BMS_EQUAL then
        (if parallel_safe new_path > parallel_safe old_path then (True, True)
         else if parallel_safe new_path < parallel_safe old_path then (False, False)
         else if rows new_path < rows old_path then (True, True)
         else if rows new_path > rows old_path then (False, False)
         else if compare_path_costs_fuzzily new_path old_path (10000000001 / 10000000000) = COSTS_BETTER1
         then (True, True)
         else (False, False))
      else if outercmp = BMS_SUBSET1 \<and> rows new_path \<le> rows old_path \<and>
          parallel_safe new_path \<ge> parallel_safe old_path then (True, True)
      else if outercmp = BMS_SUBSET2 \<and> rows new_path \<ge> rows old_path \<and>
          parallel_safe new_path \<le> parallel_safe old_path then (False, False)
      else (False, True))"

definition add_path_verdict :: "Path \<Rightarrow> Path \<Rightarrow> bool \<times> bool" where
  "add_path_verdict new_path old_path =
     (let costcmp = compare_path_costs_fuzzily new_path old_path STD_FUZZ_FACTOR in
      if costcmp \<noteq> COSTS_DIFFERENT then
        let keyscmp = compare_pathkeys (policy_pathkeys new_path) (policy_pathkeys old_path) in
        if keyscmp \<noteq> PATHKEYS_DIFFERENT then
          (case costcmp of
             COSTS_EQUAL \<Rightarrow> add_path_equal_costs new_path old_path keyscmp
           | COSTS_BETTER1 \<Rightarrow>
               if keyscmp \<noteq> PATHKEYS_BETTER2 then
                 let outercmp = bms_subset_compare (PATH_REQ_OUTER new_path) (PATH_REQ_OUTER old_path) in
                 if (outercmp = BMS_EQUAL \<or> outercmp = BMS_SUBSET1) \<and> rows new_path \<le> rows old_path \<and>
                    parallel_safe new_path \<ge> parallel_safe old_path
                 then (True, True) else (False, True)
               else (False, True)
           | COSTS_BETTER2 \<Rightarrow>
               if keyscmp \<noteq> PATHKEYS_BETTER1 then
                 let outercmp = bms_subset_compare (PATH_REQ_OUTER new_path) (PATH_REQ_OUTER old_path) in
                 if (outercmp = BMS_EQUAL \<or> outercmp = BMS_SUBSET2) \<and> rows new_path \<ge> rows old_path \<and>
                    parallel_safe new_path \<le> parallel_safe old_path
                 then (False, False) else (False, True)
               else (False, True)
           | COSTS_DIFFERENT \<Rightarrow> (False, True))
        else (False, True)
      else (False, True))"

definition add_path :: "RelOptInfo \<Rightarrow> Path \<Rightarrow> RelOptInfo \<times> Path list" where
  "add_path parent_rel new_path =
     (let (paths, freed) = tournament add_path_verdict (\<lambda>p. \<not> is_IndexPath p) new_path (pathlist parent_rel)
      in (parent_rel\<lparr>pathlist := paths\<rparr>, freed))"

text \<open>The loop of the precheck; \<^verbatim>\<open>False\<close> when a dominating old path is found.\<close>

fun add_path_precheck_loop ::
  "bool \<Rightarrow> cost \<Rightarrow> cost \<Rightarrow> address list \<Rightarrow> Bitmapset option \<Rightarrow> Path list \<Rightarrow> bool" where
  "add_path_precheck_loop consider s t new_path_pathkeys required_outer [] = True"
| "add_path_precheck_loop consider s t new_path_pathkeys required_outer (old_path # rest) =
     (if t > total_cost old_path * STD_FUZZ_FACTOR then
        if s > startup_cost old_path * STD_FUZZ_FACTOR \<or> \<not> consider then
          let keyscmp = compare_pathkeys new_path_pathkeys (policy_pathkeys old_path) in
          if keyscmp = PATHKEYS_EQUAL \<or> keyscmp = PATHKEYS_BETTER2 then
            if bms_equal required_outer (PATH_REQ_OUTER old_path) then False
            else add_path_precheck_loop consider s t new_path_pathkeys required_outer rest
          else add_path_precheck_loop consider s t new_path_pathkeys required_outer rest
        else add_path_precheck_loop consider s t new_path_pathkeys required_outer rest
      else True)"

definition add_path_precheck ::
  "RelOptInfo \<Rightarrow> cost \<Rightarrow> cost \<Rightarrow> address list \<Rightarrow> Bitmapset option \<Rightarrow> bool" where
  "add_path_precheck parent_rel s t keys required_outer =
     add_path_precheck_loop
       (if required_outer \<noteq> None then consider_param_startup parent_rel else consider_startup parent_rel)
       s t (if required_outer \<noteq> None then [] else keys) required_outer (pathlist parent_rel)"

definition add_partial_path_verdict :: "Path \<Rightarrow> Path \<Rightarrow> bool \<times> bool" where
  "add_partial_path_verdict new_path old_path =
     (let keyscmp = compare_pathkeys (pathkeys new_path) (pathkeys old_path) in
      if keyscmp \<noteq> PATHKEYS_DIFFERENT then
        if total_cost new_path > total_cost old_path * STD_FUZZ_FACTOR then
          (if keyscmp \<noteq> PATHKEYS_BETTER1 then (False, False) else (False, True))
        else if total_cost old_path > total_cost new_path * STD_FUZZ_FACTOR then
          (if keyscmp \<noteq> PATHKEYS_BETTER2 then (True, True) else (False, True))
        else if keyscmp = PATHKEYS_BETTER1 then (True, True)
        else if keyscmp = PATHKEYS_BETTER2 then (False, False)
        else if total_cost old_path > total_cost new_path * (10000000001 / 10000000000) then (True, True)
        else (False, False)
      else (False, True))"

definition add_partial_path :: "RelOptInfo \<Rightarrow> Path \<Rightarrow> RelOptInfo \<times> Path list" where
  "add_partial_path parent_rel new_path =
     (let (paths, freed) = tournament add_partial_path_verdict (\<lambda>p. True) new_path (partial_pathlist parent_rel)
      in (parent_rel\<lparr>partial_pathlist := paths\<rparr>, freed))"

text \<open>The first loop of \<^verbatim>\<open>add_partial_path_precheck\<close>: an early answer or none.\<close>

fun partial_precheck_loop :: "cost \<Rightarrow> address list \<Rightarrow> Path list \<Rightarrow> bool option" where
  "partial_precheck_loop t keys [] = None"
| "partial_precheck_loop t keys (old_path # rest) =
     (let keyscmp = compare_pathkeys keys (pathkeys old_path) in
      if keyscmp \<noteq> PATHKEYS_DIFFERENT then
        if t > total_cost old_path * STD_FUZZ_FACTOR \<and> keyscmp \<noteq> PATHKEYS_BETTER1 then Some False
        else if total_cost old_path > t * STD_FUZZ_FACTOR \<and> keyscmp \<noteq> PATHKEYS_BETTER2 then Some True
        else partial_precheck_loop t keys rest
      else partial_precheck_loop t keys rest)"

definition add_partial_path_precheck :: "RelOptInfo \<Rightarrow> cost \<Rightarrow> address list \<Rightarrow> bool" where
  "add_partial_path_precheck parent_rel t keys =
     (case partial_precheck_loop t keys (partial_pathlist parent_rel) of
        Some answer \<Rightarrow> answer
      | None \<Rightarrow> add_path_precheck parent_rel t t keys None)"

subsection \<open>Dominance between paths\<close>

text \<open>
  The figures of merit of \<^verbatim>\<open>add_path\<close> as an order: fewer required outer relations, a sort order
  that extends the other's, and parallel safety first and row count second. Costs are compared up to
  a factor: startup costs only where both paths are of a kind whose startup cost matters.
\<close>

definition safe_rows_le :: "Path \<Rightarrow> Path \<Rightarrow> bool" where
  "safe_rows_le p q \<longleftrightarrow>
     parallel_safe p \<and> \<not> parallel_safe q \<or> parallel_safe p = parallel_safe q \<and> rows p \<le> rows q"

definition merits_le :: "Path \<Rightarrow> Path \<Rightarrow> bool" where
  "merits_le p q \<longleftrightarrow>
     members (PATH_REQ_OUTER p) \<subseteq> members (PATH_REQ_OUTER q) \<and>
     is_prefix (policy_pathkeys q) (policy_pathkeys p) \<and> safe_rows_le p q"

definition costs_le :: "real \<Rightarrow> Path \<Rightarrow> Path \<Rightarrow> bool" where
  "costs_le f p q \<longleftrightarrow> total_cost p \<le> f * total_cost q \<and>
     (CONSIDER_PATH_STARTUP_COST p \<and> CONSIDER_PATH_STARTUP_COST q \<longrightarrow> startup_cost p \<le> f * startup_cost q)"

definition path_dominates :: "nat \<Rightarrow> Path \<Rightarrow> Path \<Rightarrow> bool" where
  "path_dominates k p q \<longleftrightarrow> merits_le p q \<and> costs_le (STD_FUZZ_FACTOR ^ k) p q"

text \<open>
  Well-formed paths of one relation: non-negative costs, the flags of the same parent, and
  parameterization information only where there are outer relations.
\<close>

definition path_ok :: "bool \<Rightarrow> bool \<Rightarrow> Path \<Rightarrow> bool" where
  "path_ok cs cps p \<longleftrightarrow> 0 \<le> startup_cost p \<and> 0 \<le> total_cost p \<and>
     parent_consider_startup p = cs \<and> parent_consider_param_startup p = cps \<and>
     (param_info p \<noteq> None \<longrightarrow> members (PATH_REQ_OUTER p) \<noteq> {})"

lemma STD_FUZZ_ge_1 [simp]: "1 \<le> STD_FUZZ_FACTOR" "0 < STD_FUZZ_FACTOR" "0 \<le> STD_FUZZ_FACTOR"
  by (simp_all add: STD_FUZZ_FACTOR_def)

lemma safe_rows_le_refl: "safe_rows_le p p"
  by (simp add: safe_rows_le_def)

lemma safe_rows_le_trans: "safe_rows_le p q \<Longrightarrow> safe_rows_le q r \<Longrightarrow> safe_rows_le p r"
  by (auto simp: safe_rows_le_def)

lemma merits_le_refl: "merits_le p p"
  by (simp add: merits_le_def safe_rows_le_refl)

lemma merits_le_trans: "merits_le p q \<Longrightarrow> merits_le q r \<Longrightarrow> merits_le p r"
  unfolding merits_le_def by (blast intro: safe_rows_le_trans is_prefix_trans)

lemma path_req_outer_unparam: "param_info p = None \<Longrightarrow> members (PATH_REQ_OUTER p) = {}"
  by (simp add: PATH_REQ_OUTER_def)

text \<open>
  If the first and the last of three paths with growing parameterization are of kinds whose startup
  cost matters, so is the middle one.
\<close>

lemma consider_between:
  assumes "path_ok cs cps p" "path_ok cs cps q" "path_ok cs cps r"
    and "members (PATH_REQ_OUTER p) \<subseteq> members (PATH_REQ_OUTER q)"
    and "members (PATH_REQ_OUTER q) \<subseteq> members (PATH_REQ_OUTER r)"
    and "CONSIDER_PATH_STARTUP_COST p" "CONSIDER_PATH_STARTUP_COST r"
  shows "CONSIDER_PATH_STARTUP_COST q"
  using assms path_req_outer_unparam [of q] path_req_outer_unparam [of r]
  by (auto simp: path_ok_def CONSIDER_PATH_STARTUP_COST_def split: if_splits)

lemma costs_le_trans:
  assumes "costs_le f p q" "costs_le g q r" "0 \<le> f"
    and "CONSIDER_PATH_STARTUP_COST p \<Longrightarrow> CONSIDER_PATH_STARTUP_COST r \<Longrightarrow> CONSIDER_PATH_STARTUP_COST q"
  shows "costs_le (f * g) p r"
proof -
  have step: "x \<le> f * y \<Longrightarrow> y \<le> g * z \<Longrightarrow> x \<le> f * g * z" for x y z
    using assms(3) mult_left_mono [of y "g * z" f] by (simp add: mult.assoc)
  from assms show ?thesis by (auto simp: costs_le_def intro: step)
qed

lemma costs_le_mono:
  assumes "costs_le f p q" "f \<le> g" "0 \<le> total_cost q" "0 \<le> startup_cost q"
  shows "costs_le g p q"
proof -
  have "f * total_cost q \<le> g * total_cost q" "f * startup_cost q \<le> g * startup_cost q"
    using assms by (simp_all add: mult_right_mono)
  with assms(1) show ?thesis by (auto simp: costs_le_def)
qed

lemma costs_le_refl: "costs_le 1 p p"
  by (simp add: costs_le_def)

lemma path_dominates_trans:
  assumes "path_ok cs cps p" "path_ok cs cps q" "path_ok cs cps r"
    and "path_dominates j p q" "path_dominates k q r"
  shows "path_dominates (j + k) p r"
proof -
  have "costs_le (STD_FUZZ_FACTOR ^ j * STD_FUZZ_FACTOR ^ k) p r"
    using assms by (intro costs_le_trans [of _ p q _ r]) (auto simp: path_dominates_def merits_le_def intro: consider_between)
  then show ?thesis using assms merits_le_trans by (auto simp: path_dominates_def power_add)
qed

lemma path_dominates_mono:
  "path_ok cs cps q \<Longrightarrow> path_dominates j p q \<Longrightarrow> j \<le> k \<Longrightarrow> path_dominates k p q"
  using costs_le_mono [of "STD_FUZZ_FACTOR ^ j" p q "STD_FUZZ_FACTOR ^ k"]
  by (auto simp: path_dominates_def path_ok_def power_increasing)

subsection \<open>The verdicts follow dominance\<close>

abbreviation keys_compare :: "Path \<Rightarrow> Path \<Rightarrow> PathKeysComparison" where
  "keys_compare p q \<equiv> compare_pathkeys (policy_pathkeys p) (policy_pathkeys q)"

abbreviation outer_compare :: "Path \<Rightarrow> Path \<Rightarrow> BMS_Comparison" where
  "outer_compare p q \<equiv> bms_subset_compare (PATH_REQ_OUTER p) (PATH_REQ_OUTER q)"

lemma outer_le1: "outer_compare p q = BMS_EQUAL \<or> outer_compare p q = BMS_SUBSET1 \<Longrightarrow>
    members (PATH_REQ_OUTER p) \<subseteq> members (PATH_REQ_OUTER q)"
  by (auto simp: relids.compare_cases)

lemma outer_le2: "outer_compare p q = BMS_EQUAL \<or> outer_compare p q = BMS_SUBSET2 \<Longrightarrow>
    members (PATH_REQ_OUTER q) \<subseteq> members (PATH_REQ_OUTER p)"
  by (auto simp: relids.compare_cases)

lemma merits_le1:
  assumes "keys_compare p q \<noteq> PATHKEYS_DIFFERENT" "keys_compare p q \<noteq> PATHKEYS_BETTER2"
    and "outer_compare p q = BMS_EQUAL \<or> outer_compare p q = BMS_SUBSET1"
    and "rows p \<le> rows q" "parallel_safe p \<ge> parallel_safe q"
  shows "merits_le p q"
  using assms compare_pathkeys_no_worse1 outer_le1 by (auto simp: merits_le_def safe_rows_le_def)

lemma merits_le2:
  assumes "keys_compare p q \<noteq> PATHKEYS_DIFFERENT" "keys_compare p q \<noteq> PATHKEYS_BETTER1"
    and "outer_compare p q = BMS_EQUAL \<or> outer_compare p q = BMS_SUBSET2"
    and "rows p \<ge> rows q" "parallel_safe p \<le> parallel_safe q"
  shows "merits_le q p"
  using assms compare_pathkeys_no_worse2 outer_le2 by (auto simp: merits_le_def safe_rows_le_def)

lemma merits_le_equal:
  assumes "keys_compare p q \<noteq> PATHKEYS_DIFFERENT" "keys_compare p q \<noteq> PATHKEYS_BETTER2"
    "keys_compare p q \<noteq> PATHKEYS_BETTER1" "outer_compare p q = BMS_EQUAL"
  shows "safe_rows_le p q \<Longrightarrow> merits_le p q" and "safe_rows_le q p \<Longrightarrow> merits_le q p"
  using assms compare_pathkeys_no_worse1 compare_pathkeys_no_worse2
  by (auto simp: merits_le_def relids.compare_cases)

lemma equal_costs_verdict:
  assumes "keys_compare new old \<noteq> PATHKEYS_DIFFERENT"
  shows "fst (add_path_equal_costs new old (keys_compare new old)) \<Longrightarrow> merits_le new old"
    and "\<not> snd (add_path_equal_costs new old (keys_compare new old)) \<Longrightarrow> merits_le old new"
proof -
  show "merits_le new old" if "fst (add_path_equal_costs new old (keys_compare new old))"
    using that assms
    by (auto simp: add_path_equal_costs_def Let_def safe_rows_le_def split: if_splits
        intro: merits_le1 merits_le_equal(1))
  show "merits_le old new" if "\<not> snd (add_path_equal_costs new old (keys_compare new old))"
    using that assms
    by (auto simp: add_path_equal_costs_def Let_def safe_rows_le_def split: if_splits
        intro: merits_le2 merits_le_equal(2))
qed

lemma equal_costs_exclusive: "fst (add_path_equal_costs new old k) \<Longrightarrow> snd (add_path_equal_costs new old k)"
  by (auto simp: add_path_equal_costs_def Let_def split: if_splits)

lemma add_path_verdict_remove:
  assumes "fst (add_path_verdict new old)"
  shows "merits_le new old \<and>
    (compare_path_costs_fuzzily new old STD_FUZZ_FACTOR = COSTS_EQUAL \<or>
     compare_path_costs_fuzzily new old STD_FUZZ_FACTOR = COSTS_BETTER1)"
  using assms unfolding add_path_verdict_def Let_def
  by (auto split: if_splits PathCostComparison.splits intro: merits_le1 equal_costs_verdict(1))

lemma add_path_verdict_reject:
  assumes "\<not> snd (add_path_verdict new old)"
  shows "merits_le old new \<and>
    (compare_path_costs_fuzzily new old STD_FUZZ_FACTOR = COSTS_EQUAL \<or>
     compare_path_costs_fuzzily new old STD_FUZZ_FACTOR = COSTS_BETTER2)"
  using assms unfolding add_path_verdict_def Let_def
  by (auto split: if_splits PathCostComparison.splits intro: merits_le2 equal_costs_verdict(2))

lemma add_path_verdict_exclusive: "fst (add_path_verdict new old) \<Longrightarrow> snd (add_path_verdict new old)"
  by (simp add: add_path_verdict_def Let_def equal_costs_exclusive split: if_splits PathCostComparison.splits)

interpretation add_path: path_tournament add_path_verdict "path_ok cs cps" path_dominates for cs cps
proof
  show "snd (add_path_verdict p q)" if "fst (add_path_verdict p q)" for p q
    using that by (rule add_path_verdict_exclusive)
  show "path_dominates 1 new old"
    if "path_ok cs cps new" "path_ok cs cps old" "fst (add_path_verdict new old)" for new old
    using add_path_verdict_remove [OF that(3)] fuzzy_not_worse1 [of new old STD_FUZZ_FACTOR]
    by (auto simp: path_dominates_def costs_le_def)
  show "path_dominates 1 old new"
    if "path_ok cs cps new" "path_ok cs cps old" "\<not> snd (add_path_verdict new old)" for new old
    using add_path_verdict_reject [OF that(3)] fuzzy_not_worse2 [of new old STD_FUZZ_FACTOR] that(2)
    by (auto simp: path_dominates_def costs_le_def path_ok_def)
  show "path_dominates 0 p p" for p by (simp add: path_dominates_def merits_le_refl costs_le_refl)
  show "path_dominates (j + k) p r"
    if "path_ok cs cps p" "path_ok cs cps q" "path_ok cs cps r" "path_dominates j p q" "path_dominates k q r"
    for p q r j k
    using that by (rule path_dominates_trans)
  show "path_dominates k p q" if "path_ok cs cps p" "path_ok cs cps q" "path_dominates j p q" "j \<le> k" for p q j k
    using that by (blast intro: path_dominates_mono)
qed

text \<open>Partial paths: no parameterization, no row counts, no startup cost.\<close>

definition partial_dominates :: "nat \<Rightarrow> Path \<Rightarrow> Path \<Rightarrow> bool" where
  "partial_dominates k p q \<longleftrightarrow>
     is_prefix (pathkeys q) (pathkeys p) \<and> total_cost p \<le> STD_FUZZ_FACTOR ^ k * total_cost q"

lemma partial_verdict_remove:
  "fst (add_partial_path_verdict new old) \<Longrightarrow> partial_dominates 1 new old"
  unfolding add_partial_path_verdict_def Let_def
  by (auto split: if_splits simp: partial_dominates_def mult.commute
      intro: compare_pathkeys_no_worse1)

lemma partial_verdict_reject:
  assumes "\<not> snd (add_partial_path_verdict new old)" "0 \<le> total_cost old"
  shows "partial_dominates 1 old new"
  using assms fuzzy_scale [of "total_cost old" STD_FUZZ_FACTOR "total_cost new"]
  unfolding add_partial_path_verdict_def Let_def
  by (auto split: if_splits simp: partial_dominates_def mult.commute not_less
      intro: compare_pathkeys_no_worse2)

interpretation add_partial_path: path_tournament add_partial_path_verdict "\<lambda>p. 0 \<le> total_cost p" partial_dominates
proof
  show "snd (add_partial_path_verdict p q)" if "fst (add_partial_path_verdict p q)" for p q
    using that by (auto simp: add_partial_path_verdict_def Let_def split: if_splits)
  show "partial_dominates 1 new old" if "fst (add_partial_path_verdict new old)" for new old
    using that by (rule partial_verdict_remove)
  show "partial_dominates 1 old new" if "0 \<le> total_cost old" "\<not> snd (add_partial_path_verdict new old)" for new old
    using that by (blast intro: partial_verdict_reject)
  show "partial_dominates 0 p p" for p by (simp add: partial_dominates_def)
  show "partial_dominates (j + k) p r" if "partial_dominates j p q" "partial_dominates k q r" for p q r j k
  proof -
    have "STD_FUZZ_FACTOR ^ j * total_cost q \<le> STD_FUZZ_FACTOR ^ j * (STD_FUZZ_FACTOR ^ k * total_cost r)"
      using that(2) by (intro mult_left_mono) (auto simp: partial_dominates_def)
    then have "total_cost p \<le> STD_FUZZ_FACTOR ^ j * (STD_FUZZ_FACTOR ^ k * total_cost r)"
      using that(1) unfolding partial_dominates_def by linarith
    with that show ?thesis
      by (auto simp: partial_dominates_def power_add mult.assoc intro: is_prefix_trans)
  qed
  show "partial_dominates k p q" if "0 \<le> total_cost q" "partial_dominates j p q" "j \<le> k" for p q j k
  proof -
    have "STD_FUZZ_FACTOR ^ j * total_cost q \<le> STD_FUZZ_FACTOR ^ k * total_cost q"
      using that by (intro mult_right_mono power_increasing) auto
    with that(2) show ?thesis by (auto simp: partial_dominates_def)
  qed
qed

subsection \<open>The prechecks\<close>

text \<open>What the precheck looks for in one old path.\<close>

definition precheck_dominated ::
  "bool \<Rightarrow> cost \<Rightarrow> cost \<Rightarrow> address list \<Rightarrow> Bitmapset option \<Rightarrow> Path \<Rightarrow> bool" where
  "precheck_dominated consider s t keys outer old \<longleftrightarrow>
     t > total_cost old * STD_FUZZ_FACTOR \<and> (s > startup_cost old * STD_FUZZ_FACTOR \<or> \<not> consider) \<and>
     pathkeys_contained_in keys (policy_pathkeys old) \<and> members outer = members (PATH_REQ_OUTER old)"

lemma precheck_loop_found:
  "\<not> add_path_precheck_loop consider s t keys outer ps \<Longrightarrow> \<exists>old \<in> set ps. precheck_dominated consider s t keys outer old"
  by (induction ps)
    (auto simp: precheck_dominated_def pathkeys_contained_in_def relids.same_ids Let_def
      split: if_splits PathKeysComparison.splits)

lemma precheck_loop_sorted:
  "cost_sorted ps \<Longrightarrow>
     add_path_precheck_loop consider s t keys outer ps \<longleftrightarrow> \<not> (\<exists>old \<in> set ps. precheck_dominated consider s t keys outer old)"
proof (induction ps)
  case (Cons p ps)
  show ?case
  proof (cases "t > total_cost p * STD_FUZZ_FACTOR")
    case True
    have "pathkeys_contained_in keys (policy_pathkeys p) \<longleftrightarrow>
        compare_pathkeys keys (policy_pathkeys p) = PATHKEYS_EQUAL \<or> compare_pathkeys keys (policy_pathkeys p) = PATHKEYS_BETTER2"
      by (simp add: pathkeys_contained_in_def split: PathKeysComparison.split)
    with True have "add_path_precheck_loop consider s t keys outer (p # ps) \<longleftrightarrow>
        \<not> precheck_dominated consider s t keys outer p \<and> add_path_precheck_loop consider s t keys outer ps"
      by (simp add: precheck_dominated_def relids.same_ids Let_def)
    with Cons show ?thesis by simp
  next
    case False
    have "\<not> t > total_cost q * STD_FUZZ_FACTOR" if "q \<in> set (p # ps)" for q
    proof -
      have "total_cost p \<le> total_cost q" using that Cons.prems by auto
      then have "total_cost p * STD_FUZZ_FACTOR \<le> total_cost q * STD_FUZZ_FACTOR" by (intro mult_right_mono) auto
      with False show ?thesis by linarith
    qed
    with False show ?thesis by (auto simp: precheck_dominated_def)
  qed
qed simp

text \<open>The path that is to be built after a precheck with the given arguments.\<close>

definition path_for_precheck ::
  "RelOptInfo \<Rightarrow> cost \<Rightarrow> cost \<Rightarrow> address list \<Rightarrow> Bitmapset option \<Rightarrow> Path \<Rightarrow> bool" where
  "path_for_precheck rel s t keys outer new \<longleftrightarrow>
     parent_consider_startup new = consider_startup rel \<and>
     parent_consider_param_startup new = consider_param_startup rel \<and>
     s \<le> startup_cost new \<and> t \<le> total_cost new \<and> pathkeys new = keys \<and>
     PATH_REQ_OUTER new = outer \<and> (param_info new \<noteq> None \<longleftrightarrow> outer \<noteq> None)"

lemma precheck_dominated_costs:
  assumes "precheck_dominated (if outer \<noteq> None then consider_param_startup rel else consider_startup rel)
      s t (if outer \<noteq> None then [] else keys) outer old"
    and new: "path_for_precheck rel s t keys outer new"
    and old: "0 \<le> startup_cost old"
  shows "compare_path_costs_fuzzily new old STD_FUZZ_FACTOR = COSTS_BETTER2"
proof -
  have cons: "CONSIDER_PATH_STARTUP_COST new = (if outer \<noteq> None then consider_param_startup rel else consider_startup rel)"
    using new by (auto simp: CONSIDER_PATH_STARTUP_COST_def path_for_precheck_def)
  have total: "total_cost new > total_cost old * STD_FUZZ_FACTOR"
    using assms by (auto simp: precheck_dominated_def path_for_precheck_def)
  have "\<not> (CONSIDER_PATH_STARTUP_COST new \<and> startup_cost old > startup_cost new * STD_FUZZ_FACTOR)"
  proof (cases "CONSIDER_PATH_STARTUP_COST new")
    case True
    then have "startup_cost old * STD_FUZZ_FACTOR < startup_cost new"
      using assms(1) cons new by (auto simp: precheck_dominated_def path_for_precheck_def)
    then show ?thesis using fuzzy_scale [of "startup_cost old" STD_FUZZ_FACTOR "startup_cost new"] old
      by (simp add: mult.commute)
  qed simp
  then show ?thesis using total by (auto simp: compare_path_costs_fuzzily_def)
qed

lemma precheck_dominated_reject:
  assumes "precheck_dominated (if outer \<noteq> None then consider_param_startup rel else consider_startup rel)
      s t (if outer \<noteq> None then [] else keys) outer old"
    and new: "path_for_precheck rel s t keys outer new"
    and old: "0 \<le> startup_cost old" "rows old \<le> rows new" "parallel_safe new \<le> parallel_safe old"
  shows "\<not> snd (add_path_verdict new old)"
proof -
  have keys: "policy_pathkeys new = (if outer \<noteq> None then [] else keys)"
    using new by (auto simp: policy_pathkeys_def path_for_precheck_def)
  have "compare_path_costs_fuzzily new old STD_FUZZ_FACTOR = COSTS_BETTER2"
    using precheck_dominated_costs [OF assms(1) new old(1)] .
  moreover have "keys_compare new old = PATHKEYS_EQUAL \<or> keys_compare new old = PATHKEYS_BETTER2"
    using assms(1) keys by (auto simp: precheck_dominated_def pathkeys_contained_in_def split: PathKeysComparison.splits)
  moreover have "outer_compare new old = BMS_EQUAL"
    using assms(1) new by (auto simp: precheck_dominated_def path_for_precheck_def relids.compare_cases)
  ultimately show ?thesis using old by (auto simp: add_path_verdict_def)
qed

subsection \<open>Properties\<close>

text \<open>A relation as path generation starts it.\<close>

definition empty_rel :: "bool \<Rightarrow> bool \<Rightarrow> RelOptInfo" where
  "empty_rel cs cps =
     \<lparr>consider_startup = cs, consider_param_startup = cps, pathlist = [], partial_pathlist = [],
      cheapest_startup_path = None, cheapest_total_path = None, cheapest_unique_path = None,
      cheapest_parameterized_paths = [], cheapest_cost_explore_pathlist = [], best_cost = 0\<rparr>"

lemma empty_rel_simps [simp]:
  "pathlist (empty_rel cs cps) = []" "partial_pathlist (empty_rel cs cps) = []"
  "consider_startup (empty_rel cs cps) = cs" "consider_param_startup (empty_rel cs cps) = cps"
  by (simp_all add: empty_rel_def)

definition add_paths :: "RelOptInfo \<Rightarrow> Path list \<Rightarrow> RelOptInfo" where
  "add_paths rel news = foldl (\<lambda>rel new. fst (add_path rel new)) rel news"

lemma add_path_pathlist:
  "pathlist (fst (add_path rel new)) = fst (tournament add_path_verdict (\<lambda>p. \<not> is_IndexPath p) new (pathlist rel))"
  "snd (add_path rel new) = snd (tournament add_path_verdict (\<lambda>p. \<not> is_IndexPath p) new (pathlist rel))"
  by (simp_all add: add_path_def split: prod.split)

lemma add_paths_pathlist:
  "pathlist (add_paths rel news) = offer_all add_path_verdict (\<lambda>p. \<not> is_IndexPath p) news (pathlist rel)"
  by (induction news arbitrary: rel) (simp_all add: add_paths_def add_path_pathlist)

text \<open>\<^verbatim>\<open>add_path\<close> keeps the list sorted by total cost, which its comment promises and the
  precheck relies on, and never leaves it empty.\<close>

lemma add_path_keeps_sorted:
  assumes "cost_sorted (pathlist rel)"
  shows "cost_sorted (pathlist (fst (add_path rel new))) \<and> pathlist (fst (add_path rel new)) \<noteq> []"
  using assms by (simp add: add_path_pathlist tournament_sorted add_path.nonempty)

text \<open>C20: starting from an empty relation and offering any sequence of well-formed paths to
  \<^verbatim>\<open>add_path\<close>, each path of the sequence is dominated by one that is kept: no more outer relations,
  a sort order at least as good, parallel safety and row count no worse, and costs within the standard
  fuzz factor to the power of twice the number of calls.\<close>

theorem add_paths_complete:
  assumes "\<forall>p \<in> set news. path_ok cs cps p" "p \<in> set news"
  shows "\<exists>q \<in> set (pathlist (add_paths (empty_rel cs cps) news)). path_dominates (2 * length news) q p"
  using assms add_path.offer_all_complete [of "[]" news cs cps p] by (simp add: add_paths_pathlist)

theorem add_paths_complete_witness:
  "\<exists>q \<in> set (pathlist (add_paths (empty_rel True False) [sample_path 1 5 100 0, sample_path 2 1 200 0])).
     path_dominates 4 q (sample_path 2 1 200 0)"
  using add_paths_complete [of "[sample_path 1 5 100 0, sample_path 2 1 200 0]" True False "sample_path 2 1 200 0"]
  by (simp add: path_ok_def sample_path_def)

text \<open>One call of \<^verbatim>\<open>add_path\<close> loses nothing of value: the new path and every old one is
  dominated by a path of the resulting list within the square of the standard fuzz factor, and every path
  of that list is the new one or an old one.\<close>

lemma add_path_complete:
  assumes "path_ok cs cps new" "\<forall>p \<in> set (pathlist rel). path_ok cs cps p" "p \<in> insert new (set (pathlist rel))"
  shows "(\<exists>q \<in> set (pathlist (fst (add_path rel new))). path_dominates 2 q p) \<and>
    set (pathlist (fst (add_path rel new))) \<subseteq> insert new (set (pathlist rel))"
  using assms add_path.complete [of cs cps new "pathlist rel" p] by (simp add: add_path_pathlist tournament_subset)

text \<open>C27: memory safety of the recycling: when the paths offered and kept are distinct objects, the
  resulting list has distinct objects, none of them released; and exactly the paths that are not in the
  list any more and are not index paths are released.\<close>

theorem add_path_releases:
  assumes "distinct (map path_addr (new # pathlist rel))"
  shows "distinct (map path_addr (pathlist (fst (add_path rel new)))) \<and>
    path_addr ` set (snd (add_path rel new)) \<inter> path_addr ` set (pathlist (fst (add_path rel new))) = {} \<and>
    set (snd (add_path rel new)) =
      {p \<in> insert new (set (pathlist rel)). \<not> is_IndexPath p \<and> p \<notin> set (pathlist (fst (add_path rel new)))}"
proof (intro conjI)
  show "distinct (map path_addr (pathlist (fst (add_path rel new))))"
    unfolding add_path_pathlist using assms by (rule tournament_distinct)
  show "path_addr ` set (snd (add_path rel new)) \<inter> path_addr ` set (pathlist (fst (add_path rel new))) = {}"
    unfolding add_path_pathlist using tournament_released [OF assms] by blast
  show "set (snd (add_path rel new)) =
      {p \<in> insert new (set (pathlist rel)). \<not> is_IndexPath p \<and> p \<notin> set (pathlist (fst (add_path rel new)))}"
    unfolding add_path_pathlist using assms by (rule tournament_released_set)
qed

theorem add_path_releases_witness:
  "path_addr ` set (snd (add_path (empty_rel True False) (sample_path 1 5 100 0))) \<inter>
     path_addr ` set (pathlist (fst (add_path (empty_rel True False) (sample_path 1 5 100 0)))) = {}"
proof -
  have "distinct (map path_addr (sample_path 1 5 100 0 # pathlist (empty_rel True False)))" by simp
  from add_path_releases [OF this] show ?thesis by blast
qed

text \<open>C28: on a sorted list the early exit of \<^verbatim>\<open>add_path_precheck\<close> does not change its answer: it
  returns false exactly if some path of the whole list has the same parameterization, a sort order at
  least as good and fuzzily better costs.\<close>

theorem add_path_precheck_exact:
  assumes "cost_sorted (pathlist rel)"
  shows "add_path_precheck rel s t keys outer \<longleftrightarrow>
    \<not> (\<exists>old \<in> set (pathlist rel).
        t > total_cost old * STD_FUZZ_FACTOR \<and>
        (s > startup_cost old * STD_FUZZ_FACTOR \<or>
         \<not> (if outer \<noteq> None then consider_param_startup rel else consider_startup rel)) \<and>
        pathkeys_contained_in (if outer \<noteq> None then [] else keys) (policy_pathkeys old) \<and>
        members outer = members (PATH_REQ_OUTER old))"
  unfolding add_path_precheck_def precheck_loop_sorted [OF assms] precheck_dominated_def ..

theorem add_path_precheck_exact_witness:
  "\<not> add_path_precheck (add_paths (empty_rel True False) [sample_path 1 5 100 0]) 6 200 [] None"
  using add_path_precheck_exact [of "add_paths (empty_rel True False) [sample_path 1 5 100 0]" 6 200 "[]" None]
  by (simp add: add_paths_pathlist tournament_def tournament_finish_def sample_path_def
      STD_FUZZ_FACTOR_def PATH_REQ_OUTER_def pathkeys_contained_in_def policy_pathkeys_def)

text \<open>C29: when the precheck of \<^verbatim>\<open>add_path\<close> is safe. If it turns a path away, there is an old path of the same parameterization that is
  cheaper by more than the fuzz factor, and \<^verbatim>\<open>add_path\<close> would accept the path built from the same data, with costs at least the given
  bounds, only if that path has fewer rows than the old one or is parallel-safe while the old one is not. The comment of the precheck
  assumes the row counts to be equal; parallel safety it does not mention, and \<open>add_path_precheck_parallel_gap\<close> shows that it matters.\<close>

theorem add_path_precheck_sound:
  assumes "\<not> add_path_precheck rel s t keys outer" "path_for_precheck rel s t keys outer new"
    and "\<forall>old \<in> set (pathlist rel). 0 \<le> startup_cost old" "new \<notin> set (pathlist rel)"
  shows "\<exists>old \<in> set (pathlist rel). members (PATH_REQ_OUTER old) = members outer \<and> total_cost old * STD_FUZZ_FACTOR < total_cost new \<and>
    (new \<in> set (pathlist (fst (add_path rel new))) \<longrightarrow> rows new < rows old \<or> parallel_safe new \<and> \<not> parallel_safe old)"
proof -
  obtain old where old: "old \<in> set (pathlist rel)"
    "precheck_dominated (if outer \<noteq> None then consider_param_startup rel else consider_startup rel)
       s t (if outer \<noteq> None then [] else keys) outer old"
    using assms(1) precheck_loop_found unfolding add_path_precheck_def by blast
  have "new \<notin> set (pathlist (fst (add_path rel new)))" if "rows old \<le> rows new" "parallel_safe new \<longrightarrow> parallel_safe old"
  proof -
    have "\<not> snd (add_path_verdict new old)"
      using old(1) assms(3) that by (intro precheck_dominated_reject [OF old(2) assms(2)]) auto
    then have "\<not> list_all (\<lambda>p. snd (add_path_verdict new p)) (pathlist rel)" using old(1) by (auto simp: list_all_iff)
    then show ?thesis
      using assms(4) kept_subset [of "add_path_verdict new" "pathlist rel"]
      by (auto simp: add_path_pathlist tournament_set)
  qed
  moreover have "members (PATH_REQ_OUTER old) = members outer" "total_cost old * STD_FUZZ_FACTOR < total_cost new"
    using old(2) assms(2) by (auto simp: precheck_dominated_def path_for_precheck_def)
  ultimately show ?thesis using old(1) by (meson not_less)
qed

theorem add_path_precheck_sound_witness:
  "sample_path 2 7 250 0 \<notin> set (pathlist (fst (add_path (add_paths (empty_rel True False) [sample_path 1 5 100 0])
     (sample_path 2 7 250 0))))"
proof -
  let ?rel = "add_paths (empty_rel True False) [sample_path 1 5 100 0]"
  have rel: "pathlist ?rel = [sample_path 1 5 100 0]" "consider_startup ?rel" "\<not> consider_param_startup ?rel"
    by (simp_all add: add_paths_def add_path_def tournament_def tournament_finish_def split: prod.split)
  have "\<not> add_path_precheck ?rel 6 200 [] None" "path_for_precheck ?rel 6 200 [] None (sample_path 2 7 250 0)"
    using rel by (simp_all add: add_path_precheck_def path_for_precheck_def sample_path_def STD_FUZZ_FACTOR_def PATH_REQ_OUTER_def
        policy_pathkeys_def bms_equal_def)
  from add_path_precheck_sound [OF this] rel(1) show ?thesis by (auto simp: sample_path_def)
qed

text \<open>The exception is real: the precheck turns away a parallel-safe path because of a cheaper path that is not parallel-safe, although
  \<^verbatim>\<open>add_path\<close> would keep both.\<close>

lemma add_path_precheck_parallel_gap:
  "\<exists>rel new. \<not> add_path_precheck rel (startup_cost new) (total_cost new) (pathkeys new) (PATH_REQ_OUTER new) \<and>
     path_for_precheck rel (startup_cost new) (total_cost new) (pathkeys new) (PATH_REQ_OUTER new) new \<and>
     new \<notin> set (pathlist rel) \<and> new \<in> set (pathlist (fst (add_path rel new)))"
proof -
  let ?rel = "(empty_rel True False)\<lparr>pathlist := [(sample_path 1 5 100 0)\<lparr>parallel_safe := False\<rparr>]\<rparr>" and ?new = "sample_path 2 7 250 0"
  have "\<not> add_path_precheck ?rel 7 250 [] None" "path_for_precheck ?rel 7 250 [] None ?new"
    by (simp_all add: add_path_precheck_def path_for_precheck_def sample_path_def STD_FUZZ_FACTOR_def PATH_REQ_OUTER_def
        policy_pathkeys_def bms_equal_def)
  moreover have "?new \<in> set (pathlist (fst (add_path ?rel ?new)))"
    by (simp add: add_path_pathlist tournament_def tournament_finish_def add_path_verdict_def sample_path_def compare_path_costs_fuzzily_def
        STD_FUZZ_FACTOR_def CONSIDER_PATH_STARTUP_COST_def PATH_REQ_OUTER_def policy_pathkeys_def)
  ultimately show ?thesis by (intro exI [of _ ?rel] exI [of _ ?new]) (simp add: sample_path_def PATH_REQ_OUTER_def)
qed

text \<open>C30: the list of partial paths: sorted by total cost, never empty after a call, and every partial
  path offered is dominated on sort order and total cost, within the square of the fuzz factor, by a kept
  one.\<close>

theorem add_partial_path_complete:
  assumes "cost_sorted (partial_pathlist rel)" "0 \<le> total_cost new" "\<forall>p \<in> set (partial_pathlist rel). 0 \<le> total_cost p"
    and "p \<in> insert new (set (partial_pathlist rel))"
  shows "cost_sorted (partial_pathlist (fst (add_partial_path rel new))) \<and>
    (\<exists>q \<in> set (partial_pathlist (fst (add_partial_path rel new))).
       pathkeys_contained_in (pathkeys p) (pathkeys q) \<and> total_cost q \<le> STD_FUZZ_FACTOR ^ 2 * total_cost p)"
proof -
  have "partial_pathlist (fst (add_partial_path rel new)) =
      fst (tournament add_partial_path_verdict (\<lambda>p. True) new (partial_pathlist rel))"
    by (simp add: add_partial_path_def split: prod.split)
  then show ?thesis
    using assms tournament_sorted add_partial_path.complete [of new "partial_pathlist rel" p "\<lambda>p. True"]
    by (auto simp: partial_dominates_def pathkeys_contained_in_iff)
qed

theorem add_partial_path_complete_witness:
  "\<exists>q \<in> set (partial_pathlist (fst (add_partial_path (empty_rel True False) (sample_path 1 5 100 0)))).
     total_cost q \<le> STD_FUZZ_FACTOR ^ 2 * total_cost (sample_path 1 5 100 0)"
  using add_partial_path_complete [of "empty_rel True False" "sample_path 1 5 100 0" "sample_path 1 5 100 0"]
  by (auto simp: sample_path_def)

end
