(* ===== verification/ExplorePath.thy ===== *)
theory ExplorePath
  imports AddPath
begin

text \<open>
  The exploratory variants of path generation (\<^verbatim>\<open>src/backend/optimizer/util/pathnode.c\<close>):
  \<^verbatim>\<open>add_path_explore\<close>, which weighs the exploration value of a path against its cost and prunes
  paths that are too expensive for the best predicted cost of the query, and
  \<^verbatim>\<open>add_path_precheck_explore\<close>.

  The lemmas interpret the tournament contract with a dominance relation that includes the exploration
  value, and show what pruning may lose.
\<close>

subsection \<open>The verdict\<close>

definition explore_equal_all :: "Path \<Rightarrow> Path \<Rightarrow> PathKeysComparison \<Rightarrow> BMS_Comparison \<Rightarrow> bool \<times> bool" where
  "explore_equal_all new_path old_path keyscmp outercmp =
     (if keyscmp = PATHKEYS_BETTER1 then
        (if (outercmp = BMS_EQUAL \<or> outercmp = BMS_SUBSET1) \<and> rows new_path \<le> rows old_path \<and>
            parallel_safe new_path \<ge> parallel_safe old_path
         then (True, True) else (False, True))
      else if keyscmp = PATHKEYS_BETTER2 then
        (if (outercmp = BMS_EQUAL \<or> outercmp = BMS_SUBSET2) \<and> rows new_path \<ge> rows old_path \<and>
            parallel_safe new_path \<le> parallel_safe old_path
         then (False, False) else (False, True))
      else if outercmp = BMS_EQUAL then
        (if parallel_safe new_path > parallel_safe old_path then (True, True)
         else if parallel_safe new_path < parallel_safe old_path then (False, False)
         else if rows new_path < rows old_path then (True, True)
         else if rows new_path > rows old_path then (False, False)
         else if compare_path_costs_fuzzily new_path old_path (10000000001 / 10000000000) = COSTS_BETTER1
         then (True, True)
         else if compare_path_costs_fuzzily new_path old_path (10000000001 / 10000000000) = COSTS_BETTER2
         then (False, False)
         else if compare_path_explore_value_fuzzily new_path old_path (101 / 100) = 1 then (True, True)
         else (False, False))
      else if outercmp = BMS_SUBSET1 \<and> rows new_path \<le> rows old_path \<and>
          parallel_safe new_path \<ge> parallel_safe old_path then (True, True)
      else if outercmp = BMS_SUBSET2 \<and> rows new_path \<ge> rows old_path \<and>
          parallel_safe new_path \<le> parallel_safe old_path then (False, False)
      else (False, True))"

definition explore_equal_costs :: "Path \<Rightarrow> Path \<Rightarrow> PathKeysComparison \<Rightarrow> int \<Rightarrow> bool \<times> bool" where
  "explore_equal_costs new_path old_path keyscmp evcmp =
     (let outercmp = bms_subset_compare (PATH_REQ_OUTER new_path) (PATH_REQ_OUTER old_path) in
      if evcmp = 0 then explore_equal_all new_path old_path keyscmp outercmp
      else if evcmp = 1 then
        (if keyscmp \<noteq> PATHKEYS_BETTER2 \<and>
            (outercmp = BMS_EQUAL \<or> outercmp = BMS_SUBSET1) \<and> rows new_path \<le> rows old_path \<and>
            parallel_safe new_path \<ge> parallel_safe old_path \<and>
            compare_path_costs_fuzzily new_path old_path (100009 / 100000) \<noteq> COSTS_BETTER2
         then (True, True) else (False, True))
      else
        (if keyscmp \<noteq> PATHKEYS_BETTER1 \<and>
            (outercmp = BMS_EQUAL \<or> outercmp = BMS_SUBSET2) \<and> rows new_path \<ge> rows old_path \<and>
            parallel_safe new_path \<le> parallel_safe old_path \<and>
            compare_path_costs_fuzzily new_path old_path (100009 / 100000) \<noteq> COSTS_BETTER1
         then (False, False) else (False, True)))"

definition ev_fuzzy_r :: real where "ev_fuzzy_r = 11 / 10"

definition add_path_explore_verdict :: "Path \<Rightarrow> Path \<Rightarrow> bool \<times> bool" where
  "add_path_explore_verdict new_path old_path =
     (let costcmp = compare_path_costs_fuzzily new_path old_path STD_FUZZ_FACTOR;
          evcmp = compare_path_explore_value_fuzzily new_path old_path ev_fuzzy_r in
      if costcmp \<noteq> COSTS_DIFFERENT then
        let keyscmp = compare_pathkeys (policy_pathkeys new_path) (policy_pathkeys old_path) in
        if keyscmp \<noteq> PATHKEYS_DIFFERENT then
          (case costcmp of
             COSTS_EQUAL \<Rightarrow> explore_equal_costs new_path old_path keyscmp evcmp
           | COSTS_BETTER1 \<Rightarrow>
               if evcmp \<ge> 0 \<and> keyscmp \<noteq> PATHKEYS_BETTER2 then
                 let outercmp = bms_subset_compare (PATH_REQ_OUTER new_path) (PATH_REQ_OUTER old_path) in
                 if (outercmp = BMS_EQUAL \<or> outercmp = BMS_SUBSET1) \<and> rows new_path \<le> rows old_path \<and>
                    parallel_safe new_path \<ge> parallel_safe old_path
                 then (True, True) else (False, True)
               else (False, True)
           | COSTS_BETTER2 \<Rightarrow>
               if evcmp \<le> 0 \<and> keyscmp \<noteq> PATHKEYS_BETTER1 then
                 let outercmp = bms_subset_compare (PATH_REQ_OUTER new_path) (PATH_REQ_OUTER old_path) in
                 if (outercmp = BMS_EQUAL \<or> outercmp = BMS_SUBSET2) \<and> rows new_path \<ge> rows old_path \<and>
                    parallel_safe new_path \<le> parallel_safe old_path
                 then (False, False) else (False, True)
               else (False, True)
           | COSTS_DIFFERENT \<Rightarrow> (False, True))
        else (False, True)
      else (False, True))"

subsection \<open>Adding a path\<close>

text \<open>
  The test before the loop: whether to run the loop (\<^verbatim>\<open>need_continue\<close>), the flag
  \<^verbatim>\<open>accept_new\<close> and the relation with its best cost.
\<close>

definition explore_prune_test :: "RelOptInfo \<Rightarrow> Path \<Rightarrow> cost \<Rightarrow> real \<Rightarrow> bool \<times> bool \<times> RelOptInfo" where
  "explore_prune_test parent_rel new_path best_pred_cost_of_query prune_rate =
     (if best_pred_cost_of_query = 0 \<or> pathlist parent_rel = [] \<or> total_cost new_path < best_cost parent_rel then
        (True, True,
         if pathlist parent_rel = [] \<or> total_cost new_path < best_cost parent_rel
         then parent_rel\<lparr>best_cost := total_cost new_path\<rparr> else parent_rel)
      else if best_pred_cost_of_query > 0 then
        (if total_cost new_path \<le> best_pred_cost_of_query * prune_rate then (True, True, parent_rel)
         else (False, False, parent_rel))
      else (False, True, parent_rel))"

definition add_path_explore :: "RelOptInfo \<Rightarrow> Path \<Rightarrow> cost \<Rightarrow> real \<Rightarrow> RelOptInfo \<times> Path list" where
  "add_path_explore parent_rel new_path best_pred_cost_of_query prune_rate =
     (let (need_continue, accept_new, parent_rel) =
            explore_prune_test parent_rel new_path best_pred_cost_of_query prune_rate;
          loop = (if need_continue
                  then tournament_loop (add_path_explore_verdict new_path) (\<lambda>p. \<not> is_IndexPath p)
                         (total_cost new_path) [] 0 [] (pathlist parent_rel)
                  else (accept_new, 0, pathlist parent_rel, []));
          (paths, freed) = tournament_finish (\<lambda>p. \<not> is_IndexPath p) new_path loop
      in (parent_rel\<lparr>pathlist := paths\<rparr>, freed))"

fun precheck_explore_loop ::
  "bool \<Rightarrow> cost \<Rightarrow> cost \<Rightarrow> address list \<Rightarrow> Bitmapset option \<Rightarrow> real \<Rightarrow> Path list \<Rightarrow> bool" where
  "precheck_explore_loop consider s t new_path_pathkeys required_outer ev [] = True"
| "precheck_explore_loop consider s t new_path_pathkeys required_outer ev (old_path # rest) =
     (if t > total_cost old_path * STD_FUZZ_FACTOR then
        if (s > startup_cost old_path * STD_FUZZ_FACTOR \<or> \<not> consider) \<and> ev \<le> explore_value old_path then
          let keyscmp = compare_pathkeys new_path_pathkeys (policy_pathkeys old_path) in
          if (keyscmp = PATHKEYS_EQUAL \<or> keyscmp = PATHKEYS_BETTER2) \<and>
             bms_equal required_outer (PATH_REQ_OUTER old_path)
          then False
          else precheck_explore_loop consider s t new_path_pathkeys required_outer ev rest
        else precheck_explore_loop consider s t new_path_pathkeys required_outer ev rest
      else True)"

definition add_path_precheck_explore ::
  "RelOptInfo \<Rightarrow> cost \<Rightarrow> cost \<Rightarrow> address list \<Rightarrow> Bitmapset option \<Rightarrow> real \<Rightarrow> bool" where
  "add_path_precheck_explore parent_rel s t keys required_outer ev =
     precheck_explore_loop
       (if required_outer \<noteq> None then consider_param_startup parent_rel else consider_startup parent_rel)
       s t (if required_outer \<noteq> None then [] else keys) required_outer ev (pathlist parent_rel)"

subsection \<open>Dominance with exploration value\<close>

definition explore_dominates :: "nat \<Rightarrow> Path \<Rightarrow> Path \<Rightarrow> bool" where
  "explore_dominates k p q \<longleftrightarrow> path_dominates k p q \<and> explore_value q \<le> ev_fuzzy_r ^ k * explore_value p"

definition explore_ok :: "bool \<Rightarrow> bool \<Rightarrow> Path \<Rightarrow> bool" where
  "explore_ok cs cps p \<longleftrightarrow> path_ok cs cps p \<and> 0 \<le> explore_value p"

lemma ev_fuzzy_ge_1 [simp]: "1 \<le> ev_fuzzy_r" "0 \<le> ev_fuzzy_r" "0 < ev_fuzzy_r"
  by (simp_all add: ev_fuzzy_r_def)

lemma explore_equal_all_verdict:
  assumes "keys_compare new old \<noteq> PATHKEYS_DIFFERENT"
  shows "fst (explore_equal_all new old (keys_compare new old) (outer_compare new old)) \<Longrightarrow> merits_le new old"
    and "\<not> snd (explore_equal_all new old (keys_compare new old) (outer_compare new old)) \<Longrightarrow> merits_le old new"
proof -
  show "merits_le new old" if "fst (explore_equal_all new old (keys_compare new old) (outer_compare new old))"
    using that assms
    by (auto simp: explore_equal_all_def safe_rows_le_def split: if_splits
        intro: merits_le1 merits_le_equal(1))
  show "merits_le old new" if "\<not> snd (explore_equal_all new old (keys_compare new old) (outer_compare new old))"
    using that assms
    by (auto simp: explore_equal_all_def safe_rows_le_def split: if_splits
        intro: merits_le2 merits_le_equal(2))
qed

lemma explore_equal_all_exclusive: "fst (explore_equal_all new old k c) \<Longrightarrow> snd (explore_equal_all new old k c)"
  by (auto simp: explore_equal_all_def split: if_splits)

lemma evcmp_cases:
  "compare_path_explore_value_fuzzily p q f \<in> {- 1, 0, 1}"
  by (simp add: compare_path_explore_value_fuzzily_def)

lemma evcmp_no_worse1:
  assumes "compare_path_explore_value_fuzzily p q f \<ge> 0" "0 \<le> explore_value q" "1 \<le> f"
  shows "explore_value q \<le> f * explore_value p"
  using assms fuzzy_scale [of "explore_value q" f "explore_value p"]
  by (auto simp: compare_path_explore_value_fuzzily_def mult.commute split: if_splits)

lemma evcmp_no_worse2:
  assumes "compare_path_explore_value_fuzzily p q f \<le> 0"
  shows "explore_value p \<le> f * explore_value q"
  using assms by (auto simp: compare_path_explore_value_fuzzily_def mult.commute split: if_splits)

lemma explore_equal_costs_remove:
  assumes "fst (explore_equal_costs new old (keys_compare new old) evcmp)"
    and "keys_compare new old \<noteq> PATHKEYS_DIFFERENT"
  shows "merits_le new old \<and> evcmp \<in> {0, 1}"
  using assms unfolding explore_equal_costs_def Let_def
  by (auto split: if_splits intro: explore_equal_all_verdict(1) merits_le1)

lemma explore_equal_costs_reject:
  assumes "\<not> snd (explore_equal_costs new old (keys_compare new old) evcmp)"
    and "keys_compare new old \<noteq> PATHKEYS_DIFFERENT"
  shows "merits_le old new \<and> evcmp \<noteq> 1"
  using assms unfolding explore_equal_costs_def Let_def
  by (auto split: if_splits intro: explore_equal_all_verdict(2) merits_le2)

lemma explore_equal_costs_exclusive:
  "fst (explore_equal_costs new old k e) \<Longrightarrow> snd (explore_equal_costs new old k e)"
  by (auto simp: explore_equal_costs_def Let_def explore_equal_all_exclusive split: if_splits)

lemma explore_verdict_remove:
  assumes "fst (add_path_explore_verdict new old)"
  shows "merits_le new old \<and> compare_path_explore_value_fuzzily new old ev_fuzzy_r \<ge> 0 \<and>
    (compare_path_costs_fuzzily new old STD_FUZZ_FACTOR = COSTS_EQUAL \<or>
     compare_path_costs_fuzzily new old STD_FUZZ_FACTOR = COSTS_BETTER1)"
  using assms explore_equal_costs_remove [of new old "compare_path_explore_value_fuzzily new old ev_fuzzy_r"]
  unfolding add_path_explore_verdict_def Let_def
  by (auto split: if_splits PathCostComparison.splits intro: merits_le1)

lemma explore_verdict_reject:
  assumes "\<not> snd (add_path_explore_verdict new old)"
  shows "merits_le old new \<and> compare_path_explore_value_fuzzily new old ev_fuzzy_r \<le> 0 \<and>
    (compare_path_costs_fuzzily new old STD_FUZZ_FACTOR = COSTS_EQUAL \<or>
     compare_path_costs_fuzzily new old STD_FUZZ_FACTOR = COSTS_BETTER2)"
  using assms explore_equal_costs_reject [of new old "compare_path_explore_value_fuzzily new old ev_fuzzy_r"]
    evcmp_cases [of new old ev_fuzzy_r]
  unfolding add_path_explore_verdict_def Let_def
  by (auto split: if_splits PathCostComparison.splits intro: merits_le2)

lemma explore_verdict_exclusive: "fst (add_path_explore_verdict new old) \<Longrightarrow> snd (add_path_explore_verdict new old)"
  by (cases "compare_path_costs_fuzzily new old STD_FUZZ_FACTOR")
    (auto simp: add_path_explore_verdict_def Let_def explore_equal_costs_exclusive split: if_splits)

interpretation add_path_explore: path_tournament add_path_explore_verdict "explore_ok cs cps" explore_dominates for cs cps
proof
  show "snd (add_path_explore_verdict p q)" if "fst (add_path_explore_verdict p q)" for p q
    using that by (rule explore_verdict_exclusive)
  show "explore_dominates 1 new old"
    if "explore_ok cs cps new" "explore_ok cs cps old" "fst (add_path_explore_verdict new old)" for new old
    using explore_verdict_remove [OF that(3)] fuzzy_not_worse1 [of new old STD_FUZZ_FACTOR] that(2)
      evcmp_no_worse1 [of new old ev_fuzzy_r]
    by (auto simp: explore_dominates_def path_dominates_def costs_le_def explore_ok_def)
  show "explore_dominates 1 old new"
    if "explore_ok cs cps new" "explore_ok cs cps old" "\<not> snd (add_path_explore_verdict new old)" for new old
    using explore_verdict_reject [OF that(3)] fuzzy_not_worse2 [of new old STD_FUZZ_FACTOR] that(2)
      evcmp_no_worse2 [of new old ev_fuzzy_r]
    by (auto simp: explore_dominates_def path_dominates_def costs_le_def explore_ok_def path_ok_def)
  show "explore_dominates 0 p p" for p by (simp add: explore_dominates_def add_path.dom_refl)
  show "explore_dominates (j + k) p r"
    if "explore_ok cs cps p" "explore_ok cs cps q" "explore_ok cs cps r" "explore_dominates j p q" "explore_dominates k q r"
    for p q r j k
  proof -
    have "ev_fuzzy_r ^ k * explore_value q \<le> ev_fuzzy_r ^ k * (ev_fuzzy_r ^ j * explore_value p)"
      using that(4) by (intro mult_left_mono) (auto simp: explore_dominates_def)
    also have "\<dots> = ev_fuzzy_r ^ (j + k) * explore_value p" by (simp add: power_add)
    finally have "explore_value r \<le> ev_fuzzy_r ^ (j + k) * explore_value p"
      using that(5) by (simp add: explore_dominates_def)
    then show ?thesis using that path_dominates_trans by (auto simp: explore_dominates_def explore_ok_def)
  qed
  show "explore_dominates k p q"
    if "explore_ok cs cps p" "explore_ok cs cps q" "explore_dominates j p q" "j \<le> k" for p q j k
  proof -
    have "ev_fuzzy_r ^ j * explore_value p \<le> ev_fuzzy_r ^ k * explore_value p"
      using that by (intro mult_right_mono power_increasing) (auto simp: explore_ok_def)
    then show ?thesis using that path_dominates_mono by (auto simp: explore_dominates_def explore_ok_def)
  qed
qed

subsection \<open>The loop behind the pruning test\<close>

definition explore_pruned :: "RelOptInfo \<Rightarrow> Path \<Rightarrow> cost \<Rightarrow> real \<Rightarrow> bool" where
  "explore_pruned rel new best_pred rate \<longleftrightarrow>
     0 < best_pred \<and> pathlist rel \<noteq> [] \<and> best_cost rel \<le> total_cost new \<and> best_pred * rate < total_cost new"

abbreviation explore_tournament :: "Path \<Rightarrow> Path list \<Rightarrow> Path list \<times> Path list" where
  "explore_tournament \<equiv> tournament add_path_explore_verdict (\<lambda>p. \<not> is_IndexPath p)"

lemma add_path_explore_pruned:
  assumes "explore_pruned rel new best_pred rate"
  shows "add_path_explore rel new best_pred rate = (rel, if is_IndexPath new then [] else [new])"
  using assms by (simp add: add_path_explore_def explore_prune_test_def explore_pruned_def tournament_finish_def)

lemma add_path_explore_not_pruned:
  assumes "\<not> explore_pruned rel new best_pred rate" "0 \<le> best_pred"
  shows "pathlist (fst (add_path_explore rel new best_pred rate)) = fst (explore_tournament new (pathlist rel))"
    and "snd (add_path_explore rel new best_pred rate) = snd (explore_tournament new (pathlist rel))"
  using assms
  by (auto simp: add_path_explore_def explore_prune_test_def explore_pruned_def tournament_def split: prod.split)

lemma add_path_explore_best_cost:
  "best_cost (fst (add_path_explore rel new best_pred rate)) =
     (if pathlist rel = [] \<or> total_cost new < best_cost rel then total_cost new else best_cost rel)"
  by (auto simp: add_path_explore_def explore_prune_test_def split: prod.split)

lemma add_path_explore_nonempty:
  "0 \<le> best_pred \<Longrightarrow> pathlist (fst (add_path_explore rel new best_pred rate)) \<noteq> []"
  by (cases "explore_pruned rel new best_pred rate")
    (auto simp: add_path_explore_pruned add_path_explore_not_pruned add_path_explore.nonempty explore_pruned_def)

definition add_paths_explore :: "cost \<Rightarrow> real \<Rightarrow> RelOptInfo \<Rightarrow> Path list \<Rightarrow> RelOptInfo" where
  "add_paths_explore best_pred rate rel news =
     foldl (\<lambda>rel new. fst (add_path_explore rel new best_pred rate)) rel news"

lemma add_paths_explore_simps [simp]:
  "add_paths_explore best_pred rate rel [] = rel"
  "add_paths_explore best_pred rate rel (new # news) =
     add_paths_explore best_pred rate (fst (add_path_explore rel new best_pred rate)) news"
  by (simp_all add: add_paths_explore_def)

text \<open>The paths of a sequence that reach the tournament.\<close>

fun unpruned :: "cost \<Rightarrow> real \<Rightarrow> RelOptInfo \<Rightarrow> Path list \<Rightarrow> Path list" where
  "unpruned best_pred rate rel [] = []"
| "unpruned best_pred rate rel (new # news) =
     (if explore_pruned rel new best_pred rate then [] else [new]) @
     unpruned best_pred rate (fst (add_path_explore rel new best_pred rate)) news"

lemma add_paths_explore_pathlist:
  "0 \<le> best_pred \<Longrightarrow> pathlist (add_paths_explore best_pred rate rel news) =
     offer_all add_path_explore_verdict (\<lambda>p. \<not> is_IndexPath p) (unpruned best_pred rate rel news) (pathlist rel)"
  by (induction news arbitrary: rel) (simp_all add: add_path_explore_pruned add_path_explore_not_pruned)

lemma unpruned_cheap:
  "p \<in> set news \<Longrightarrow> best_pred = 0 \<or> total_cost p \<le> best_pred * rate \<Longrightarrow> p \<in> set (unpruned best_pred rate rel news)"
  by (induction news arbitrary: rel) (auto simp: explore_pruned_def)

lemma unpruned_subset: "set (unpruned best_pred rate rel news) \<subseteq> set news"
  and unpruned_length: "length (unpruned best_pred rate rel news) \<le> length news"
proof -
  show "set (unpruned best_pred rate rel news) \<subseteq> set news"
    by (induction news arbitrary: rel) auto
  show "length (unpruned best_pred rate rel news) \<le> length news"
    by (induction news arbitrary: rel) (auto intro: le_SucI)
qed

lemma best_cost_min:
  assumes "0 \<le> best_pred" "pathlist rel \<noteq> []"
  shows "best_cost (add_paths_explore best_pred rate rel news) = Min (insert (best_cost rel) (total_cost ` set news))"
  using assms
proof (induction news arbitrary: rel)
  case (Cons new news)
  let ?rel = "fst (add_path_explore rel new best_pred rate)"
  have "best_cost ?rel = min (best_cost rel) (total_cost new)"
    using Cons.prems by (auto simp: add_path_explore_best_cost min_def)
  then have "best_cost (add_paths_explore best_pred rate ?rel news) =
      Min (insert (min (best_cost rel) (total_cost new)) (total_cost ` set news))"
    using Cons by (simp add: add_path_explore_nonempty)
  also have "\<dots> = Min (insert (best_cost rel) (insert (total_cost new) (total_cost ` set news)))"
    by (cases "news = []") (simp_all add: min.assoc)
  finally show ?case by simp
qed simp

subsection \<open>The exploratory precheck\<close>

definition precheck_explore_dominated ::
  "bool \<Rightarrow> cost \<Rightarrow> cost \<Rightarrow> address list \<Rightarrow> Bitmapset option \<Rightarrow> real \<Rightarrow> Path \<Rightarrow> bool" where
  "precheck_explore_dominated consider s t keys outer ev old \<longleftrightarrow>
     precheck_dominated consider s t keys outer old \<and> ev \<le> explore_value old"

lemma precheck_explore_loop_sorted:
  "cost_sorted ps \<Longrightarrow> precheck_explore_loop consider s t keys outer ev ps \<longleftrightarrow>
     \<not> (\<exists>old \<in> set ps. precheck_explore_dominated consider s t keys outer ev old)"
proof (induction ps)
  case (Cons p ps)
  show ?case
  proof (cases "t > total_cost p * STD_FUZZ_FACTOR")
    case True
    have "pathkeys_contained_in keys (policy_pathkeys p) \<longleftrightarrow>
        compare_pathkeys keys (policy_pathkeys p) = PATHKEYS_EQUAL \<or> compare_pathkeys keys (policy_pathkeys p) = PATHKEYS_BETTER2"
      by (simp add: pathkeys_contained_in_def split: PathKeysComparison.split)
    with True have "precheck_explore_loop consider s t keys outer ev (p # ps) \<longleftrightarrow>
        \<not> precheck_explore_dominated consider s t keys outer ev p \<and> precheck_explore_loop consider s t keys outer ev ps"
      by (auto simp: precheck_explore_dominated_def precheck_dominated_def relids.same_ids Let_def)
    with Cons show ?thesis by simp
  next
    case False
    then have "add_path_precheck_loop consider s t keys outer (p # ps)" by simp
    then have "\<not> (\<exists>old \<in> set (p # ps). precheck_dominated consider s t keys outer old)"
      using precheck_loop_sorted [OF Cons.prems] by blast
    with False show ?thesis by (auto simp: precheck_explore_dominated_def)
  qed
qed simp

lemma precheck_explore_reject:
  assumes "precheck_explore_dominated (if outer \<noteq> None then consider_param_startup rel else consider_startup rel)
      s t (if outer \<noteq> None then [] else keys) outer ev old"
    and new: "path_for_precheck rel s t keys outer new" "explore_value new \<le> ev"
    and old: "0 \<le> startup_cost old" "0 \<le> explore_value old" "rows old \<le> rows new" "parallel_safe new \<le> parallel_safe old"
  shows "\<not> snd (add_path_explore_verdict new old)"
proof -
  have dom: "precheck_dominated (if outer \<noteq> None then consider_param_startup rel else consider_startup rel)
      s t (if outer \<noteq> None then [] else keys) outer old" and ev: "ev \<le> explore_value old"
    using assms(1) by (simp_all add: precheck_explore_dominated_def)
  have "explore_value old \<le> explore_value old * ev_fuzzy_r"
    using mult_left_mono [of 1 ev_fuzzy_r "explore_value old"] old by simp
  then have "compare_path_explore_value_fuzzily new old ev_fuzzy_r \<le> 0"
    using ev new(2) by (simp add: compare_path_explore_value_fuzzily_def)
  moreover have "\<not> snd (add_path_verdict new old)"
    using precheck_dominated_reject [OF dom new(1)] old by simp
  moreover have "compare_path_costs_fuzzily new old STD_FUZZ_FACTOR = COSTS_BETTER2"
    using precheck_dominated_costs [OF dom new(1)] old by simp
  ultimately show ?thesis
    by (auto simp: add_path_explore_verdict_def add_path_verdict_def Let_def split: if_splits)
qed

lemma add_paths_explore_ok:
  assumes "\<forall>p \<in> set news. explore_ok cs cps p" "0 \<le> best_pred"
  shows "\<forall>p \<in> set (pathlist (add_paths_explore best_pred rate (empty_rel cs cps) news)). explore_ok cs cps p \<and> p \<in> set news"
proof -
  let ?un = "unpruned best_pred rate (empty_rel cs cps) news"
  have "\<forall>p \<in> set [] \<union> set ?un. explore_ok cs cps p" using assms(1) unpruned_subset by fastforce
  then have "\<forall>p \<in> set (offer_all add_path_explore_verdict (\<lambda>p. \<not> is_IndexPath p) ?un []). explore_ok cs cps p"
    by (rule add_path_explore.offer_all_ok)
  moreover have "set (offer_all add_path_explore_verdict (\<lambda>p. \<not> is_IndexPath p) ?un []) \<subseteq> set news"
    using offer_all_subset [of add_path_explore_verdict _ ?un "[]"] unpruned_subset by fastforce
  ultimately show ?thesis using assms(2) by (auto simp: add_paths_explore_pathlist)
qed

lemma unpruned_dominated:
  assumes "\<forall>p \<in> set news. explore_ok cs cps p" "0 \<le> best_pred"
    and "p \<in> set (unpruned best_pred rate (empty_rel cs cps) news)"
  shows "\<exists>q \<in> set (pathlist (add_paths_explore best_pred rate (empty_rel cs cps) news)).
    explore_dominates (2 * length news) q p"
proof -
  let ?un = "unpruned best_pred rate (empty_rel cs cps) news"
  have ok: "\<forall>p \<in> set ?un. explore_ok cs cps p" using assms(1) unpruned_subset by blast
  then obtain q
    where q: "q \<in> set (offer_all add_path_explore_verdict (\<lambda>p. \<not> is_IndexPath p) ?un [])"
      "explore_dominates (2 * length ?un) q p"
    using add_path_explore.offer_all_complete [of "[]" ?un cs cps p] assms(3) by auto
  have "explore_ok cs cps q" using q(1) ok add_path_explore.offer_all_ok [of "[]" ?un cs cps] by auto
  moreover have "2 * length ?un \<le> 2 * length news" using unpruned_length by simp
  ultimately have "explore_dominates (2 * length news) q p"
    using q(2) ok assms(3) add_path_explore.dom_mono by blast
  then show ?thesis using q(1) assms(2) by (auto simp: add_paths_explore_pathlist)
qed

subsection \<open>Properties\<close>

text \<open>C2: the exploratory tournament with pruning. Offer any sequence of well-formed paths to
  \<^verbatim>\<open>add_path_explore\<close>, starting from an empty relation, with a best predicted cost that is not
  negative (0 meaning unknown). Every path of the sequence whose cost is within the pruning bound, and
  every path at all when the best cost is unknown, is dominated by a kept path: parameterization, sort
  order, parallel safety and rows no worse, costs within powers of the standard fuzz factor, and
  exploration value within powers of 1.1.\<close>

theorem add_paths_explore_complete:
  assumes "\<forall>p \<in> set news. explore_ok cs cps p" "p \<in> set news" "0 \<le> best_pred"
    and "best_pred = 0 \<or> total_cost p \<le> best_pred * rate"
  shows "\<exists>q \<in> set (pathlist (add_paths_explore best_pred rate (empty_rel cs cps) news)).
    explore_dominates (2 * length news) q p"
  using assms(1, 3) unpruned_cheap [OF assms(2, 4)] by (rule unpruned_dominated)

theorem add_paths_explore_complete_witness:
  "\<exists>q \<in> set (pathlist (add_paths_explore 90 (3 / 2) (empty_rel True False) [sample_path 1 5 100 1, sample_path 2 1 130 2])).
     explore_dominates 4 q (sample_path 2 1 130 2)"
  using add_paths_explore_complete [of "[sample_path 1 5 100 1, sample_path 2 1 130 2]" True False
      "sample_path 2 1 130 2" 90 "3 / 2"]
  by (simp add: explore_ok_def path_ok_def sample_path_def)

text \<open>C25: \<^verbatim>\<open>add_path_explore\<close> keeps the list sorted by total cost and non-empty, provided that the
  best predicted cost is not negative; a pruned path leaves the relation as it was.\<close>

theorem add_path_explore_keeps_sorted:
  assumes "cost_sorted (pathlist rel)" "0 \<le> best_pred"
  shows "cost_sorted (pathlist (fst (add_path_explore rel new best_pred rate))) \<and>
    pathlist (fst (add_path_explore rel new best_pred rate)) \<noteq> [] \<and>
    (explore_pruned rel new best_pred rate \<longrightarrow> fst (add_path_explore rel new best_pred rate) = rel)"
proof (cases "explore_pruned rel new best_pred rate")
  case True
  then show ?thesis using assms by (simp add: add_path_explore_pruned explore_pruned_def)
next
  case False
  then show ?thesis
    using assms by (simp add: add_path_explore_not_pruned tournament_sorted add_path_explore.nonempty)
qed

theorem add_path_explore_keeps_sorted_witness:
  "map path_addr (pathlist (fst (add_path_explore ((empty_rel True False)\<lparr>pathlist := [sample_path 1 5 100 1, sample_path 2 1 200 9],
       best_cost := 100\<rparr>) (sample_path 3 4 150 5) 90 2))) = [1, 3, 2] \<and>
   cost_sorted (pathlist (fst (add_path_explore ((empty_rel True False)\<lparr>pathlist := [sample_path 1 5 100 1, sample_path 2 1 200 9],
       best_cost := 100\<rparr>) (sample_path 3 4 150 5) 90 2))) \<and>
   fst (add_path_explore ((empty_rel True False)\<lparr>pathlist := [sample_path 1 5 100 1, sample_path 2 1 200 9], best_cost := 100\<rparr>)
       (sample_path 4 1 300 50) 90 2) =
     (empty_rel True False)\<lparr>pathlist := [sample_path 1 5 100 1, sample_path 2 1 200 9], best_cost := 100\<rparr>"
proof -
  let ?rel = "(empty_rel True False)\<lparr>pathlist := [sample_path 1 5 100 1, sample_path 2 1 200 9], best_cost := 100\<rparr>"
  have sorted: "cost_sorted (pathlist ?rel)" by (simp add: sample_path_def)
  have "explore_pruned ?rel (sample_path 4 1 300 50) 90 2" by (simp add: explore_pruned_def sample_path_def)
  then have pruned: "fst (add_path_explore ?rel (sample_path 4 1 300 50) 90 2) = ?rel"
    using add_path_explore_keeps_sorted [OF sorted, of 90 "sample_path 4 1 300 50" 2] by simp
  have "map path_addr (pathlist (fst (add_path_explore ?rel (sample_path 3 4 150 5) 90 2))) = [1, 3, 2]"
    by (simp add: add_path_explore_def explore_prune_test_def tournament_finish_def add_path_explore_verdict_def add_path_verdict_def sample_path_def
        compare_path_costs_fuzzily_def compare_path_explore_value_fuzzily_def STD_FUZZ_FACTOR_def ev_fuzzy_r_def CONSIDER_PATH_STARTUP_COST_def
        PATH_REQ_OUTER_def policy_pathkeys_def)
  then show ?thesis using add_path_explore_keeps_sorted [OF sorted, of 90 "sample_path 3 4 150 5" 2] pruned by simp
qed

text \<open>C31: the precondition of the sorted list is needed: with a negative best predicted cost a path that is
  not cheaper than the best known one is put in front of the list without any comparison, so that the list
  stops being sorted whenever the path is more expensive than the first one.\<close>

theorem add_path_explore_negative_best:
  assumes "best_pred < 0" "pathlist rel = p # ps" "best_cost rel \<le> total_cost new" "total_cost p < total_cost new"
  shows "pathlist (fst (add_path_explore rel new best_pred rate)) = new # p # ps \<and>
    \<not> cost_sorted (pathlist (fst (add_path_explore rel new best_pred rate)))"
  using assms by (auto simp: add_path_explore_def explore_prune_test_def tournament_finish_def)

theorem add_path_explore_negative_best_witness:
  "\<not> cost_sorted (pathlist (fst (add_path_explore
       ((empty_rel True False)\<lparr>pathlist := [sample_path 1 5 100 1], best_cost := 100\<rparr>) (sample_path 2 1 130 2) (- 1) 1)))"
  using add_path_explore_negative_best
    [of "- 1" "(empty_rel True False)\<lparr>pathlist := [sample_path 1 5 100 1], best_cost := 100\<rparr>" "sample_path 1 5 100 1" "[]"
      "sample_path 2 1 130 2" 1]
  by (simp add: sample_path_def)

text \<open>After any non-empty sequence of calls the field \<^verbatim>\<open>best_cost\<close> of the relation is the least
  total cost of all paths offered, including the rejected and the pruned ones.\<close>

lemma add_paths_explore_best_cost:
  assumes "0 \<le> best_pred" "news \<noteq> []"
  shows "best_cost (add_paths_explore best_pred rate (empty_rel cs cps) news) = Min (total_cost ` set news)"
proof -
  obtain new rest where news: "news = new # rest" using assms(2) by (cases news) auto
  let ?rel = "fst (add_path_explore (empty_rel cs cps) new best_pred rate)"
  have "best_cost ?rel = total_cost new" by (simp add: add_path_explore_best_cost)
  moreover have "pathlist ?rel \<noteq> []" using assms(1) by (rule add_path_explore_nonempty)
  ultimately show ?thesis using best_cost_min [OF assms(1), of ?rel rate rest] by (simp add: news)
qed

text \<open>C26: when the exploratory precheck is safe. Let the list be sorted and the best predicted cost not be negative. If the precheck turns a
  path away, there is an old path of the same parameterization that is cheaper by more than the fuzz factor and explores at least as
  much, and \<^verbatim>\<open>add_path_explore\<close> would accept the path built from the same data, with costs at least the given bounds and an
  exploration value at most the given one, only if that path has fewer rows than the old one or is parallel-safe while the old one is not.\<close>

theorem add_path_precheck_explore_sound:
  assumes "\<not> add_path_precheck_explore rel s t keys outer ev" "cost_sorted (pathlist rel)"
    and "path_for_precheck rel s t keys outer new" "explore_value new \<le> ev" "0 \<le> best_pred"
    and "\<forall>old \<in> set (pathlist rel). 0 \<le> startup_cost old \<and> 0 \<le> explore_value old" "new \<notin> set (pathlist rel)"
  shows "\<exists>old \<in> set (pathlist rel). members (PATH_REQ_OUTER old) = members outer \<and> total_cost old * STD_FUZZ_FACTOR < total_cost new \<and>
    explore_value new \<le> explore_value old \<and>
    (new \<in> set (pathlist (fst (add_path_explore rel new best_pred rate))) \<longrightarrow> rows new < rows old \<or> parallel_safe new \<and> \<not> parallel_safe old)"
proof -
  obtain old where old: "old \<in> set (pathlist rel)"
    "precheck_explore_dominated (if outer \<noteq> None then consider_param_startup rel else consider_startup rel)
       s t (if outer \<noteq> None then [] else keys) outer ev old"
    using assms(1) precheck_explore_loop_sorted [OF assms(2)] unfolding add_path_precheck_explore_def by blast
  have "new \<notin> set (pathlist (fst (add_path_explore rel new best_pred rate)))"
    if "rows old \<le> rows new" "parallel_safe new \<longrightarrow> parallel_safe old"
  proof (cases "explore_pruned rel new best_pred rate")
    case True
    then show ?thesis using assms(7) by (simp add: add_path_explore_pruned)
  next
    case False
    have "\<not> snd (add_path_explore_verdict new old)"
      using old(1) assms(6) that by (intro precheck_explore_reject [OF old(2) assms(3, 4)]) auto
    then have "\<not> list_all (\<lambda>p. snd (add_path_explore_verdict new p)) (pathlist rel)"
      using old(1) by (auto simp: list_all_iff)
    then show ?thesis
      using False assms(5, 7) kept_subset [of "add_path_explore_verdict new" "pathlist rel"]
      by (auto simp: add_path_explore_not_pruned tournament_set)
  qed
  moreover have "members (PATH_REQ_OUTER old) = members outer" "total_cost old * STD_FUZZ_FACTOR < total_cost new"
    "explore_value new \<le> explore_value old"
    using old(2) assms(3, 4) by (auto simp: precheck_explore_dominated_def precheck_dominated_def path_for_precheck_def)
  ultimately show ?thesis using old(1) by (meson not_less)
qed

theorem add_path_precheck_explore_sound_witness:
  "sample_path 2 7 250 1 \<notin> set (pathlist (fst (add_path_explore
     ((empty_rel True False)\<lparr>pathlist := [sample_path 1 5 100 2], best_cost := 100\<rparr>) (sample_path 2 7 250 1) 0 1)))"
proof -
  let ?rel = "(empty_rel True False)\<lparr>pathlist := [sample_path 1 5 100 2], best_cost := 100\<rparr>"
  have "\<not> add_path_precheck_explore ?rel 6 200 [] None 1" "cost_sorted (pathlist ?rel)" "path_for_precheck ?rel 6 200 [] None (sample_path 2 7 250 1)"
    by (simp_all add: sample_path_def STD_FUZZ_FACTOR_def PATH_REQ_OUTER_def policy_pathkeys_def
        add_path_precheck_explore_def path_for_precheck_def bms_equal_def)
  from add_path_precheck_explore_sound [OF this, of 0 1] show ?thesis by (auto simp: sample_path_def)
qed

end
