(* ===== verification/CheapestPath.thy ===== *)
theory CheapestPath
  imports ExplorePath
begin

text \<open>
  Choosing the cheapest paths of a finished relation: \<^verbatim>\<open>set_cheapest\<close> and
  \<^verbatim>\<open>set_cheapest_explore\<close> of \<^verbatim>\<open>src/backend/optimizer/util/pathnode.c\<close>. The local variables
  of the loop are a record; \<^verbatim>\<open>elog(ERROR)\<close> on an empty list is the left result.

  The lemmas show that the cheapest slots hold minima, that the parameterized fallback finds the least
  parameterization when there is one, and that the list of the exploratory variant is the Pareto frontier
  of the unparameterized paths between cost and exploration value.
\<close>

record cheapest_state =
  cs_startup :: "Path option"
  cs_total :: "Path option"
  cs_best_param :: "Path option"
  cs_parameterized :: "Path list"
  cs_cost_explore :: "Path list"

definition better_param_path :: "Path \<Rightarrow> Path option \<Rightarrow> Path option" where
  "better_param_path path best_param_path =
     (case best_param_path of
        None \<Rightarrow> Some path
      | Some best \<Rightarrow>
          (case bms_subset_compare (PATH_REQ_OUTER path) (PATH_REQ_OUTER best) of
             BMS_EQUAL \<Rightarrow> if compare_path_costs path best TOTAL_COST < 0 then Some path else Some best
           | BMS_SUBSET1 \<Rightarrow> Some path
           | BMS_SUBSET2 \<Rightarrow> Some best
           | BMS_DIFFERENT \<Rightarrow> Some best))"

definition cheaper_or_better_sorted :: "CostSelector \<Rightarrow> Path \<Rightarrow> Path \<Rightarrow> Path" where
  "cheaper_or_better_sorted criterion cheapest path =
     (let cmp = compare_path_costs cheapest path criterion in
      if cmp > 0 \<or> cmp = 0 \<and> compare_pathkeys (pathkeys cheapest) (pathkeys path) = PATHKEYS_BETTER2
      then path else cheapest)"

definition set_cheapest_step :: "cheapest_state \<Rightarrow> Path \<Rightarrow> cheapest_state" where
  "set_cheapest_step st path =
     (if param_info path \<noteq> None then
        let st = st\<lparr>cs_parameterized := cs_parameterized st @ [path]\<rparr> in
        if cs_total st \<noteq> None then st
        else st\<lparr>cs_best_param := better_param_path path (cs_best_param st)\<rparr>
      else
        (case cs_total st of
           None \<Rightarrow> st\<lparr>cs_startup := Some path, cs_total := Some path\<rparr>
         | Some ctotal \<Rightarrow>
             st\<lparr>cs_startup := map_option (\<lambda>startup. cheaper_or_better_sorted STARTUP_COST startup path) (cs_startup st),
               cs_total := Some (cheaper_or_better_sorted TOTAL_COST ctotal path)\<rparr>))"

definition cheapest_init :: cheapest_state where
  "cheapest_init = \<lparr>cs_startup = None, cs_total = None, cs_best_param = None, cs_parameterized = [], cs_cost_explore = []\<rparr>"

text \<open>
  The assignments after the loop. The assertion that there is a cheapest total path holds whenever the
  list is not empty.
\<close>

definition set_cheapest_fields :: "RelOptInfo \<Rightarrow> cheapest_state \<Rightarrow> RelOptInfo" where
  "set_cheapest_fields parent_rel st =
     parent_rel\<lparr>
       cheapest_startup_path := cs_startup st,
       cheapest_total_path := (case cs_total st of None \<Rightarrow> cs_best_param st | Some path \<Rightarrow> Some path),
       cheapest_unique_path := None,
       cheapest_parameterized_paths :=
         (case cs_total st of None \<Rightarrow> cs_parameterized st | Some path \<Rightarrow> path # cs_parameterized st)\<rparr>"

definition set_cheapest :: "RelOptInfo \<Rightarrow> RelOptInfo result" where
  "set_cheapest parent_rel =
     (if pathlist parent_rel = [] then Inl (Elog ''could not devise a query plan for the given query'')
      else Inr (set_cheapest_fields parent_rel (foldl set_cheapest_step cheapest_init (pathlist parent_rel))))"

subsection \<open>The frontier between cost and exploration value\<close>

text \<open>The inner loop: the flag \<^verbatim>\<open>addnew\<close> and the list with the dominated cells deleted.\<close>

fun cost_explore_loop :: "Path \<Rightarrow> Path list \<Rightarrow> bool \<times> Path list" where
  "cost_explore_loop path [] = (True, [])"
| "cost_explore_loop path (oldpath # rest) =
     (let keep = (let (addnew, paths) = cost_explore_loop path rest in (addnew, oldpath # paths)) in
      if compare_path_costs path oldpath TOTAL_COST > 0 then
        if explore_value path \<le> explore_value oldpath then (False, oldpath # rest) else keep
      else if compare_path_costs path oldpath TOTAL_COST = 0 then
        if explore_value path < explore_value oldpath then (False, oldpath # rest)
        else if explore_value path > explore_value oldpath then cost_explore_loop path rest
        else keep
      else
        if explore_value path \<ge> explore_value oldpath then cost_explore_loop path rest
        else keep)"

definition cost_explore_add :: "Path list \<Rightarrow> Path \<Rightarrow> Path list" where
  "cost_explore_add paths path =
     (if paths = [] then [path]
      else let (addnew, kept) = cost_explore_loop path paths in if addnew then kept @ [path] else kept)"

definition set_cheapest_explore_step :: "cheapest_state \<Rightarrow> Path \<Rightarrow> cheapest_state" where
  "set_cheapest_explore_step st path =
     (if param_info path \<noteq> None then
        let st = st\<lparr>cs_parameterized := cs_parameterized st @ [path]\<rparr> in
        if cs_total st \<noteq> None then st
        else st\<lparr>cs_best_param := better_param_path path (cs_best_param st)\<rparr>
      else
        (case cs_total st of
           None \<Rightarrow> st\<lparr>cs_startup := Some path, cs_total := Some path, cs_cost_explore := cs_cost_explore st @ [path]\<rparr>
         | Some ctotal \<Rightarrow>
             st\<lparr>cs_startup := map_option (\<lambda>startup. cheaper_or_better_sorted STARTUP_COST startup path) (cs_startup st),
               cs_total := Some (cheaper_or_better_sorted TOTAL_COST ctotal path),
               cs_cost_explore := cost_explore_add (cs_cost_explore st) path\<rparr>))"

definition set_cheapest_explore :: "RelOptInfo \<Rightarrow> RelOptInfo result" where
  "set_cheapest_explore parent_rel =
     (if pathlist parent_rel = [] then Inl (Elog ''could not devise a query plan for the given query'')
      else
        let st = foldl set_cheapest_explore_step cheapest_init (pathlist parent_rel) in
        Inr ((set_cheapest_fields parent_rel st)\<lparr>
          cheapest_cost_explore_pathlist :=
            (if cs_cost_explore st = [] then [the (cs_best_param st)] else cs_cost_explore st)\<rparr>))"

subsection \<open>Minima\<close>

lemma cheaper_or_better_sorted_choice:
  "cheaper_or_better_sorted c p q = p \<or> cheaper_or_better_sorted c p q = q"
  by (simp add: cheaper_or_better_sorted_def Let_def)

lemma cheaper_or_better_sorted_le:
  "compare_path_costs (cheaper_or_better_sorted c p q) p c \<le> 0"
  "compare_path_costs (cheaper_or_better_sorted c p q) q c \<le> 0"
proof -
  have refl: "compare_path_costs x x c = 0" for x by (simp add: compare_path_costs_def)
  show "compare_path_costs (cheaper_or_better_sorted c p q) p c \<le> 0"
    using compare_path_costs_swap [of q p c] refl by (auto simp: cheaper_or_better_sorted_def Let_def)
  show "compare_path_costs (cheaper_or_better_sorted c p q) q c \<le> 0"
    using refl by (auto simp: cheaper_or_better_sorted_def Let_def)
qed

abbreviation unparameterized :: "Path list \<Rightarrow> Path list" where
  "unparameterized \<equiv> filter (\<lambda>p. param_info p = None)"

abbreviation parameterized :: "Path list \<Rightarrow> Path list" where
  "parameterized \<equiv> filter (\<lambda>p. param_info p \<noteq> None)"

text \<open>
  The slots after the loop are folds over the unparameterized paths, and the parameterized paths are
  collected in order.
\<close>

definition fold_best :: "(Path \<Rightarrow> Path \<Rightarrow> Path) \<Rightarrow> Path list \<Rightarrow> Path option" where
  "fold_best f ps = (case ps of [] \<Rightarrow> None | p # ps \<Rightarrow> Some (foldl f p ps))"

lemma fold_best_snoc: "fold_best f (ps @ [p]) = (case fold_best f ps of None \<Rightarrow> Some p | Some b \<Rightarrow> Some (f b p))"
  by (cases ps) (simp_all add: fold_best_def)

lemma set_cheapest_loop:
  "cs_startup (foldl set_cheapest_step cheapest_init ps) = fold_best (cheaper_or_better_sorted STARTUP_COST) (unparameterized ps) \<and>
   cs_total (foldl set_cheapest_step cheapest_init ps) = fold_best (cheaper_or_better_sorted TOTAL_COST) (unparameterized ps) \<and>
   cs_parameterized (foldl set_cheapest_step cheapest_init ps) = parameterized ps"
proof (induction ps rule: rev_induct)
  case Nil
  show ?case by (simp add: cheapest_init_def fold_best_def)
next
  case (snoc p ps)
  have "fold_best f (unparameterized ps) = None \<longleftrightarrow> unparameterized ps = []" for f
    by (simp add: fold_best_def split: list.split)
  with snoc show ?case
    by (auto simp: set_cheapest_step_def Let_def fold_best_snoc split: option.splits)
qed

lemma fold_best_cheapest:
  assumes "fold_best (cheaper_or_better_sorted c) ps = Some b"
  shows "b \<in> set ps \<and> (\<forall>p \<in> set ps. compare_path_costs b p c \<le> 0)"
proof -
  obtain q qs where ps: "ps = q # qs" and b: "b = foldl (cheaper_or_better_sorted c) q qs"
    using assms by (auto simp: fold_best_def split: list.splits)
  have "b \<in> insert q (set qs)"
    unfolding b using cheaper_or_better_sorted_choice by (rule foldl_choice_in)
  moreover have "(qs = [] \<or> compare_path_costs b q c \<le> 0) \<and> (\<forall>p \<in> set qs. compare_path_costs b p c \<le> 0)"
    unfolding b
    by (rule foldl_least [of "\<lambda>p q. compare_path_costs p q c \<le> 0"])
      (auto simp: cheaper_or_better_sorted_le intro: compare_path_costs_trans)
  moreover have "compare_path_costs q q c \<le> 0" by (simp add: compare_path_costs_def)
  ultimately show ?thesis using b by (auto simp: ps)
qed

text \<open>The parameterized fallback, when no unparameterized path was seen.\<close>

lemma set_cheapest_best_param:
  "unparameterized ps = [] \<Longrightarrow>
     cs_best_param (foldl set_cheapest_step cheapest_init ps) = foldl (\<lambda>b p. better_param_path p b) None ps"
proof (induction ps rule: rev_induct)
  case (snoc p ps)
  have "unparameterized ps = []" "param_info p \<noteq> None" using snoc.prems by (simp_all split: if_splits)
  moreover from this have "cs_total (foldl set_cheapest_step cheapest_init ps) = None"
    using set_cheapest_loop [of ps] by (simp add: fold_best_def)
  ultimately show ?case
    using snoc.IH by (simp add: set_cheapest_step_def [of "foldl set_cheapest_step cheapest_init ps" p] Let_def)
qed (simp add: cheapest_init_def)

definition least_param :: "Path \<Rightarrow> Path set \<Rightarrow> bool" where
  "least_param p ps \<longleftrightarrow> p \<in> ps \<and> (\<forall>q \<in> ps. members (PATH_REQ_OUTER p) \<subseteq> members (PATH_REQ_OUTER q))"

definition cheapest_least_param :: "Path \<Rightarrow> Path set \<Rightarrow> bool" where
  "cheapest_least_param b ps \<longleftrightarrow> b \<in> ps \<and>
     (\<forall>q. least_param q ps \<longrightarrow> members (PATH_REQ_OUTER b) = members (PATH_REQ_OUTER q) \<and>
        compare_path_costs b q TOTAL_COST \<le> 0)"

lemma cheapest_least_param_insert:
  assumes "cheapest_least_param b ps" "b' \<in> insert p ps"
    and "\<And>q. q \<in> ps \<Longrightarrow> least_param q (insert p ps) \<Longrightarrow> members (PATH_REQ_OUTER b) = members (PATH_REQ_OUTER q) \<Longrightarrow>
      compare_path_costs b q TOTAL_COST \<le> 0 \<Longrightarrow>
      members (PATH_REQ_OUTER b') = members (PATH_REQ_OUTER q) \<and> compare_path_costs b' q TOTAL_COST \<le> 0"
    and "least_param p (insert p ps) \<Longrightarrow>
      members (PATH_REQ_OUTER b') = members (PATH_REQ_OUTER p) \<and> compare_path_costs b' p TOTAL_COST \<le> 0"
  shows "cheapest_least_param b' (insert p ps)"
  unfolding cheapest_least_param_def
proof (intro conjI allI impI)
  show "b' \<in> insert p ps" by fact
  fix q
  assume q: "least_param q (insert p ps)"
  have "members (PATH_REQ_OUTER b') = members (PATH_REQ_OUTER q) \<and> compare_path_costs b' q TOTAL_COST \<le> 0"
  proof (cases "q = p")
    case True
    then show ?thesis using assms(4) q by simp
  next
    case False
    then have "q \<in> ps" "least_param q ps" using q by (auto simp: least_param_def)
    then show ?thesis using assms(1, 3) q by (simp add: cheapest_least_param_def)
  qed
  then show "members (PATH_REQ_OUTER b') = members (PATH_REQ_OUTER q)" "compare_path_costs b' q TOTAL_COST \<le> 0"
    by simp_all
qed

lemma better_param_path_step:
  assumes "cheapest_least_param b ps"
  shows "\<exists>b'. better_param_path p (Some b) = Some b' \<and> cheapest_least_param b' (insert p ps)"
proof -
  let ?O = "\<lambda>p. members (PATH_REQ_OUTER p)"
  have b: "b \<in> ps" using assms by (simp add: cheapest_least_param_def)
  have below: "least_param q (insert p ps) \<Longrightarrow> ?O q \<subseteq> ?O p \<and> ?O q \<subseteq> ?O b" for q
    using b by (simp add: least_param_def)
  have refl: "compare_path_costs x x TOTAL_COST \<le> 0" for x by (simp add: compare_path_costs_def)
  note insertI = cheapest_least_param_insert [OF assms]
  consider "?O p = ?O b" | "?O p \<subset> ?O b" | "\<not> ?O p \<subseteq> ?O b" by blast
  then show ?thesis
  proof cases
    case 1
    let ?b = "if compare_path_costs p b TOTAL_COST < 0 then p else b"
    have le: "compare_path_costs ?b b TOTAL_COST \<le> 0" "compare_path_costs ?b p TOTAL_COST \<le> 0"
      using refl compare_path_costs_swap [of b p TOTAL_COST] by auto
    have "cheapest_least_param ?b (insert p ps)"
      using 1 b le compare_path_costs_trans by (intro insertI) auto
    moreover have "better_param_path p (Some b) = Some ?b"
      using 1 by (simp add: better_param_path_def relids.compare_ids comparison_of_def)
    ultimately show ?thesis by blast
  next
    case 2
    have "cheapest_least_param p (insert p ps)"
      using 2 below refl by (intro insertI) auto
    moreover have "better_param_path p (Some b) = Some p"
      using 2 by (simp add: better_param_path_def relids.compare_ids comparison_of_def)
    ultimately show ?thesis by blast
  next
    case 3
    have "cheapest_least_param b (insert p ps)"
      using 3 b below by (intro insertI) blast+
    moreover have "better_param_path p (Some b) = Some b"
      using 3 by (simp add: better_param_path_def relids.compare_ids comparison_of_def)
    ultimately show ?thesis by blast
  qed
qed

lemma fold_better_param_path:
  "ps \<noteq> [] \<Longrightarrow> \<exists>b. foldl (\<lambda>b p. better_param_path p b) None ps = Some b \<and> cheapest_least_param b (set ps)"
proof (induction ps rule: rev_induct)
  case (snoc p ps)
  show ?case
  proof (cases "ps = []")
    case True
    then show ?thesis
      by (auto simp: better_param_path_def cheapest_least_param_def least_param_def compare_path_costs_def)
  next
    case False
    with snoc.IH obtain b where "foldl (\<lambda>b p. better_param_path p b) None ps = Some b" "cheapest_least_param b (set ps)"
      by blast
    then show ?thesis using better_param_path_step [of b "set ps" p] by auto
  qed
qed simp

subsection \<open>The Pareto frontier\<close>

definition weakly_better :: "Path \<Rightarrow> Path \<Rightarrow> bool" where
  "weakly_better p q \<longleftrightarrow> compare_path_costs p q TOTAL_COST \<le> 0 \<and> explore_value q \<le> explore_value p"

definition strictly_better :: "Path \<Rightarrow> Path \<Rightarrow> bool" where
  "strictly_better p q \<longleftrightarrow> weakly_better p q \<and> \<not> weakly_better q p"

definition frontier :: "Path set \<Rightarrow> Path set" where
  "frontier ps = {p \<in> ps. \<not> (\<exists>q \<in> ps. strictly_better q p)}"

lemma weakly_better_refl: "weakly_better p p"
  by (simp add: weakly_better_def compare_path_costs_def)

lemma weakly_better_trans: "weakly_better p q \<Longrightarrow> weakly_better q r \<Longrightarrow> weakly_better p r"
  using compare_path_costs_trans by (fastforce simp: weakly_better_def)

lemma strictly_better_trans1: "weakly_better p q \<Longrightarrow> strictly_better q r \<Longrightarrow> strictly_better p r"
  unfolding strictly_better_def using weakly_better_trans by blast

lemma strictly_better_trans2: "strictly_better p q \<Longrightarrow> weakly_better q r \<Longrightarrow> strictly_better p r"
  unfolding strictly_better_def using weakly_better_trans by blast

lemma strictly_better_costs:
  "strictly_better p q \<longleftrightarrow>
     compare_path_costs p q TOTAL_COST < 0 \<and> explore_value q \<le> explore_value p \<or>
     compare_path_costs p q TOTAL_COST = 0 \<and> explore_value q < explore_value p"
  using compare_path_costs_swap [of p q TOTAL_COST] by (auto simp: strictly_better_def weakly_better_def)

lemma cost_explore_loop_Cons:
  "cost_explore_loop path (old # rest) =
     (if strictly_better old path then (False, old # rest)
      else if strictly_better path old then cost_explore_loop path rest
      else let (addnew, paths) = cost_explore_loop path rest in (addnew, old # paths))"
  using compare_path_costs_swap [of old path TOTAL_COST] by (auto simp: Let_def strictly_better_costs)

lemma cost_explore_loop_accept:
  "\<not> (\<exists>old \<in> set ps. strictly_better old path) \<Longrightarrow>
     cost_explore_loop path ps = (True, filter (\<lambda>old. \<not> strictly_better path old) ps)"
  by (induction ps) (simp_all add: cost_explore_loop_Cons del: cost_explore_loop.simps(2))

lemma cost_explore_loop_reject:
  "\<exists>old \<in> set ps. strictly_better old path \<Longrightarrow> \<not> (\<exists>old \<in> set ps. strictly_better path old) \<Longrightarrow>
     cost_explore_loop path ps = (False, ps)"
proof (induction ps)
  case (Cons old ps)
  show ?case
  proof (cases "strictly_better old path")
    case True
    then show ?thesis by (simp add: cost_explore_loop_Cons del: cost_explore_loop.simps(2))
  next
    case False
    with Cons.prems(1) have "\<exists>old \<in> set ps. strictly_better old path" by auto
    then have "cost_explore_loop path ps = (False, ps)" using Cons by auto
    then show ?thesis
      using False Cons.prems(2) by (simp add: cost_explore_loop_Cons del: cost_explore_loop.simps(2))
  qed
qed simp

text \<open>
  The invariant of the list: it is the frontier of the paths seen so far, and each of them is at most
  as good as one on the list.
\<close>

definition frontier_inv :: "Path list \<Rightarrow> Path set \<Rightarrow> bool" where
  "frontier_inv fs ps \<longleftrightarrow> set fs = frontier ps \<and> (\<forall>p \<in> ps. \<exists>q \<in> set fs. weakly_better q p)"

lemma strictly_better_irrefl: "\<not> strictly_better p p"
  by (simp add: strictly_better_def)

lemma strictly_better_weak: "strictly_better p q \<Longrightarrow> weakly_better p q"
  by (simp add: strictly_better_def)

lemma frontier_inv_singleton: "frontier_inv [p] {p}"
  by (auto simp: frontier_inv_def frontier_def strictly_better_irrefl weakly_better_refl)

lemma frontier_inv_member: "frontier_inv fs ps \<Longrightarrow> f \<in> set fs \<Longrightarrow> f \<in> ps"
  by (simp add: frontier_inv_def frontier_def)

lemma frontier_inv_antichain: "frontier_inv fs ps \<Longrightarrow> f \<in> set fs \<Longrightarrow> p \<in> ps \<Longrightarrow> \<not> strictly_better p f"
  by (auto simp: frontier_inv_def frontier_def)

lemma frontier_inv_cover: "frontier_inv fs ps \<Longrightarrow> p \<in> ps \<Longrightarrow> \<exists>f \<in> set fs. weakly_better f p"
  unfolding frontier_inv_def by blast

lemma frontier_invI:
  assumes "set fs \<subseteq> ps" "\<And>f p. f \<in> set fs \<Longrightarrow> p \<in> ps \<Longrightarrow> \<not> strictly_better p f"
    and "\<And>p. p \<in> ps \<Longrightarrow> p \<notin> set fs \<Longrightarrow> \<exists>q \<in> set fs. strictly_better q p"
  shows "frontier_inv fs ps"
proof -
  have "set fs = frontier ps" using assms by (fastforce simp: frontier_def)
  moreover have "\<exists>q \<in> set fs. weakly_better q p" if "p \<in> ps" for p
    using assms(3) [OF that] weakly_better_refl strictly_better_weak by blast
  ultimately show ?thesis by (simp add: frontier_inv_def)
qed

lemma frontier_inv_outside:
  assumes "frontier_inv fs ps" "p \<in> ps" "p \<notin> set fs"
  shows "\<exists>q \<in> set fs. strictly_better q p"
proof -
  have "\<exists>q \<in> ps. strictly_better q p" using assms by (auto simp: frontier_inv_def frontier_def)
  then show ?thesis using frontier_inv_cover [OF assms(1)] strictly_better_trans1 by blast
qed

lemma cost_explore_add_inv:
  assumes inv: "frontier_inv fs ps" and ne: "fs \<noteq> []"
  shows "frontier_inv (cost_explore_add fs path) (insert path ps)"
proof (cases "\<exists>old \<in> set fs. strictly_better old path")
  case True
  then obtain f where f: "f \<in> set fs" "strictly_better f path" by blast
  have none: "\<not> strictly_better path old" if "old \<in> set fs" for old
    using that f frontier_inv_antichain [OF inv that frontier_inv_member [OF inv f(1)]]
      strictly_better_trans1 strictly_better_weak by blast
  then have "cost_explore_add fs path = fs"
    using True ne cost_explore_loop_reject [of fs path] by (simp add: cost_explore_add_def)
  moreover have "frontier_inv fs (insert path ps)"
  proof (rule frontier_invI)
    show "set fs \<subseteq> insert path ps" using frontier_inv_member [OF inv] by blast
    show "\<not> strictly_better p g" if "g \<in> set fs" "p \<in> insert path ps" for g p
      using that none frontier_inv_antichain [OF inv] by blast
    show "\<exists>q \<in> set fs. strictly_better q p" if "p \<in> insert path ps" "p \<notin> set fs" for p
      using that f frontier_inv_outside [OF inv] by blast
  qed
  ultimately show ?thesis by simp
next
  case False
  let ?fs = "filter (\<lambda>old. \<not> strictly_better path old) fs @ [path]"
  have nob: "\<not> strictly_better p path" if "p \<in> ps" for p
    using that False frontier_inv_cover [OF inv that] strictly_better_trans1 by blast
  have "frontier_inv ?fs (insert path ps)"
  proof (rule frontier_invI)
    show "set ?fs \<subseteq> insert path ps" using frontier_inv_member [OF inv] by auto
    show "\<not> strictly_better p g" if "g \<in> set ?fs" "p \<in> insert path ps" for g p
    proof (cases "g = path")
      case True
      then show ?thesis using that(2) nob strictly_better_irrefl by blast
    next
      case False
      then have "g \<in> set fs" "\<not> strictly_better path g" using that(1) by auto
      then show ?thesis using that(2) frontier_inv_antichain [OF inv] by blast
    qed
    show "\<exists>q \<in> set ?fs. strictly_better q p" if "p \<in> insert path ps" "p \<notin> set ?fs" for p
    proof (cases "p \<in> set fs")
      case True
      then have "strictly_better path p" using that(2) by auto
      then show ?thesis by simp
    next
      case False
      moreover have "p \<in> ps" using that by auto
      ultimately obtain f where f: "f \<in> set fs" "strictly_better f p"
        using frontier_inv_outside [OF inv] by blast
      show ?thesis
      proof (cases "strictly_better path f")
        case True
        then have "strictly_better path p"
          using f strictly_better_trans1 strictly_better_weak by blast
        then show ?thesis by simp
      next
        case False
        then show ?thesis using f by auto
      qed
    qed
  qed
  moreover have "cost_explore_add fs path = ?fs"
    using False ne cost_explore_loop_accept [of fs path] by (simp add: cost_explore_add_def)
  ultimately show ?thesis by simp
qed

text \<open>The exploratory loop is the standard one with the frontier added.\<close>

lemma set_cheapest_explore_loop:
  "foldl set_cheapest_explore_step cheapest_init ps =
     (foldl set_cheapest_step cheapest_init ps)\<lparr>cs_cost_explore :=
        cs_cost_explore (foldl set_cheapest_explore_step cheapest_init ps)\<rparr>"
proof (induction ps rule: rev_induct)
  case (snoc p ps)
  define st where "st = foldl set_cheapest_step cheapest_init ps"
  define e where "e = cs_cost_explore (foldl set_cheapest_explore_step cheapest_init ps)"
  have ih: "foldl set_cheapest_explore_step cheapest_init ps = st\<lparr>cs_cost_explore := e\<rparr>"
    using snoc.IH by (simp add: st_def e_def)
  show ?case
    by (simp add: ih st_def [symmetric])
      (auto simp: set_cheapest_explore_step_def set_cheapest_step_def Let_def split: option.split)
qed (simp add: cheapest_init_def)

lemma set_cheapest_explore_frontier:
  "unparameterized ps \<noteq> [] \<Longrightarrow>
     frontier_inv (cs_cost_explore (foldl set_cheapest_explore_step cheapest_init ps)) (set (unparameterized ps))"
  "unparameterized ps = [] \<Longrightarrow> cs_cost_explore (foldl set_cheapest_explore_step cheapest_init ps) = []"
proof -
  let ?st = "\<lambda>ps. foldl set_cheapest_explore_step cheapest_init ps"
  have "(unparameterized ps \<noteq> [] \<longrightarrow> frontier_inv (cs_cost_explore (?st ps)) (set (unparameterized ps))) \<and>
     (unparameterized ps = [] \<longrightarrow> cs_cost_explore (?st ps) = [])"
  proof (induction ps rule: rev_induct)
    case (snoc p ps)
    have ctotal: "cs_total (?st ps) = fold_best (cheaper_or_better_sorted TOTAL_COST) (unparameterized ps)"
      using set_cheapest_explore_loop [of ps] set_cheapest_loop [of ps] by (metis cheapest_state.select_convs(2)
          cheapest_state.surjective cheapest_state.update_convs(5))
    consider "param_info p \<noteq> None" | "param_info p = None" "unparameterized ps = []"
      | "param_info p = None" "unparameterized ps \<noteq> []" by blast
    then show ?case
    proof cases
      case 1
      then have "cs_cost_explore (?st (ps @ [p])) = cs_cost_explore (?st ps)"
        by (simp add: set_cheapest_explore_step_def [of "?st ps" p] Let_def)
      then show ?thesis using snoc 1 by auto
    next
      case 2
      then have "cs_cost_explore (?st (ps @ [p])) = [p]"
        using snoc ctotal by (simp add: set_cheapest_explore_step_def [of "?st ps" p] fold_best_def)
      then show ?thesis using 2 frontier_inv_singleton by simp
    next
      case 3
      then obtain t where "cs_total (?st ps) = Some t" using ctotal by (auto simp: fold_best_def split: list.splits)
      then have "cs_cost_explore (?st (ps @ [p])) = cost_explore_add (cs_cost_explore (?st ps)) p"
        using 3 by (simp add: set_cheapest_explore_step_def [of "?st ps" p])
      moreover have inv: "frontier_inv (cs_cost_explore (?st ps)) (set (unparameterized ps))" using snoc 3 by simp
      moreover have "cs_cost_explore (?st ps) \<noteq> []"
        using 3(2) inv frontier_inv_cover [OF inv] by (cases "unparameterized ps") fastforce+
      ultimately show ?thesis using 3 cost_explore_add_inv [of _ "set (unparameterized ps)" p] by simp
    qed
  qed (simp add: cheapest_init_def)
  then show "unparameterized ps \<noteq> [] \<Longrightarrow>
     frontier_inv (cs_cost_explore (?st ps)) (set (unparameterized ps))"
  "unparameterized ps = [] \<Longrightarrow> cs_cost_explore (?st ps) = []" by blast+
qed

lemma set_cheapest_least:
  assumes "unparameterized (pathlist rel) \<noteq> []"
  obtains rel' t s where "set_cheapest rel = Inr rel'" "pathlist rel' = pathlist rel"
    "cheapest_total_path rel' = Some t" "cheapest_startup_path rel' = Some s"
    "cheapest_parameterized_paths rel' = t # parameterized (pathlist rel)"
    "t \<in> set (unparameterized (pathlist rel))" "s \<in> set (unparameterized (pathlist rel))"
    "\<forall>p \<in> set (unparameterized (pathlist rel)).
       compare_path_costs t p TOTAL_COST \<le> 0 \<and> compare_path_costs s p STARTUP_COST \<le> 0"
proof -
  let ?U = "unparameterized (pathlist rel)"
  obtain t s where t: "fold_best (cheaper_or_better_sorted TOTAL_COST) ?U = Some t"
    and s: "fold_best (cheaper_or_better_sorted STARTUP_COST) ?U = Some s"
    using assms by (cases ?U) (simp_all add: fold_best_def)
  let ?rel = "set_cheapest_fields rel (foldl set_cheapest_step cheapest_init (pathlist rel))"
  have "set_cheapest rel = Inr ?rel" using assms by (auto simp: set_cheapest_def)
  moreover have "cheapest_total_path ?rel = Some t" "cheapest_startup_path ?rel = Some s"
    "cheapest_parameterized_paths ?rel = t # parameterized (pathlist rel)" "pathlist ?rel = pathlist rel"
    using set_cheapest_loop [of "pathlist rel"] t s by (simp_all add: set_cheapest_fields_def)
  ultimately show thesis using that fold_best_cheapest [OF t] fold_best_cheapest [OF s] by blast
qed

lemma set_cheapest_explore_extends:
  assumes "unparameterized (pathlist rel) \<noteq> []"
  obtains rel0 paths where "set_cheapest rel = Inr rel0"
    "set_cheapest_explore rel = Inr (rel0\<lparr>cheapest_cost_explore_pathlist := paths\<rparr>)"
    "frontier_inv paths (set (unparameterized (pathlist rel)))"
proof -
  let ?U = "unparameterized (pathlist rel)"
  let ?st = "foldl set_cheapest_step cheapest_init (pathlist rel)"
  let ?ste = "foldl set_cheapest_explore_step cheapest_init (pathlist rel)"
  have inv: "frontier_inv (cs_cost_explore ?ste) (set ?U)" using assms by (rule set_cheapest_explore_frontier(1))
  have ne: "pathlist rel \<noteq> []" using assms by auto
  have ne': "cs_cost_explore ?ste \<noteq> []"
    using assms frontier_inv_cover [OF inv] by (cases ?U) fastforce+
  have fields: "set_cheapest_fields rel ?ste = set_cheapest_fields rel ?st"
    by (subst set_cheapest_explore_loop) (simp add: set_cheapest_fields_def split: option.split)
  have "set_cheapest rel = Inr (set_cheapest_fields rel ?st)" using ne by (simp add: set_cheapest_def)
  moreover have "set_cheapest_explore rel =
      Inr ((set_cheapest_fields rel ?st)\<lparr>cheapest_cost_explore_pathlist := cs_cost_explore ?ste\<rparr>)"
    using ne ne' fields by (simp add: set_cheapest_explore_def Let_def)
  ultimately show thesis using that inv by blast
qed

subsection \<open>Properties\<close>

text \<open>C37: when a relation has an unparameterized path, \<^verbatim>\<open>set_cheapest\<close> succeeds; the cheapest total path is
  an unparameterized path of least total cost, and of least startup cost among those; the cheapest startup
  path one of least startup cost, and of least total cost among those; the list of parameterized paths holds
  all of them in order after the cheapest total path; and the path list is unchanged.\<close>

theorem set_cheapest_unparameterized:
  assumes "unparameterized (pathlist rel) \<noteq> []"
  shows "\<exists>rel' t s. set_cheapest rel = Inr rel' \<and> pathlist rel' = pathlist rel \<and>
    cheapest_total_path rel' = Some t \<and> cheapest_startup_path rel' = Some s \<and>
    cheapest_parameterized_paths rel' = t # parameterized (pathlist rel) \<and>
    t \<in> set (unparameterized (pathlist rel)) \<and> s \<in> set (unparameterized (pathlist rel)) \<and>
    (\<forall>p \<in> set (unparameterized (pathlist rel)).
       compare_path_costs t p TOTAL_COST \<le> 0 \<and> compare_path_costs s p STARTUP_COST \<le> 0 \<and>
       total_cost t \<le> total_cost p \<and> startup_cost s \<le> startup_cost p)"
proof -
  have le: "compare_path_costs t p TOTAL_COST \<le> 0 \<Longrightarrow> total_cost t \<le> total_cost p"
    "compare_path_costs t p STARTUP_COST \<le> 0 \<Longrightarrow> startup_cost t \<le> startup_cost p" for t p
    by (auto simp: compare_path_costs_total compare_path_costs_startup)
  from assms show ?thesis by (rule set_cheapest_least) (use le in blast)
qed

theorem set_cheapest_unparameterized_witness:
  "\<exists>rel' t s. set_cheapest ((empty_rel True False)\<lparr>pathlist := [sample_path 1 5 100 1, sample_path 2 1 130 2]\<rparr>) = Inr rel' \<and>
     cheapest_total_path rel' = Some t \<and> total_cost t \<le> 100 \<and> cheapest_startup_path rel' = Some s \<and> startup_cost s \<le> 1"
  using set_cheapest_unparameterized
    [of "(empty_rel True False)\<lparr>pathlist := [sample_path 1 5 100 1, sample_path 2 1 130 2]\<rparr>"]
  by (auto simp: sample_path_def)

text \<open>C38: when all paths are parameterized, the cheapest total path is one of them; if some of them has the
  least parameterization, it has that parameterization too and costs no more than any other such path; there
  is no cheapest startup path. An empty list is an error.\<close>

theorem set_cheapest_parameterized:
  "(pathlist rel = [] \<longrightarrow> set_cheapest rel = Inl (Elog ''could not devise a query plan for the given query'')) \<and>
   (pathlist rel \<noteq> [] \<and> unparameterized (pathlist rel) = [] \<longrightarrow>
     (\<exists>rel' b. set_cheapest rel = Inr rel' \<and> cheapest_total_path rel' = Some b \<and> cheapest_startup_path rel' = None \<and>
        cheapest_parameterized_paths rel' = pathlist rel \<and> b \<in> set (pathlist rel) \<and>
        (\<forall>q \<in> set (pathlist rel).
           (\<forall>r \<in> set (pathlist rel). members (PATH_REQ_OUTER q) \<subseteq> members (PATH_REQ_OUTER r)) \<longrightarrow>
           members (PATH_REQ_OUTER b) = members (PATH_REQ_OUTER q) \<and> total_cost b \<le> total_cost q)))"
proof (cases "pathlist rel \<noteq> [] \<and> unparameterized (pathlist rel) = []")
  case True
  then obtain b where b: "foldl (\<lambda>b p. better_param_path p b) None (pathlist rel) = Some b"
    "cheapest_least_param b (set (pathlist rel))"
    using fold_better_param_path by blast
  let ?st = "foldl set_cheapest_step cheapest_init (pathlist rel)"
  have st: "cs_best_param ?st = Some b" "cs_total ?st = None" "cs_startup ?st = None"
    "cs_parameterized ?st = pathlist rel"
    using True set_cheapest_best_param b set_cheapest_loop [of "pathlist rel"]
    by (simp_all add: fold_best_def filter_id_conv filter_empty_conv)
  have cost: "compare_path_costs b q TOTAL_COST \<le> 0 \<Longrightarrow> total_cost b \<le> total_cost q" for q
    by (auto simp: compare_path_costs_total)
  have "set_cheapest rel = Inr (set_cheapest_fields rel ?st)" using True by (simp add: set_cheapest_def)
  then show ?thesis
    using True st b(2) cost
    by (intro conjI impI exI [of _ "set_cheapest_fields rel ?st"] exI [of _ b])
      (auto simp: set_cheapest_fields_def cheapest_least_param_def least_param_def)
qed (auto simp: set_cheapest_def)

theorem set_cheapest_parameterized_witness:
  "\<exists>rel' b. set_cheapest ((empty_rel True False)\<lparr>pathlist := [(sample_path 1 5 100 1)\<lparr>param_info := Some \<lparr>ppi_req_outer = Some [2], ppi_rows = 1\<rparr>\<rparr>]\<rparr>)
     = Inr rel' \<and> cheapest_total_path rel' = Some b \<and> cheapest_startup_path rel' = None \<and> total_cost b = 100"
  using set_cheapest_parameterized [of "(empty_rel True False)\<lparr>pathlist := [(sample_path 1 5 100 1)\<lparr>param_info :=
    Some \<lparr>ppi_req_outer = Some [2], ppi_rows = 1\<rparr>\<rparr>]\<rparr>"]
  by (auto simp: sample_path_def)

text \<open>C7: \<^verbatim>\<open>set_cheapest_explore\<close> computes the Pareto frontier. When the relation has an unparameterized
  path, its result is that of \<^verbatim>\<open>set_cheapest\<close> with one more list, and that list holds exactly the
  unparameterized paths that no other one beats: none is cheaper with at least the exploration value, or as
  cheap with more. So each unparameterized path is matched on both by a path of the list, and a path of
  least total cost is on it.\<close>

theorem set_cheapest_explore_pareto:
  assumes "unparameterized (pathlist rel) \<noteq> []"
  shows "\<exists>rel0 paths. set_cheapest rel = Inr rel0 \<and>
    set_cheapest_explore rel = Inr (rel0\<lparr>cheapest_cost_explore_pathlist := paths\<rparr>) \<and>
    set paths = frontier (set (unparameterized (pathlist rel))) \<and>
    (\<forall>p \<in> set (unparameterized (pathlist rel)). \<exists>q \<in> set paths.
       total_cost q \<le> total_cost p \<and> explore_value p \<le> explore_value q)"
proof -
  let ?U = "unparameterized (pathlist rel)"
  obtain rel0 paths where rel: "set_cheapest rel = Inr rel0"
    "set_cheapest_explore rel = Inr (rel0\<lparr>cheapest_cost_explore_pathlist := paths\<rparr>)" and inv: "frontier_inv paths (set ?U)"
    using assms by (rule set_cheapest_explore_extends)
  have "\<exists>q \<in> set paths. total_cost q \<le> total_cost p \<and> explore_value p \<le> explore_value q" if p: "p \<in> set ?U" for p
  proof -
    obtain q where "q \<in> set paths" "weakly_better q p" using frontier_inv_cover [OF inv p] by blast
    then show ?thesis by (intro bexI [of _ q]) (auto simp: weakly_better_def compare_path_costs_total)
  qed
  moreover have "set paths = frontier (set ?U)" using inv by (simp add: frontier_inv_def)
  ultimately show ?thesis using rel by blast
qed

theorem set_cheapest_explore_pareto_witness:
  "\<exists>rel0 paths. set_cheapest_explore ((empty_rel True False)\<lparr>pathlist := [sample_path 1 5 100 1, sample_path 2 1 130 2]\<rparr>) =
     Inr (rel0\<lparr>cheapest_cost_explore_pathlist := paths\<rparr>) \<and>
     set paths = frontier {sample_path 1 5 100 1, sample_path 2 1 130 2}"
proof -
  have "unparameterized (pathlist ((empty_rel True False)\<lparr>pathlist := [sample_path 1 5 100 1, sample_path 2 1 130 2]\<rparr>)) =
      [sample_path 1 5 100 1, sample_path 2 1 130 2]"
    by (simp add: sample_path_def)
  then show ?thesis
    using set_cheapest_explore_pareto
      [of "(empty_rel True False)\<lparr>pathlist := [sample_path 1 5 100 1, sample_path 2 1 130 2]\<rparr>"] by auto
qed

end
