(* ===== verification/PlanChoice.thy ===== *)
theory PlanChoice
  imports CheapestPath
begin

text \<open>
  The planner's final choice among the paths of the top relation
  (\<^verbatim>\<open>src/backend/optimizer/plan/planner.c\<close>): \<^verbatim>\<open>get_cheapest_fractional_path\<close>, the three
  variants \<^verbatim>\<open>get_cheapest_explore_fractional_path\<close>, \<^verbatim>\<open>..._path2\<close> and
  \<^verbatim>\<open>..._path3\<close> that trade cost for exploration value, and the choice between them in
  \<^verbatim>\<open>standard_planner\<close>. Each reads the cheapest total path of the relation first; \<open>None\<close> stands for
  dereferencing it when it is NULL.

  All exploratory variants run one loop: among the paths within a cost budget keep the one with the most
  exploration value. The loop is a locale; its lemmas give the bound on the regret and the optimality of
  the chosen exploration value for every variant.
\<close>

subsection \<open>The standard choice\<close>

definition scaled_fraction :: "Path \<Rightarrow> real \<Rightarrow> real" where
  "scaled_fraction best_path tuple_fraction =
     (if tuple_fraction \<ge> 1 \<and> rows best_path > 0 then tuple_fraction / rows best_path else tuple_fraction)"

definition cheapest_fractional_loop :: "Path \<Rightarrow> real \<Rightarrow> Path list \<Rightarrow> Path" where
  "cheapest_fractional_loop cheapest tuple_fraction paths =
     foldl (\<lambda>best_path path.
        if path_addr path = path_addr cheapest \<or>
           compare_fractional_path_costs best_path path tuple_fraction \<le> 0
        then best_path else path) cheapest paths"

definition get_cheapest_fractional_path :: "RelOptInfo \<Rightarrow> real \<Rightarrow> Path option" where
  "get_cheapest_fractional_path rel tuple_fraction =
     map_option (\<lambda>best_path.
        if tuple_fraction \<le> 0 then best_path
        else cheapest_fractional_loop best_path (scaled_fraction best_path tuple_fraction) (pathlist rel))
       (cheapest_total_path rel)"

subsection \<open>The exploratory choices\<close>

text \<open>The loop: replace the current choice by a path within the budget that the test prefers.\<close>

definition explore_loop :: "(Path \<Rightarrow> bool) \<Rightarrow> (Path \<Rightarrow> Path \<Rightarrow> bool) \<Rightarrow> Path \<Rightarrow> Path list \<Rightarrow> Path" where
  "explore_loop affordable better best_path paths =
     foldl (\<lambda>best_explore_path path.
        if affordable path \<and> better path best_explore_path then path else best_explore_path) best_path paths"

definition prefer_total :: "Path \<Rightarrow> Path \<Rightarrow> bool" where
  "prefer_total path best \<longleftrightarrow>
     explore_value path > explore_value best \<or>
     explore_value path = explore_value best \<and>
       (total_cost path < total_cost best \<or>
        total_cost path = total_cost best \<and> startup_cost path < startup_cost best)"

definition prefer_fractional :: "real \<Rightarrow> Path \<Rightarrow> Path \<Rightarrow> bool" where
  "prefer_fractional tuple_fraction path best \<longleftrightarrow>
     explore_value path > explore_value best \<or>
     explore_value path = explore_value best \<and>
       (compare_fractional_path_costs path best tuple_fraction < 0 \<or>
        compare_fractional_path_costs path best tuple_fraction = 0 \<and>
          (total_cost path < total_cost best \<or>
           total_cost path = total_cost best \<and> startup_cost path < startup_cost best))"

definition get_cheapest_explore_fractional_path :: "RelOptInfo \<Rightarrow> real \<Rightarrow> real \<Rightarrow> Path option" where
  "get_cheapest_explore_fractional_path rel tuple_fraction rate =
     map_option (\<lambda>best_path.
        if tuple_fraction \<le> 0 then
          explore_loop
            (\<lambda>path. total_cost path \<le> total_cost best_path * (1 + rate) \<and> explore_value path \<ge> explore_value best_path)
            prefer_total best_path (pathlist rel)
        else
          let tuple_fraction = scaled_fraction best_path tuple_fraction;
              best_path = cheapest_fractional_loop best_path tuple_fraction (pathlist rel)
          in explore_loop
               (\<lambda>path. fractional_cost path tuple_fraction \<le> fractional_cost best_path tuple_fraction * (1 + rate) \<and>
                  explore_value path \<ge> explore_value best_path)
               (prefer_fractional tuple_fraction) best_path (pathlist rel))
       (cheapest_total_path rel)"

definition prefer_total2 :: "Path \<Rightarrow> Path \<Rightarrow> bool" where
  "prefer_total2 path best \<longleftrightarrow>
     explore_value path > explore_value best \<or>
     explore_value path = explore_value best \<and> total_cost path < total_cost best"

definition prefer_fractional2 :: "real \<Rightarrow> Path \<Rightarrow> Path \<Rightarrow> bool" where
  "prefer_fractional2 tuple_fraction path best \<longleftrightarrow>
     explore_value path > explore_value best \<or>
     explore_value path = explore_value best \<and> compare_fractional_path_costs path best tuple_fraction \<le> 0"

definition get_cheapest_explore_fractional_path2 ::
  "RelOptInfo \<Rightarrow> real \<Rightarrow> real \<Rightarrow> cost \<Rightarrow> real \<Rightarrow> Path option" where
  "get_cheapest_explore_fractional_path2 rel tuple_fraction rate1 best_estimated_cost rate2 =
     map_option (\<lambda>best_path.
        if tuple_fraction \<le> 0 then
          explore_loop
            (\<lambda>path. total_cost path \<le> total_cost best_path * (1 + rate1) \<and>
               total_cost path \<le> best_estimated_cost * (1 + rate2))
            prefer_total2 best_path (cheapest_cost_explore_pathlist rel)
        else
          let tuple_fraction = scaled_fraction best_path tuple_fraction;
              best_path = cheapest_fractional_loop best_path tuple_fraction (pathlist rel)
          in explore_loop
               (\<lambda>path. fractional_cost path tuple_fraction \<le> fractional_cost best_path tuple_fraction * (1 + rate1) \<and>
                  total_cost path \<le> best_estimated_cost * (1 + rate2))
               (prefer_fractional2 tuple_fraction) best_path (pathlist rel))
       (cheapest_total_path rel)"

definition get_cheapest_explore_fractional_path3 ::
  "RelOptInfo \<Rightarrow> real \<Rightarrow> real \<Rightarrow> cost \<Rightarrow> real \<Rightarrow> Path option" where
  "get_cheapest_explore_fractional_path3 rel tuple_fraction rate1 best_estimated_cost rate2 =
     map_option (\<lambda>best_path.
        if tuple_fraction \<le> 0 then
          let final_cost = (total_cost best_path * rate2 + best_estimated_cost * (1 - rate2)) * (1 + rate1)
          in explore_loop
               (\<lambda>path. total_cost path \<le> final_cost \<and> explore_value path \<ge> explore_value best_path * (1 + 1 / 2))
               prefer_total2 best_path (pathlist rel)
        else
          let tuple_fraction = scaled_fraction best_path tuple_fraction;
              best_path = cheapest_fractional_loop best_path tuple_fraction (pathlist rel)
          in explore_loop
               (\<lambda>path. fractional_cost path tuple_fraction \<le> fractional_cost best_path tuple_fraction * (1 + rate1) \<and>
                  explore_value path \<ge> explore_value best_path * (1 + 1 / 2))
               (prefer_fractional2 tuple_fraction) best_path (pathlist rel))
       (cheapest_total_path rel)"

text \<open>The choice in \<^verbatim>\<open>standard_planner\<close>.\<close>

definition planner_best_path :: "int \<Rightarrow> RelOptInfo \<Rightarrow> real \<Rightarrow> real \<Rightarrow> Path option" where
  "planner_best_path search_plan_mode final_rel tuple_fraction rate_to_generate_explore_plan =
     (if search_plan_mode = 0 then get_cheapest_fractional_path final_rel tuple_fraction
      else get_cheapest_explore_fractional_path final_rel tuple_fraction rate_to_generate_explore_plan)"

subsection \<open>The contract of the loop\<close>

locale explore_choice =
  fixes better :: "Path \<Rightarrow> Path \<Rightarrow> bool" and no_dearer :: "Path \<Rightarrow> Path \<Rightarrow> bool"
  assumes prefers_value: "explore_value q < explore_value p \<Longrightarrow> better p q"
    and value_first: "explore_value p < explore_value q \<Longrightarrow> \<not> better p q"
    and tie_replace: "explore_value p = explore_value q \<Longrightarrow> better p q \<Longrightarrow> no_dearer p q"
    and tie_keep: "explore_value p = explore_value q \<Longrightarrow> \<not> better p q \<Longrightarrow> no_dearer q p"
    and no_dearer_trans: "no_dearer p q \<Longrightarrow> no_dearer q r \<Longrightarrow> no_dearer p r"
    and no_dearer_refl: "no_dearer p p"
begin

definition at_least :: "Path \<Rightarrow> Path \<Rightarrow> bool" where
  "at_least p q \<longleftrightarrow> explore_value q < explore_value p \<or> explore_value q = explore_value p \<and> no_dearer p q"

lemma at_least_refl: "at_least p p"
  by (simp add: at_least_def no_dearer_refl)

lemma at_least_trans: "at_least p q \<Longrightarrow> at_least q r \<Longrightarrow> at_least p r"
  using no_dearer_trans by (auto simp: at_least_def)

lemma prefer_at_least: "(better p q \<longrightarrow> at_least p q) \<and> (\<not> better p q \<longrightarrow> at_least q p)"
  using prefers_value value_first tie_replace tie_keep
  by (cases "explore_value p" "explore_value q" rule: linorder_cases) (auto simp: at_least_def)

lemma explore_loop_optimal:
  "at_least (explore_loop affordable better best ps) best \<and>
   (\<forall>p \<in> set ps. affordable p \<longrightarrow> at_least (explore_loop affordable better best ps) p) \<and>
   (explore_loop affordable better best ps = best \<or>
    explore_loop affordable better best ps \<in> set ps \<and> affordable (explore_loop affordable better best ps))"
proof (induction ps arbitrary: best)
  case Nil
  show ?case by (simp add: explore_loop_def at_least_refl)
next
  case (Cons p ps)
  let ?best = "if affordable p \<and> better p best then p else best"
  have eq: "explore_loop affordable better best (p # ps) = explore_loop affordable better ?best ps"
    by (simp add: explore_loop_def)
  have "at_least ?best best" "affordable p \<longrightarrow> at_least ?best p"
    using prefer_at_least [of p best] at_least_refl by auto
  with Cons.IH [of ?best] show ?case unfolding eq by (auto intro: at_least_trans)
qed

end

subsection \<open>The variants meet the contract\<close>

lemma compare_fractional_swap: "compare_fractional_path_costs p q f = - compare_fractional_path_costs q p f"
  using compare_path_costs_swap [of p q TOTAL_COST]
  by (auto simp: compare_fractional_path_costs_def Let_def)

lemma compare_fractional_refl: "compare_fractional_path_costs p p f = 0"
  by (simp add: compare_fractional_path_costs_def compare_path_costs_def)

lemma compare_fractional_trans:
  "compare_fractional_path_costs p q f \<le> 0 \<Longrightarrow> compare_fractional_path_costs q r f \<le> 0 \<Longrightarrow>
     compare_fractional_path_costs p r f \<le> 0"
  using compare_path_costs_trans [of p q TOTAL_COST r]
  by (auto simp: compare_fractional_path_costs_def Let_def split: if_splits)

interpretation total_choice: explore_choice prefer_total "\<lambda>p q. compare_path_costs p q TOTAL_COST \<le> 0"
  by unfold_locales (auto simp: prefer_total_def compare_path_costs_total)

interpretation fractional_choice: explore_choice "prefer_fractional f" "\<lambda>p q. compare_fractional_path_costs p q f \<le> 0" for f
proof
  show "compare_fractional_path_costs q p f \<le> 0"
    if "explore_value p = explore_value q" "\<not> prefer_fractional f p q" for p q
    using that compare_fractional_swap [of q p f] by (auto simp: prefer_fractional_def)
qed (auto simp: prefer_fractional_def compare_fractional_refl intro: compare_fractional_trans)

interpretation total_choice2: explore_choice prefer_total2 "\<lambda>p q. total_cost p \<le> total_cost q"
  by unfold_locales (auto simp: prefer_total2_def)

interpretation fractional_choice2: explore_choice "prefer_fractional2 f" "\<lambda>p q. compare_fractional_path_costs p q f \<le> 0" for f
proof
  show "compare_fractional_path_costs q p f \<le> 0"
    if "explore_value p = explore_value q" "\<not> prefer_fractional2 f p q" for p q
    using that compare_fractional_swap [of q p f] by (auto simp: prefer_fractional2_def)
qed (auto simp: prefer_fractional2_def compare_fractional_refl intro: compare_fractional_trans)

subsection \<open>The cheapest fractional path\<close>

lemma cheapest_fractional_loop_least:
  assumes "\<forall>p \<in> set ps. path_addr p = path_addr cheapest \<longrightarrow> p = cheapest"
  shows "cheapest_fractional_loop cheapest f ps \<in> insert cheapest (set ps) \<and>
    (\<forall>p \<in> insert cheapest (set ps). compare_fractional_path_costs (cheapest_fractional_loop cheapest f ps) p f \<le> 0)"
  using assms
proof (induction ps rule: rev_induct)
  case Nil
  show ?case by (simp add: cheapest_fractional_loop_def compare_fractional_refl)
next
  case (snoc p ps)
  let ?b = "cheapest_fractional_loop cheapest f ps"
  have ih: "?b \<in> insert cheapest (set ps)" "\<forall>q \<in> insert cheapest (set ps). compare_fractional_path_costs ?b q f \<le> 0"
    using snoc by auto
  have step: "cheapest_fractional_loop cheapest f (ps @ [p]) =
      (if path_addr p = path_addr cheapest \<or> compare_fractional_path_costs ?b p f \<le> 0 then ?b else p)"
    by (simp add: cheapest_fractional_loop_def)
  show ?case
  proof (cases "path_addr p = path_addr cheapest \<or> compare_fractional_path_costs ?b p f \<le> 0")
    case True
    then have "compare_fractional_path_costs ?b p f \<le> 0" using ih snoc.prems by auto
    then show ?thesis using True ih by (auto simp: step)
  next
    case False
    then have "compare_fractional_path_costs p ?b f \<le> 0" using compare_fractional_swap [of p ?b f] by simp
    then have "compare_fractional_path_costs p q f \<le> 0" if "q \<in> insert cheapest (set ps)" for q
      using ih(2) that compare_fractional_trans by blast
    then show ?thesis using False by (auto simp: step compare_fractional_refl)
  qed
qed

lemma explore_choice_total:
  assumes "cheapest_total_path rel = Some ct" "0 \<le> total_cost ct" "0 \<le> rate" "t \<le> 0"
  obtains b where "get_cheapest_explore_fractional_path rel t rate = Some b" "b \<in> insert ct (set (pathlist rel))"
    "total_cost b \<le> total_cost ct * (1 + rate)" "explore_value ct \<le> explore_value b"
    "\<forall>p \<in> set (pathlist rel). total_cost p \<le> total_cost ct * (1 + rate) \<longrightarrow>
       explore_value p \<le> explore_value b \<and> (explore_value p = explore_value b \<longrightarrow> total_cost b \<le> total_cost p)"
proof -
  let ?a = "\<lambda>path. total_cost path \<le> total_cost ct * (1 + rate) \<and> explore_value path \<ge> explore_value ct"
  let ?b = "explore_loop ?a prefer_total ct (pathlist rel)"
  have res: "get_cheapest_explore_fractional_path rel t rate = Some ?b"
    using assms(1, 4) by (simp add: get_cheapest_explore_fractional_path_def)
  have budget: "total_cost ct \<le> total_cost ct * (1 + rate)"
    using mult_left_mono [of 1 "1 + rate" "total_cost ct"] assms(2, 3) by simp
  note opt = total_choice.explore_loop_optimal [of ?a ct "pathlist rel"]
  have "explore_value ct \<le> explore_value ?b" using opt by (auto simp: total_choice.at_least_def)
  moreover have "total_cost ?b \<le> total_cost ct * (1 + rate)" "?b \<in> insert ct (set (pathlist rel))" using opt budget by auto
  moreover have "explore_value p \<le> explore_value ?b \<and> (explore_value p = explore_value ?b \<longrightarrow> total_cost ?b \<le> total_cost p)"
    if "p \<in> set (pathlist rel)" "total_cost p \<le> total_cost ct * (1 + rate)" for p
  proof (cases "explore_value ct \<le> explore_value p")
    case True
    then have "explore_value p < explore_value ?b \<or>
        explore_value p = explore_value ?b \<and> compare_path_costs ?b p TOTAL_COST \<le> 0"
      using opt that unfolding total_choice.at_least_def by blast
    then show ?thesis by (auto simp: compare_path_costs_total)
  qed (use calculation(1) in auto)
  ultimately show thesis using res that by blast
qed

subsection \<open>Properties\<close>

text \<open>\<^verbatim>\<open>get_cheapest_fractional_path\<close> returns a path of the relation that is no more expensive than any
  other for the fraction of tuples wanted, and the cheapest total path when all tuples are wanted.\<close>

lemma get_cheapest_fractional_path_least:
  assumes "cheapest_total_path rel = Some ct" "ct \<in> set (pathlist rel)" "distinct (map path_addr (pathlist rel))"
  shows "(t \<le> 0 \<longrightarrow> get_cheapest_fractional_path rel t = Some ct) \<and>
    (t > 0 \<longrightarrow> (\<exists>b \<in> set (pathlist rel). get_cheapest_fractional_path rel t = Some b \<and>
       (\<forall>p \<in> set (pathlist rel). compare_fractional_path_costs b p (scaled_fraction ct t) \<le> 0)))"
proof -
  have "\<forall>p \<in> set (pathlist rel). path_addr p = path_addr ct \<longrightarrow> p = ct"
    using assms(2) addr_inj [OF assms(3)] by blast
  from cheapest_fractional_loop_least [OF this, of "scaled_fraction ct t"] assms(1, 2) show ?thesis
    by (auto simp: get_cheapest_fractional_path_def insert_absorb)
qed

text \<open>C19: bounded regret of the exploratory choice when all tuples are wanted. For a non-negative rate the chosen
  path costs at most (1 + rate) times the cheapest total path and has at least its exploration value; no path of
  the relation within that budget has more exploration value; and among those with equal value the chosen one is
  cheapest.\<close>

theorem explore_choice_regret:
  assumes "cheapest_total_path rel = Some ct" "0 \<le> total_cost ct" "0 \<le> rate" "t \<le> 0"
  shows "\<exists>b. get_cheapest_explore_fractional_path rel t rate = Some b \<and> b \<in> insert ct (set (pathlist rel)) \<and>
    total_cost b \<le> total_cost ct * (1 + rate) \<and> explore_value ct \<le> explore_value b \<and>
    (\<forall>p \<in> set (pathlist rel). total_cost p \<le> total_cost ct * (1 + rate) \<longrightarrow>
       explore_value p \<le> explore_value b \<and>
       (explore_value p = explore_value b \<longrightarrow> total_cost b \<le> total_cost p))"
  using assms by (rule explore_choice_total) blast

theorem explore_choice_regret_witness:
  "\<exists>b. get_cheapest_explore_fractional_path ((empty_rel True False)\<lparr>pathlist := [sample_path 1 50 100 1, sample_path 2 1 130 2],
       cheapest_total_path := Some (sample_path 1 50 100 1)\<rparr>) 0 (1 / 2) = Some b \<and>
     total_cost b \<le> 150 \<and> 2 \<le> explore_value b"
  using explore_choice_regret [of "(empty_rel True False)\<lparr>pathlist := [sample_path 1 50 100 1, sample_path 2 1 130 2],
       cheapest_total_path := Some (sample_path 1 50 100 1)\<rparr>" "sample_path 1 50 100 1" "1 / 2" 0]
  by (auto simp: sample_path_def)

text \<open>C36: bounded regret when only a fraction of the tuples is wanted: the chosen path costs at most (1 + rate)
  times the cheapest one for that fraction, has at least its exploration value, and no path within that budget
  has more.\<close>

theorem explore_choice_fractional_regret:
  assumes "cheapest_total_path rel = Some ct" "0 < t" "0 \<le> rate" "ct \<in> set (pathlist rel)"
    "distinct (map path_addr (pathlist rel))"
    and "\<forall>p \<in> set (pathlist rel). 0 \<le> fractional_cost p (scaled_fraction ct t)"
  shows "\<exists>cheapest \<in> set (pathlist rel). \<exists>b \<in> set (pathlist rel).
    (\<forall>p \<in> set (pathlist rel). compare_fractional_path_costs cheapest p (scaled_fraction ct t) \<le> 0) \<and>
    get_cheapest_explore_fractional_path rel t rate = Some b \<and>
    fractional_cost b (scaled_fraction ct t) \<le> fractional_cost cheapest (scaled_fraction ct t) * (1 + rate) \<and>
    explore_value cheapest \<le> explore_value b \<and>
    (\<forall>p \<in> set (pathlist rel).
       fractional_cost p (scaled_fraction ct t) \<le> fractional_cost cheapest (scaled_fraction ct t) * (1 + rate) \<longrightarrow>
       explore_value p \<le> explore_value b)"
proof -
  let ?f = "scaled_fraction ct t"
  let ?c = "cheapest_fractional_loop ct ?f (pathlist rel)"
  let ?a = "\<lambda>path. fractional_cost path ?f \<le> fractional_cost ?c ?f * (1 + rate) \<and> explore_value path \<ge> explore_value ?c"
  let ?b = "explore_loop ?a (prefer_fractional ?f) ?c (pathlist rel)"
  have "\<forall>p \<in> set (pathlist rel). path_addr p = path_addr ct \<longrightarrow> p = ct"
    using assms(4) addr_inj [OF assms(5)] by blast
  from cheapest_fractional_loop_least [OF this, of ?f] assms(4)
  have c: "?c \<in> set (pathlist rel)" "\<forall>p \<in> set (pathlist rel). compare_fractional_path_costs ?c p ?f \<le> 0"
    by (auto simp: insert_absorb)
  have budget: "fractional_cost ?c ?f \<le> fractional_cost ?c ?f * (1 + rate)"
    using mult_left_mono [of 1 "1 + rate" "fractional_cost ?c ?f"] assms(3, 6) c(1) by simp
  note opt = fractional_choice.explore_loop_optimal [of ?f ?a ?c "pathlist rel"]
  have "get_cheapest_explore_fractional_path rel t rate = Some ?b"
    using assms(1, 2) by (simp add: get_cheapest_explore_fractional_path_def Let_def)
  moreover have ev: "explore_value ?c \<le> explore_value ?b" using opt by (auto simp: fractional_choice.at_least_def)
  moreover have "fractional_cost ?b ?f \<le> fractional_cost ?c ?f * (1 + rate)" "?b \<in> set (pathlist rel)"
    using opt budget c(1) by auto
  moreover have "explore_value p \<le> explore_value ?b"
    if "p \<in> set (pathlist rel)" "fractional_cost p ?f \<le> fractional_cost ?c ?f * (1 + rate)" for p
  proof (cases "explore_value ?c \<le> explore_value p")
    case True
    then have "fractional_choice.at_least ?f ?b p" using opt that by blast
    then show ?thesis by (auto simp: fractional_choice.at_least_def)
  qed (use ev in auto)
  ultimately show ?thesis using c by blast
qed

theorem explore_choice_fractional_regret_witness:
  "\<exists>b. get_cheapest_explore_fractional_path ((empty_rel True False)\<lparr>pathlist := [sample_path 1 50 100 1, sample_path 2 1 130 2],
       cheapest_total_path := Some (sample_path 1 50 100 1)\<rparr>) (1 / 10) 0 = Some b"
  using explore_choice_fractional_regret [of "(empty_rel True False)\<lparr>pathlist := [sample_path 1 50 100 1, sample_path 2 1 130 2],
       cheapest_total_path := Some (sample_path 1 50 100 1)\<rparr>" "sample_path 1 50 100 1" "1 / 10" 0]
  by (auto simp: sample_path_def scaled_fraction_def fractional_cost_def)

text \<open>The second and third variant never choose a path above their budgets: the second chooses the cheapest
  total path or a frontier path that is within both of its bounds; the third chooses the cheapest total path or a
  path within its combined bound that has at least one and a half times its exploration value; and no candidate
  within the bounds has more exploration value than the choice.\<close>

lemma explore_choice_variants:
  assumes "cheapest_total_path rel = Some ct" "t \<le> 0"
  shows "(\<exists>b. get_cheapest_explore_fractional_path2 rel t rate1 est rate2 = Some b \<and>
      (b = ct \<or> b \<in> set (cheapest_cost_explore_pathlist rel) \<and>
         total_cost b \<le> min (total_cost ct * (1 + rate1)) (est * (1 + rate2))) \<and>
      (\<forall>p \<in> set (cheapest_cost_explore_pathlist rel).
         total_cost p \<le> min (total_cost ct * (1 + rate1)) (est * (1 + rate2)) \<longrightarrow> explore_value p \<le> explore_value b)) \<and>
    (\<exists>b. get_cheapest_explore_fractional_path3 rel t rate1 est rate2 = Some b \<and>
      (b = ct \<or> b \<in> set (pathlist rel) \<and> explore_value ct * (3 / 2) \<le> explore_value b \<and>
         total_cost b \<le> (total_cost ct * rate2 + est * (1 - rate2)) * (1 + rate1)) \<and>
      (\<forall>p \<in> set (pathlist rel). explore_value ct * (3 / 2) \<le> explore_value p \<and>
         total_cost p \<le> (total_cost ct * rate2 + est * (1 - rate2)) * (1 + rate1) \<longrightarrow> explore_value p \<le> explore_value b))"
proof (intro conjI)
  let ?a2 = "\<lambda>path. total_cost path \<le> total_cost ct * (1 + rate1) \<and> total_cost path \<le> est * (1 + rate2)"
  show "\<exists>b. get_cheapest_explore_fractional_path2 rel t rate1 est rate2 = Some b \<and>
      (b = ct \<or> b \<in> set (cheapest_cost_explore_pathlist rel) \<and>
         total_cost b \<le> min (total_cost ct * (1 + rate1)) (est * (1 + rate2))) \<and>
      (\<forall>p \<in> set (cheapest_cost_explore_pathlist rel).
         total_cost p \<le> min (total_cost ct * (1 + rate1)) (est * (1 + rate2)) \<longrightarrow> explore_value p \<le> explore_value b)"
    using assms total_choice2.explore_loop_optimal [of ?a2 ct "cheapest_cost_explore_pathlist rel"]
    by (auto simp: get_cheapest_explore_fractional_path2_def total_choice2.at_least_def)
  let ?a3 = "\<lambda>path. total_cost path \<le> (total_cost ct * rate2 + est * (1 - rate2)) * (1 + rate1) \<and>
      explore_value path \<ge> explore_value ct * (1 + 1 / 2)"
  show "\<exists>b. get_cheapest_explore_fractional_path3 rel t rate1 est rate2 = Some b \<and>
      (b = ct \<or> b \<in> set (pathlist rel) \<and> explore_value ct * (3 / 2) \<le> explore_value b \<and>
         total_cost b \<le> (total_cost ct * rate2 + est * (1 - rate2)) * (1 + rate1)) \<and>
      (\<forall>p \<in> set (pathlist rel). explore_value ct * (3 / 2) \<le> explore_value p \<and>
         total_cost p \<le> (total_cost ct * rate2 + est * (1 - rate2)) * (1 + rate1) \<longrightarrow> explore_value p \<le> explore_value b)"
    using assms total_choice2.explore_loop_optimal [of ?a3 ct "pathlist rel"]
    by (auto simp: get_cheapest_explore_fractional_path3_def total_choice2.at_least_def Let_def)
qed

end
