(* ===== verification/AqoContext.thy ===== *)
theory AqoContext
  imports AqoUtils
begin

text \<open>
  The shared declarations of the extension (\<^verbatim>\<open>contrib/aqo/aqo.h\<close>, the globals of
  \<^verbatim>\<open>contrib/aqo/aqo.c\<close>): the modes, the tuning constants, the context of the query being
  processed and the statistics kept for a query type.

  The globals of \<^verbatim>\<open>aqo.c\<close> other than the mode are never assigned, so they are constants here.
  Clock readings (\<^verbatim>\<open>instr_time\<close>) are real numbers of seconds. A statistics array is its
  buffer of \<^verbatim>\<open>aqo_stat_size\<close> cells together with the number of cells in use, as in
  \<^verbatim>\<open>QueryStat\<close>.
\<close>

subsection \<open>Modes and constants\<close>

datatype AQO_MODE = AQO_MODE_INTELLIGENT | AQO_MODE_FORCED | AQO_MODE_CONTROLLED | AQO_MODE_LEARN
  | AQO_MODE_DISABLED

definition aqo_stat_size :: nat where "aqo_stat_size = 20"

definition auto_tuning_window_size :: nat where "auto_tuning_window_size = 5"

definition auto_tuning_infinite_loop :: nat where "auto_tuning_infinite_loop = 8"

definition object_selection_object_threshold :: real where "object_selection_object_threshold = 1 / 10"

definition learning_rate :: real where "learning_rate = 1 / 10"

definition aqo_K :: nat where "aqo_K = 30"

definition num_history_data_compute_probability_fs :: nat where
  "num_history_data_compute_probability_fs = 3"

definition num_query_pattern :: nat where "num_query_pattern = 7"

definition num_two_costs_save :: nat where "num_two_costs_save = 66"

definition rate_to_generate_explore_plan :: real where "rate_to_generate_explore_plan = 1 / 100"

definition rate_to_compare_best_est_cost :: real where "rate_to_compare_best_est_cost = 1"

definition prune_rate_for_add_path_explore :: real where
  "prune_rate_for_add_path_explore = 101 / 100"

subsection \<open>The query context\<close>

record QueryContextData =
  query_hash :: c_int
  learn_aqo :: bool
  use_aqo :: bool
  fspace_hash :: c_int
  auto_tuning :: bool
  collect_stat :: bool
  adding_query :: bool
  explain_only :: bool
  explain_aqo :: bool
  query_starttime :: real
  query_planning_time :: real
  current_query_hash :: c_int
  query_distribution :: "real list"
  nfeatures :: nat
  current_query_features :: "real list"
  best_est_cost :: cost
  best_pred_cost :: cost

definition disable_aqo_for_query :: "QueryContextData \<Rightarrow> QueryContextData" where
  "disable_aqo_for_query c =
     c\<lparr>adding_query := False, learn_aqo := False, use_aqo := False, auto_tuning := False,
        collect_stat := False\<rparr>"

subsection \<open>Statistics of a query type\<close>

record QueryStat =
  execution_time_with_aqo :: "real list"
  execution_time_without_aqo :: "real list"
  planning_time_with_aqo :: "real list"
  planning_time_without_aqo :: "real list"
  cardinality_error_with_aqo :: "real list"
  cardinality_error_without_aqo :: "real list"
  execution_time_with_aqo_size :: nat
  execution_time_without_aqo_size :: nat
  planning_time_with_aqo_size :: nat
  planning_time_without_aqo_size :: nat
  cardinality_error_with_aqo_size :: nat
  cardinality_error_without_aqo_size :: nat
  executions_with_aqo :: "64 word"
  executions_without_aqo :: "64 word"

text \<open>
  \<^verbatim>\<open>palloc0\<close> clears the structure, so every size and counter starts at 0; the six arrays come
  from \<^verbatim>\<open>palloc\<close> and hold what the memory held before, \<open>mem i\<close> for the \<open>i\<close>-th of them.
\<close>

definition palloc_query_stat :: "(nat \<Rightarrow> real list) \<Rightarrow> QueryStat" where
  "palloc_query_stat mem =
     \<lparr>execution_time_with_aqo = mem 0, execution_time_without_aqo = mem 1,
      planning_time_with_aqo = mem 2, planning_time_without_aqo = mem 3,
      cardinality_error_with_aqo = mem 4, cardinality_error_without_aqo = mem 5,
      execution_time_with_aqo_size = 0, execution_time_without_aqo_size = 0,
      planning_time_with_aqo_size = 0, planning_time_without_aqo_size = 0,
      cardinality_error_with_aqo_size = 0, cardinality_error_without_aqo_size = 0,
      executions_with_aqo = 0, executions_without_aqo = 0\<rparr>"

lemma disable_aqo_for_query_flags [simp]:
  "\<not> learn_aqo (disable_aqo_for_query c)" "\<not> use_aqo (disable_aqo_for_query c)"
  "\<not> auto_tuning (disable_aqo_for_query c)" "\<not> collect_stat (disable_aqo_for_query c)"
  "\<not> adding_query (disable_aqo_for_query c)"
  by (simp_all add: disable_aqo_for_query_def)

end
