(* ===== verification/MachineLearning.thy ===== *)
theory MachineLearning
  imports AqoContext
begin

text \<open>
  The nearest-neighbour regression of the extension (\<^verbatim>\<open>contrib/aqo/machine_learning.c\<close>):
  distance and weights, prediction, and the two online learning procedures.

  A matrix is the list of its preallocated rows, of which the first \<open>matrix_rows\<close> are in use. The
  learning procedures return the updated arrays and the list of changed lines. Division by a distance
  of zero, which in C stores a NaN in the matrix, is \<open>Undefined\<close>.
\<close>

definition fs_distance :: "real list \<Rightarrow> real list \<Rightarrow> nat \<Rightarrow> real" where
  "fs_distance a b len =
     (let res = foldl (\<lambda>res i. res + (a ! i - b ! i) * (a ! i - b ! i)) 0 [0..<len]
      in if len \<noteq> 0 then sqrt (res / real len) else res)"

definition fs_similarity :: "real \<Rightarrow> real" where
  "fs_similarity distance = 1 / (1 / 1000 + distance)"

subsection \<open>The nearest rows and their weights\<close>

function shift_loop :: "nat \<Rightarrow> int list \<Rightarrow> nat \<Rightarrow> int \<Rightarrow> int list" where
  "shift_loop k idx j to_insert =
     (if j < k then shift_loop k (idx[j := to_insert]) (Suc j) (idx ! j) else idx)"
  by pat_completeness auto
termination by (relation "measure (\<lambda>(k, idx, j, t). k - j)") auto

declare shift_loop.simps [simp del]

function insert_loop :: "real list \<Rightarrow> nat \<Rightarrow> int list \<Rightarrow> nat \<Rightarrow> nat \<Rightarrow> int list" where
  "insert_loop distances k idx i j =
     (if j < k
      then if idx ! j = - 1 \<or> distances ! i < distances ! nat (idx ! j)
           then shift_loop k idx j (int i)
           else insert_loop distances k idx i (Suc j)
      else idx)"
  by pat_completeness auto
termination by (relation "measure (\<lambda>(d, k, idx, i, j). k - j)") auto

declare insert_loop.simps [simp del]

function weight_loop :: "real list \<Rightarrow> nat \<Rightarrow> int list \<Rightarrow> nat \<Rightarrow> real list \<Rightarrow> real \<Rightarrow> real list \<times> real" where
  "weight_loop distances k idx i w w_sum =
     (if i < k \<and> idx ! i \<noteq> - 1
      then let s = fs_similarity (distances ! nat (idx ! i))
           in weight_loop distances k idx (Suc i) (w[i := s]) (w_sum + s)
      else (w, w_sum))"
  by pat_completeness auto
termination by (relation "measure (\<lambda>(d, k, idx, i, w, s). k - i)") auto

declare weight_loop.simps [simp del]

definition OkNNr_compute_weights ::
    "real list \<Rightarrow> nat \<Rightarrow> nat \<Rightarrow> real list \<times> real \<times> int list" where
  "OkNNr_compute_weights distances matrix_rows k =
     (let idx = foldl (\<lambda>idx i. insert_loop distances k idx i 0) (replicate k (- 1)) [0..<matrix_rows];
          (w, w_sum) = weight_loop distances k idx 0 (replicate k 0) 0
      in (w, w_sum, idx))"

subsection \<open>Prediction\<close>

definition row_distances :: "nat \<Rightarrow> nat \<Rightarrow> real list list \<Rightarrow> real list \<Rightarrow> real list" where
  "row_distances matrix_rows matrix_cols matrix nw_features =
     map (\<lambda>i. fs_distance (matrix ! i) nw_features matrix_cols) [0..<matrix_rows]"

definition weighted_target :: "nat \<Rightarrow> int list \<Rightarrow> real list \<Rightarrow> real \<Rightarrow> real list \<Rightarrow> real" where
  "weighted_target k idx w w_sum targets =
     foldl (\<lambda>result i. if idx ! i \<noteq> - 1 then result + targets ! nat (idx ! i) * w ! i / w_sum else result)
       0 [0..<k]"

definition OkNNr_predict ::
    "nat \<Rightarrow> nat \<Rightarrow> real list list \<Rightarrow> real list \<Rightarrow> real list \<Rightarrow> nat \<Rightarrow> real" where
  "OkNNr_predict matrix_rows matrix_cols matrix targets nw_features k =
     (let distances = row_distances matrix_rows matrix_cols matrix nw_features;
          (w, w_sum, idx) = OkNNr_compute_weights distances matrix_rows k;
          result = weighted_target k idx w w_sum targets;
          result = (if result < 0 then 0 else result)
      in if idx ! 0 = - 1 then - 1 else result)"

definition OkNNr_predict2 ::
    "nat \<Rightarrow> nat \<Rightarrow> real list list \<Rightarrow> real list \<Rightarrow> real list \<Rightarrow> nat \<Rightarrow> real" where
  "OkNNr_predict2 matrix_rows matrix_cols matrix targets nw_features k =
     (if matrix_rows = 0 then 0
      else let distances = row_distances matrix_rows matrix_cols matrix nw_features;
               min_distance = foldl (\<lambda>m d. if d < m then d else m) 9999 distances
           in if min_distance > 1 / 10 then 0
              else let (w, w_sum, idx) = OkNNr_compute_weights distances matrix_rows k;
                       result = weighted_target k idx w w_sum targets;
                       result = (if result < 0 then 0 else result)
                   in if idx ! 0 = - 1 then - 1 else result)"

subsection \<open>Learning\<close>

definition nearest_row :: "real list \<Rightarrow> nat" where
  "nearest_row distances =
     foldl (\<lambda>best i. if distances ! i < distances ! best then i else best) 0 [0..<length distances]"

definition move_row :: "real \<Rightarrow> nat \<Rightarrow> real list \<Rightarrow> real list \<Rightarrow> real list" where
  "move_row rate matrix_cols nw_features row =
     foldl (\<lambda>row j. row[j := row ! j + rate * (nw_features ! j - row ! j)]) row [0..<matrix_cols]"

definition copy_row :: "nat \<Rightarrow> real list \<Rightarrow> real list \<Rightarrow> real list" where
  "copy_row matrix_cols nw_features row =
     foldl (\<lambda>row j. row[j := nw_features ! j]) row [0..<matrix_cols]"

definition gradient_row :: "real \<Rightarrow> real \<Rightarrow> nat \<Rightarrow> real list \<Rightarrow> real list \<Rightarrow> real list result" where
  "gradient_row coef2 distance matrix_cols nw_features row =
     (if matrix_cols \<noteq> 0 \<and> distance = 0 then Inl Undefined
      else Inr (foldl (\<lambda>row j. row[j := row ! j - coef2 * (nw_features ! j - row ! j) / distance]) row [0..<matrix_cols]))"

text \<open>
  The pass over the neighbours of the full matrix. \<^verbatim>\<open>sqrt(matrix_cols)\<close> divides a coefficient
  that is only used when there is a column, where it is not zero.
\<close>

function learn_loop ::
    "nat \<Rightarrow> int list \<Rightarrow> real list \<Rightarrow> real \<Rightarrow> real list \<Rightarrow> nat \<Rightarrow> real list \<Rightarrow> real \<Rightarrow> real \<Rightarrow> nat \<Rightarrow>
     real list list \<times> real list \<times> nat list \<Rightarrow> (real list list \<times> real list \<times> nat list) result" where
  "learn_loop k idx w w_sum distances matrix_cols nw_features result coef1 i (matrix, targets, lst) =
     (if i < k \<and> idx ! i \<noteq> - 1
      then let r = nat (idx ! i);
               coef2 = coef1 * (targets ! r - result) * w ! i * w ! i / sqrt (real matrix_cols) / w_sum
           in bind_result (gradient_row coef2 (distances ! r) matrix_cols nw_features (matrix ! r))
                (\<lambda>row. learn_loop k idx w w_sum distances matrix_cols nw_features result coef1 (Suc i)
                   (matrix[r := row], targets[r := targets ! r - coef1 * w ! i / w_sum], lst @ [r]))
      else Inr (matrix, targets, lst))"
  by pat_completeness auto
termination by (relation "measure (\<lambda>(k, idx, w, ws, d, c, f, res, c1, i, st). k - i)") auto

declare learn_loop.simps [simp del]

definition OkNNr_learn ::
    "nat \<Rightarrow> nat \<Rightarrow> real list list \<Rightarrow> real list \<Rightarrow> real list \<Rightarrow> real \<Rightarrow> nat \<Rightarrow>
     (real list list \<times> real list \<times> nat list) result" where
  "OkNNr_learn matrix_rows matrix_cols matrix targets nw_features nw_target k =
     (let distances = row_distances matrix_rows matrix_cols matrix nw_features;
          m = nearest_row distances
      in if matrix_rows < k
         then if matrix_rows \<noteq> 0 \<and> distances ! m < object_selection_object_threshold
              then Inr (matrix[m := move_row learning_rate matrix_cols nw_features (matrix ! m)],
                        targets[m := targets ! m + learning_rate * (nw_target - targets ! m)], [m])
              else Inr (matrix[matrix_rows := copy_row matrix_cols nw_features (matrix ! matrix_rows)],
                        targets[matrix_rows := nw_target], [matrix_rows])
         else let (w, w_sum, idx) = OkNNr_compute_weights distances matrix_rows k;
                  result = weighted_target k idx w w_sum targets
              in learn_loop k idx w w_sum distances matrix_cols nw_features result
                   (learning_rate * (result - nw_target)) 0 (matrix, targets, []))"

definition learn_nearest_costs ::
    "nat \<Rightarrow> nat \<Rightarrow> real list list \<Rightarrow> real list \<Rightarrow> real list \<Rightarrow> real list \<Rightarrow> real \<Rightarrow> real \<Rightarrow>
     real list list \<times> real list \<times> real list \<times> nat list" where
  "learn_nearest_costs m matrix_cols matrix best_est_costs best_true_costs nw_features nw_est_cost nw_true_cost =
     (let compare_rate = 1 / 100;
          hist_cost = best_true_costs ! m;
          moved = matrix[m := move_row (1 / 10) matrix_cols nw_features (matrix ! m)];
          est = best_est_costs[m := best_est_costs ! m + 1 * (nw_est_cost - best_est_costs ! m)]
      in if nw_true_cost = hist_cost
            \<or> nw_true_cost > hist_cost \<and> nw_true_cost < hist_cost * (1 + compare_rate)
            \<or> nw_true_cost < hist_cost \<and> nw_true_cost * (1 + compare_rate) > hist_cost
         then (moved, est, best_true_costs, [m])
         else if nw_true_cost * (1 + compare_rate) < hist_cost
         then (moved, est, best_true_costs[m := best_true_costs ! m + 1 * (nw_true_cost - hist_cost)], [m])
         else if hist_cost * (1 + compare_rate) < nw_true_cost
         then if nw_est_cost < best_est_costs ! m
              then (moved, est, best_true_costs, [m])
              else (matrix, best_est_costs, best_true_costs, [m])
         else (matrix, best_est_costs, best_true_costs, []))"

definition OkNNr_learn2 ::
    "nat \<Rightarrow> nat \<Rightarrow> real list list \<Rightarrow> real list \<Rightarrow> real list \<Rightarrow> real list \<Rightarrow> real \<Rightarrow> real \<Rightarrow> nat \<Rightarrow>
     real list list \<times> real list \<times> real list \<times> nat list" where
  "OkNNr_learn2 matrix_rows matrix_cols matrix best_est_costs best_true_costs nw_features nw_est_cost nw_true_cost k =
     (let distances = row_distances matrix_rows matrix_cols matrix nw_features;
          m = nearest_row distances
      in if matrix_rows < k
         then if matrix_rows \<noteq> 0 \<and> distances ! m < 1 / 10
              then learn_nearest_costs m matrix_cols matrix best_est_costs best_true_costs
                     nw_features nw_est_cost nw_true_cost
              else (matrix[matrix_rows := copy_row matrix_cols nw_features (matrix ! matrix_rows)],
                    best_est_costs[matrix_rows := nw_est_cost],
                    best_true_costs[matrix_rows := nw_true_cost], [matrix_rows])
         else learn_nearest_costs m matrix_cols matrix best_est_costs best_true_costs
                nw_features nw_est_cost nw_true_cost)"

subsection \<open>The nearest rows are the first of a stable sort\<close>

primrec insort_after :: "('a \<Rightarrow> real) \<Rightarrow> 'a \<Rightarrow> 'a list \<Rightarrow> 'a list" where
  "insort_after f x [] = [x]"
| "insort_after f x (y # ys) = (if f x < f y then x # y # ys else y # insort_after f x ys)"

lemma mset_insort_after [simp]: "mset (insort_after f x ys) = add_mset x (mset ys)"
  by (induction ys) auto

lemma set_insort_after [simp]: "set (insort_after f x ys) = insert x (set ys)"
  by (induction ys) auto

lemma sorted_insort_after:
  "sorted (map f ys) \<Longrightarrow> sorted (map f (insort_after f x ys))"
  by (induction ys) (auto simp: not_less)

lemma filter_insort_after:
  "sorted (map f ys) \<Longrightarrow>
   filter (\<lambda>y. c = f y) (insort_after f x ys) = filter (\<lambda>y. c = f y) ys @ (if c = f x then [x] else [])"
proof (induction ys)
  case Nil
  show ?case by simp
next
  case (Cons y ys)
  have "filter (\<lambda>z. f x = f z) (y # ys) = []" if "f x < f y"
    using Cons.prems that by (force simp: filter_empty_conv)
  with Cons show ?case by auto
qed

lemma foldl_insort_after:
  defines "ins f xs \<equiv> foldl (\<lambda>ys x. insort_after f x ys) [] xs"
  shows "mset (ins f xs) = mset xs \<and> sorted (map f (ins f xs)) \<and>
    (\<forall>c. filter (\<lambda>y. c = f y) (ins f xs) = filter (\<lambda>y. c = f y) xs)"
  unfolding ins_def
  by (induction xs rule: rev_induct) (auto simp: sorted_insort_after filter_insort_after)

lemma foldl_insort_after_sort_key: "foldl (\<lambda>ys x. insort_after f x ys) [] xs = sort_key f xs"
  using foldl_insort_after [of f xs] by (intro properties_for_sort_key [symmetric]) auto

definition padded :: "nat \<Rightarrow> nat list \<Rightarrow> int list" where
  "padded k ns = take k (map int ns @ replicate k (- 1))"

lemma shift_loop_eq:
  "length idx = k \<Longrightarrow> j \<le> k \<Longrightarrow> shift_loop k idx j t = take j idx @ take (k - j) (t # drop j idx)"
proof (induction k idx j t rule: shift_loop.induct)
  case (1 k idx j t)
  show ?case
  proof (cases "j < k")
    case False
    with "1.prems" show ?thesis by (subst shift_loop.simps) simp
  next
    case True
    then have "shift_loop k idx j t = take (Suc j) (idx[j := t]) @ take (k - Suc j) (idx ! j # drop (Suc j) idx)"
      using "1.IH" "1.prems" by (subst shift_loop.simps) simp
    also have "idx ! j # drop (Suc j) idx = drop j idx"
      using True "1.prems" by (simp add: Cons_nth_drop_Suc)
    also have "take (Suc j) (idx[j := t]) = take j idx @ [t]"
      using True "1.prems" by (simp add: take_Suc_conv_app_nth)
    also have "(take j idx @ [t]) @ take (k - Suc j) (drop j idx) = take j idx @ take (k - j) (t # drop j idx)"
      using True by (simp add: take_Cons' )
    finally show ?thesis .
  qed
qed

lemma insert_loop_padded_from:
  "insert_loop d k (padded k (as @ ns)) i (length as) = padded k (as @ insort_after ((!) d) i ns)"
proof (induction ns arbitrary: as)
  case Nil
  show ?case
  proof (cases "length as < k")
    case False
    then show ?thesis by (subst insert_loop.simps) (simp add: padded_def)
  next
    case True
    then have "padded k as ! length as = - 1" by (simp add: padded_def nth_append)
    with True have "insert_loop d k (padded k as) i (length as) = shift_loop k (padded k as) (length as) (int i)"
      by (subst insert_loop.simps) simp
    also have "\<dots> = padded k (as @ [i])"
      using True by (subst shift_loop_eq) (auto simp: padded_def take_Cons' min_def intro!: nth_equalityI)
    finally show ?thesis by simp
  qed
next
  case (Cons n ns)
  let ?idx = "padded k (as @ n # ns)"
  show ?case
  proof (cases "length as < k")
    case False
    then show ?thesis by (subst insert_loop.simps) (simp add: padded_def)
  next
    case True
    then have head: "?idx ! length as = int n" by (simp add: padded_def nth_append)
    show ?thesis
    proof (cases "d ! i < d ! n")
      case True
      with head \<open>length as < k\<close> have "insert_loop d k ?idx i (length as) = shift_loop k ?idx (length as) (int i)"
        by (subst insert_loop.simps) simp
      also have "\<dots> = padded k (as @ i # n # ns)"
        using \<open>length as < k\<close> by (subst shift_loop_eq) (auto simp: padded_def take_Cons' min_def drop_take)
      finally show ?thesis using True by simp
    next
      case False
      with head \<open>length as < k\<close> have "insert_loop d k ?idx i (length as) = insert_loop d k ?idx i (Suc (length as))"
        by (subst insert_loop.simps) simp
      with Cons [of "as @ [n]"] False show ?thesis by simp
    qed
  qed
qed

lemma insert_loop_padded: "insert_loop d k (padded k ns) i 0 = padded k (insort_after ((!) d) i ns)"
  using insert_loop_padded_from [of d k "[]"] by simp

lemma neighbour_indices:
  "foldl (\<lambda>idx i. insert_loop d k idx i 0) (replicate k (- 1)) xs = padded k (sort_key ((!) d) xs)"
proof -
  have "foldl (\<lambda>idx i. insert_loop d k idx i 0) (padded k ns) xs = padded k (foldl (\<lambda>ys x. insort_after ((!) d) x ys) ns xs)" for ns
    by (induction xs arbitrary: ns) (auto simp: insert_loop_padded)
  from this [of "[]"] show ?thesis by (simp add: foldl_insort_after_sort_key padded_def)
qed

definition neighbours :: "real list \<Rightarrow> nat \<Rightarrow> nat \<Rightarrow> nat list" where
  "neighbours d n k = take k (sort_key ((!) d) [0..<n])"

definition similarities :: "real list \<Rightarrow> nat list \<Rightarrow> real list" where
  "similarities d ns = map (\<lambda>r. fs_similarity (d ! r)) ns"

lemma neighbours_facts:
  "set (neighbours d n k) \<subseteq> {0..<n}" "distinct (neighbours d n k)" "length (neighbours d n k) = min k n"
  unfolding neighbours_def by (auto dest: in_set_takeD)

lemma neighbours_empty [simp]: "neighbours d n k = [] \<longleftrightarrow> k = 0 \<or> n = 0"
  unfolding length_0_conv [symmetric] neighbours_facts(3) by (auto simp: min_def)

lemma neighbours_all: "n \<le> k \<Longrightarrow> set (neighbours d n k) = {0..<n}"
  by (simp add: neighbours_def)

lemma neighbours_nearest:
  assumes "r \<in> set (neighbours d n k)" "s < n" "s \<notin> set (neighbours d n k)"
  shows "d ! r \<le> d ! s"
proof -
  let ?xs = "sort_key ((!) d) [0..<n]"
  have "s \<in> set (take k ?xs @ drop k ?xs)" using assms(2) by simp
  with assms(3) have "s \<in> set (drop k ?xs)" unfolding neighbours_def set_append by blast
  moreover have "sorted (map ((!) d) (take k ?xs @ drop k ?xs))" by simp
  ultimately show ?thesis
    using assms(1) unfolding neighbours_def map_append sorted_append by auto
qed

lemma padded_neighbours: "length ns \<le> k \<Longrightarrow> padded k ns = map int ns @ replicate (k - length ns) (- 1)"
  by (simp add: padded_def)

lemma padded_sort_key: "padded k (sort_key ((!) d) [0..<n]) = padded k (neighbours d n k)"
  by (auto simp: padded_def neighbours_def take_map min_def)

lemma weight_loop_padded:
  assumes "length ns \<le> k" "i \<le> length ns" "length w = k"
  shows "weight_loop d k (padded k ns) i w s =
    (take i w @ similarities d (drop i ns) @ drop (length ns) w, s + sum_list (similarities d (drop i ns)))"
  using assms(2,3)
proof (induction "length ns - i" arbitrary: i w s)
  case 0
  then have "i = length ns" by simp
  then have "\<not> (i < k \<and> padded k ns ! i \<noteq> - 1)"
    using assms(1) by (cases "length ns = k") (auto simp: padded_neighbours nth_append)
  then have "weight_loop d k (padded k ns) i w s = (w, s)"
    by (subst weight_loop.simps) (rule if_not_P)
  then show ?case using \<open>i = length ns\<close> by (simp add: similarities_def)
next
  case (Suc m)
  then have i: "i < length ns" "i < k" using assms(1) by auto
  then have "padded k ns ! i = int (ns ! i)" using assms(1) by (simp add: padded_neighbours nth_append)
  with i have "weight_loop d k (padded k ns) i w s = weight_loop d k (padded k ns) (Suc i)
      (w[i := fs_similarity (d ! (ns ! i))]) (s + fs_similarity (d ! (ns ! i)))"
    by (subst weight_loop.simps) (simp add: Let_def)
  also have "\<dots> = (take (Suc i) (w[i := fs_similarity (d ! (ns ! i))]) @ similarities d (drop (Suc i) ns) @ drop (length ns) w,
      s + fs_similarity (d ! (ns ! i)) + sum_list (similarities d (drop (Suc i) ns)))"
    using Suc i by (subst Suc.hyps(1)) auto
  also have "similarities d (drop i ns) = fs_similarity (d ! (ns ! i)) # similarities d (drop (Suc i) ns)"
    using i(1) by (simp add: similarities_def Cons_nth_drop_Suc [symmetric])
  then have "(take (Suc i) (w[i := fs_similarity (d ! (ns ! i))]) @ similarities d (drop (Suc i) ns) @ drop (length ns) w,
      s + fs_similarity (d ! (ns ! i)) + sum_list (similarities d (drop (Suc i) ns))) =
    (take i w @ similarities d (drop i ns) @ drop (length ns) w, s + sum_list (similarities d (drop i ns)))"
    using i Suc.prems by (simp add: take_Suc_conv_app_nth)
  finally show ?case .
qed

lemma OkNNr_compute_weights_eq:
  "OkNNr_compute_weights d n k =
    (let ns = neighbours d n k; m = k - length ns
     in (similarities d ns @ replicate m 0, sum_list (similarities d ns), map int ns @ replicate m (- 1)))"
  unfolding OkNNr_compute_weights_def neighbour_indices padded_sort_key Let_def
  using neighbours_facts(3) [of d n k]
  by (subst weight_loop_padded) (simp_all add: padded_neighbours)

lemma fs_distance_nonneg [simp]: "0 \<le> fs_distance a b len"
proof -
  have "0 \<le> foldl (\<lambda>res i. res + (a ! i - b ! i) * (a ! i - b ! i)) 0 [0..<len]"
    by (rule foldl_invariant) auto
  then show ?thesis by (simp add: fs_distance_def Let_def)
qed

lemma fs_similarity_pos: "0 \<le> x \<Longrightarrow> 0 < fs_similarity x"
  by (simp add: fs_similarity_def add_pos_nonneg)

lemma foldl_if_sum:
  "foldl (\<lambda>r i. if P i then r + g i else r) (a :: real) xs = a + sum_list (map g (filter P xs))"
  by (induction xs arbitrary: a) auto

lemma sum_list_divide: "(\<Sum>x\<leftarrow>xs. f x / c) = (\<Sum>x\<leftarrow>xs. f x) / (c :: real)"
  by (induction xs) (auto simp: add_divide_distrib)

lemma sum_list_pos: "xs \<noteq> [] \<Longrightarrow> (\<And>x. x \<in> set xs \<Longrightarrow> 0 < f x) \<Longrightarrow> 0 < (\<Sum>x\<leftarrow>xs. f x :: real)"
  by (induction xs rule: list_nonempty_induct) (auto intro: add_pos_pos)

definition weighted_mean :: "real list \<Rightarrow> nat list \<Rightarrow> real list \<Rightarrow> real" where
  "weighted_mean d ns targets =
     (\<Sum>r\<leftarrow>ns. targets ! r * fs_similarity (d ! r)) / (\<Sum>r\<leftarrow>ns. fs_similarity (d ! r))"

lemma weighted_target_eq:
  assumes "length ns \<le> k"
  shows "weighted_target k (map int ns @ replicate (k - length ns) (- 1))
      (similarities d ns @ replicate (k - length ns) 0) (sum_list (similarities d ns)) targets = weighted_mean d ns targets"
proof -
  let ?idx = "map int ns @ replicate (k - length ns) (- 1)"
  have split: "[0..<k] = [0..<length ns] @ [length ns..<k]"
    using assms by (metis le_add_diff_inverse upt_add_eq_append zero_le)
  have "filter (\<lambda>i. ?idx ! i \<noteq> - 1) [0..<k] = [0..<length ns]"
    unfolding split filter_append by (auto simp: nth_append filter_empty_conv filter_id_conv)
  then have "weighted_target k ?idx (similarities d ns @ replicate (k - length ns) 0) (sum_list (similarities d ns)) targets
      = (\<Sum>i\<leftarrow>[0..<length ns]. targets ! (ns ! i) * fs_similarity (d ! (ns ! i)) / sum_list (similarities d ns))"
    unfolding weighted_target_def foldl_if_sum
    by (auto simp: similarities_def nth_append intro!: arg_cong [where f = sum_list])
  also have "\<dots> = (\<Sum>r\<leftarrow>map ((!) ns) [0..<length ns]. targets ! r * fs_similarity (d ! r) / sum_list (similarities d ns))"
    by (simp add: comp_def)
  also have "\<dots> = weighted_mean d ns targets"
    unfolding map_nth weighted_mean_def similarities_def sum_list_divide ..
  finally show ?thesis .
qed

lemma weighted_mean_bounds:
  assumes ns: "ns \<noteq> []" "\<forall>r\<in>set ns. 0 \<le> d ! r" and t: "\<forall>r\<in>set ns. lo \<le> targets ! r \<and> targets ! r \<le> hi"
  shows "lo \<le> weighted_mean d ns targets \<and> weighted_mean d ns targets \<le> hi"
proof -
  let ?s = "\<lambda>r. fs_similarity (d ! r)"
  have pos: "0 < ?s r" if "r \<in> set ns" for r using ns(2) that by (simp add: fs_similarity_pos)
  have sum: "0 < (\<Sum>r\<leftarrow>ns. ?s r)"
    using ns(1) pos by (intro sum_list_pos) auto
  have "(\<Sum>r\<leftarrow>ns. lo * ?s r) \<le> (\<Sum>r\<leftarrow>ns. targets ! r * ?s r)"
    using t pos by (intro sum_list_mono mult_right_mono) (auto intro: less_imp_le)
  moreover have "(\<Sum>r\<leftarrow>ns. targets ! r * ?s r) \<le> (\<Sum>r\<leftarrow>ns. hi * ?s r)"
    using t pos by (intro sum_list_mono mult_right_mono) (auto intro: less_imp_le)
  ultimately show ?thesis
    using sum by (simp add: weighted_mean_def sum_list_const_mult pos_le_divide_eq pos_divide_le_eq)
qed

lemma length_row_distances [simp]: "length (row_distances n c M x) = n"
  by (simp add: row_distances_def)

lemma row_distances_nth: "i < n \<Longrightarrow> row_distances n c M x ! i = fs_distance (M ! i) x c"
  by (simp add: row_distances_def)

lemma row_distances_nonneg: "i < n \<Longrightarrow> 0 \<le> row_distances n c M x ! i"
  by (simp add: row_distances_nth)

lemma sum_list_eq_0: "(\<And>x. x \<in> set xs \<Longrightarrow> 0 \<le> (f x :: real)) \<Longrightarrow> (\<Sum>x\<leftarrow>xs. f x) = 0 \<longleftrightarrow> (\<forall>x\<in>set xs. f x = 0)"
proof (induction xs)
  case Nil
  show ?case by simp
next
  case (Cons a xs)
  then have "0 \<le> f a" "0 \<le> (\<Sum>x\<leftarrow>xs. f x)" by (auto intro!: sum_list_nonneg)
  with Cons show ?case by (auto simp: add_nonneg_eq_0_iff)
qed

lemma fs_distance_0: "fs_distance a b c = 0 \<longleftrightarrow> (\<forall>j<c. a ! j = b ! j)"
proof -
  have fold: "foldl (\<lambda>res i. res + g i) (r :: real) xs = r + (\<Sum>i\<leftarrow>xs. g i)" for g r and xs :: "nat list"
    by (induction xs arbitrary: r) auto
  have "(\<Sum>i\<leftarrow>[0..<c]. (a ! i - b ! i) * (a ! i - b ! i)) = 0 \<longleftrightarrow> (\<forall>j<c. a ! j = b ! j)"
    by (subst sum_list_eq_0) auto
  then show ?thesis by (auto simp: fs_distance_def fold Let_def)
qed

lemma weighted_target_neighbours:
  "OkNNr_compute_weights d n k = (w, w_sum, idx) \<Longrightarrow>
   weighted_target k idx w w_sum targets = weighted_mean d (neighbours d n k) targets"
  using weighted_target_eq [of "neighbours d n k" k d targets] neighbours_facts(3) [of d n k]
  by (auto simp: OkNNr_compute_weights_eq Let_def)

lemma first_index:
  "0 < k \<Longrightarrow> OkNNr_compute_weights d n k = (w, w_sum, idx) \<Longrightarrow> idx ! 0 = - 1 \<longleftrightarrow> n = 0"
  using neighbours_facts(3) [of d n k]
  by (cases "neighbours d n k") (auto simp: OkNNr_compute_weights_eq Let_def)

lemma OkNNr_predict_eq:
  assumes "0 < k"
  shows "OkNNr_predict n c M targets x k =
    (if n = 0 then - 1
     else let d = row_distances n c M x in max 0 (weighted_mean d (neighbours d n k) targets))"
proof -
  obtain w s idx where "OkNNr_compute_weights (row_distances n c M x) n k = (w, s, idx)"
    by (cases "OkNNr_compute_weights (row_distances n c M x) n k")
  from weighted_target_neighbours [OF this] first_index [OF assms this] this show ?thesis
    by (simp add: OkNNr_predict_def Let_def max_def)
qed

lemma foldl_min_greater:
  "(c :: real) < foldl (\<lambda>m d. if d < m then d else m) b ds \<longleftrightarrow> c < b \<and> (\<forall>d\<in>set ds. c < d)"
  by (induction ds arbitrary: b) auto

lemma OkNNr_predict2_eq:
  assumes "0 < k"
  shows "OkNNr_predict2 n c M targets x k =
    (let d = row_distances n c M x
     in if n = 0 \<or> (\<forall>r<n. 1 / 10 < d ! r) then 0 else max 0 (weighted_mean d (neighbours d n k) targets))"
proof -
  let ?d = "row_distances n c M x"
  have far: "1 / 10 < foldl (\<lambda>m d. if d < m then d else m) 9999 ?d \<longleftrightarrow> (\<forall>r<n. 1 / 10 < ?d ! r)"
    unfolding foldl_min_greater by (simp add: all_set_conv_all_nth)
  obtain w s idx where "OkNNr_compute_weights ?d n k = (w, s, idx)"
    by (cases "OkNNr_compute_weights ?d n k")
  from weighted_target_neighbours [OF this] first_index [OF assms this] this show ?thesis
    unfolding OkNNr_predict2_def Let_def far by (auto simp: max_def)
qed

lemma weighted_mean_neighbours_bounds:
  assumes "0 < k" "0 < n" and "\<forall>r<n. lo \<le> targets ! r \<and> targets ! r \<le> hi"
    and "d = row_distances n c M x"
  shows "lo \<le> weighted_mean d (neighbours d n k) targets \<and> weighted_mean d (neighbours d n k) targets \<le> hi"
  using assms neighbours_facts(1) [of d n k]
  by (intro weighted_mean_bounds) (auto simp: row_distances_nonneg subset_iff)

lemma OkNNr_predict2_nonneg: "0 < k \<Longrightarrow> 0 \<le> OkNNr_predict2 n c M targets x k"
  by (simp add: OkNNr_predict2_eq Let_def)

subsection \<open>Learning keeps the shape of the arrays\<close>

lemma nearest_row_bound: "distances \<noteq> [] \<Longrightarrow> nearest_row distances < length distances"
  unfolding nearest_row_def by (rule foldl_invariant) auto

lemma nearest_row_least:
  assumes "i < length distances"
  shows "distances ! nearest_row distances \<le> distances ! i"
proof -
  have "(\<forall>j<n. distances ! foldl (\<lambda>best i. if distances ! i < distances ! best then i else best) 0 [0..<n] \<le> distances ! j)" for n
    by (induction n) (auto simp: less_Suc_eq intro: less_imp_le order.trans)
  with assms show ?thesis unfolding nearest_row_def by blast
qed

lemma foldl_update_nth:
  assumes "distinct js" "set js \<subseteq> {0..<length row}"
  shows "foldl (\<lambda>row j. row[j := f j (row ! j)]) row js =
    map (\<lambda>j. if j \<in> set js then f j (row ! j) else row ! j) [0..<length row]"
  using assms
proof (induction js arbitrary: row)
  case Nil
  show ?case by (simp add: map_nth)
next
  case (Cons j js)
  then show ?case by (auto intro!: nth_equalityI simp: nth_list_update)
qed

lemma length_row_updates [simp]:
  "length (move_row rate c x row) = length row" "length (copy_row c x row) = length row"
proof -
  show "length (move_row rate c x row) = length row"
    unfolding move_row_def by (rule foldl_invariant) auto
  show "length (copy_row c x row) = length row"
    unfolding copy_row_def by (rule foldl_invariant) auto
qed

lemma copy_row_eq: "length row = c \<Longrightarrow> length x = c \<Longrightarrow> copy_row c x row = x"
  unfolding copy_row_def using foldl_update_nth [of "[0..<c]" row "\<lambda>j _. x ! j"]
  by (auto intro!: nth_equalityI)

lemma length_gradient_row: "gradient_row coef2 d c x row = Inr row' \<Longrightarrow> length row' = length row"
proof -
  have "length (foldl (\<lambda>row j. row[j := row ! j - coef2 * (x ! j - row ! j) / d]) row [0..<c]) = length row"
    by (rule foldl_invariant) auto
  then show "gradient_row coef2 d c x row = Inr row' \<Longrightarrow> length row' = length row"
    by (auto simp: gradient_row_def split: if_splits)
qed

definition shaped :: "nat \<Rightarrow> nat \<Rightarrow> real list list \<Rightarrow> bool" where
  "shaped K c M \<longleftrightarrow> length M = K \<and> list_all (\<lambda>row. length row = c) M"

lemma shaped_update: "shaped K c M \<Longrightarrow> (r < K \<Longrightarrow> length row = c) \<Longrightarrow> shaped K c (M[r := row])"
  by (cases "r < length M") (auto simp: shaped_def list_all_length nth_list_update)

lemma shaped_row: "shaped K c M \<Longrightarrow> r < K \<Longrightarrow> length (M ! r) = c"
  by (simp add: shaped_def list_all_length)

text \<open>The pass over the neighbours, for an array of row numbers that ends where the loop stops.\<close>

lemma learn_loop_stop:
  "\<not> (i < k \<and> idx ! i \<noteq> - 1) \<Longrightarrow> learn_loop k idx w s d c x res c1 i (M, t, lst) = Inr (M, t, lst)"
  by (subst learn_loop.simps) (rule if_not_P)

lemma learn_loop_shape:
  assumes "learn_loop k (map int ns @ replicate (k - length ns) (- 1)) w s d c x res c1 i (M, t, lst) = Inr (M', t', lst')"
    and "length ns \<le> k" "i \<le> length ns" "set ns \<subseteq> {0..<K}" "shaped K c M"
  shows "shaped K c M' \<and> length t' = length t \<and> lst' = lst @ drop i ns"
  using assms(1,3,5)
proof (induction "length ns - i" arbitrary: i M t lst)
  case 0
  then have stop: "\<not> (i < k \<and> (map int ns @ replicate (k - length ns) (- 1)) ! i \<noteq> - 1)"
    by (cases "length ns = k") (auto simp: nth_append)
  from "0.prems"(1) have "(M', t', lst') = (M, t, lst)"
    unfolding learn_loop_stop [OF stop] by simp
  with 0 show ?case by simp
next
  case (Suc m)
  then have i: "i < length ns" "i < k" using assms(2) by auto
  let ?r = "ns ! i"
  have r: "?r < K" using i assms(4) by (meson atLeastLessThan_iff nth_mem subsetD)
  from Suc.prems(1) i obtain row t1 coef2 where row: "gradient_row coef2 (d ! ?r) c x (M ! ?r) = Inr row"
    and rest: "learn_loop k (map int ns @ replicate (k - length ns) (- 1)) w s d c x res c1 (Suc i)
        (M[?r := row], t[?r := t1], lst @ [?r]) = Inr (M', t', lst')"
    by (subst (asm) learn_loop.simps) (auto simp: nth_append Let_def bind_result_Inr)
  from row r Suc.prems(3) have "shaped K c (M[?r := row])"
    by (intro shaped_update) (auto dest!: length_gradient_row simp: shaped_row)
  with Suc.hyps(2) i have "shaped K c M' \<and> length t' = length (t[?r := t1]) \<and> lst' = (lst @ [?r]) @ drop (Suc i) ns"
    by (intro Suc.hyps(1) [OF _ rest]) auto
  with i show ?case by (simp add: Cons_nth_drop_Suc)
qed

lemma learn_loop_error:
  assumes "length ns \<le> k" "i \<le> length ns"
  shows "learn_loop k (map int ns @ replicate (k - length ns) (- 1)) w s d c x res c1 i (M, t, lst) = Inl e \<longleftrightarrow>
    e = Undefined \<and> 0 < c \<and> (\<exists>r\<in>set (drop i ns). d ! r = 0)"
  using assms(2)
proof (induction "length ns - i" arbitrary: i M t lst)
  case 0
  then have stop: "\<not> (i < k \<and> (map int ns @ replicate (k - length ns) (- 1)) ! i \<noteq> - 1)"
    by (cases "length ns = k") (auto simp: nth_append)
  with 0 show ?case unfolding learn_loop_stop [OF stop] by simp
next
  case (Suc m)
  then have i: "i < length ns" "i < k" using assms(1) by auto
  then have "set (drop i ns) = insert (ns ! i) (set (drop (Suc i) ns))"
    by (metis Cons_nth_drop_Suc list.simps(15))
  with Suc i show ?case
    by (subst learn_loop.simps) (auto simp: nth_append Let_def gradient_row_def)
qed

lemma row_distance_0: "i < n \<Longrightarrow> row_distances n c M x ! i = 0 \<longleftrightarrow> (\<forall>j<c. M ! i ! j = x ! j)"
  by (simp add: row_distances_nth fs_distance_0)

lemma neighbour_at_0:
  assumes "0 < k" "r < n" "d ! r = 0" "\<And>i. i < n \<Longrightarrow> 0 \<le> d ! i"
  shows "\<exists>s\<in>set (neighbours d n k). d ! s = (0::real)"
proof (cases "r \<in> set (neighbours d n k)")
  case True
  with assms(3) show ?thesis by blast
next
  case False
  from assms(1,2) obtain s where s: "s \<in> set (neighbours d n k)"
    using neighbours_empty [of d n k] by (metis list.set_intros(1) list.exhaust not_less0)
  with neighbours_facts(1) [of d n k] assms(4) have "0 \<le> d ! s" by auto
  with neighbours_nearest [OF s assms(2) False] assms(3) s show ?thesis by force
qed

lemma OkNNr_learn_full:
  assumes "k \<le> n" and d: "d = row_distances n c M x"
  shows "\<exists>w s res. OkNNr_learn n c M targets x y k = learn_loop k
      (map int (neighbours d n k) @ replicate (k - length (neighbours d n k)) (- 1))
      w s d c x res (learning_rate * (res - y)) 0 (M, targets, [])"
proof -
  obtain w s where "OkNNr_compute_weights d n k =
      (w, s, map int (neighbours d n k) @ replicate (k - length (neighbours d n k)) (- 1))"
    by (auto simp: OkNNr_compute_weights_eq Let_def)
  with assms show ?thesis by (auto simp: OkNNr_learn_def Let_def)
qed

lemma OkNNr_learn_error:
  "OkNNr_learn n c M targets x y k = Inl e \<longleftrightarrow>
   e = Undefined \<and> 0 < k \<and> k \<le> n \<and> 0 < c \<and> (\<exists>r<n. \<forall>j<c. M ! r ! j = x ! j)"
proof (cases "k \<le> n")
  case False
  then show ?thesis by (simp add: OkNNr_learn_def Let_def)
next
  case True
  let ?d = "row_distances n c M x" let ?ns = "neighbours ?d n k"
  obtain w s res where eq: "OkNNr_learn n c M targets x y k =
      learn_loop k (map int ?ns @ replicate (k - length ?ns) (- 1)) w s ?d c x res (learning_rate * (res - y)) 0 (M, targets, [])"
    using OkNNr_learn_full [OF True refl] by blast
  have "OkNNr_learn n c M targets x y k = Inl e \<longleftrightarrow> e = Undefined \<and> 0 < c \<and> (\<exists>r\<in>set ?ns. ?d ! r = 0)"
    unfolding eq by (subst learn_loop_error) (simp_all add: neighbours_facts(3))
  also have "(\<exists>r\<in>set ?ns. ?d ! r = 0) \<longleftrightarrow> 0 < k \<and> (\<exists>r<n. ?d ! r = 0)"
  proof
    show "0 < k \<and> (\<exists>r<n. ?d ! r = 0)" if "\<exists>r\<in>set ?ns. ?d ! r = 0"
      using that neighbours_facts(1) [of ?d n k] by (cases "k = 0") (auto simp: neighbours_def subset_iff)
    show "\<exists>r\<in>set ?ns. ?d ! r = 0" if "0 < k \<and> (\<exists>r<n. ?d ! r = 0)"
      using that neighbour_at_0 [of k _ n ?d] row_distances_nonneg by blast
  qed
  finally show ?thesis using True row_distance_0 by auto
qed

lemma OkNNr_learn_shape:
  assumes "OkNNr_learn n c M targets x y k = Inr (M', targets', lst)"
    and "shaped k c M" "n \<le> k" "length targets = k"
  shows "shaped k c M'" "length targets' = k" "\<And>r. r \<in> set lst \<Longrightarrow> r < k \<and> r \<le> n"
proof -
  let ?d = "row_distances n c M x"
  have "shaped k c M' \<and> length targets' = k \<and> (\<forall>r\<in>set lst. r < k \<and> r \<le> n)"
  proof (cases "n < k")
    case True
    moreover have "nearest_row ?d < n" if "n \<noteq> 0"
      using that nearest_row_bound [of ?d] by (metis length_row_distances list.size(3))
    ultimately show ?thesis
      using assms by (auto simp: OkNNr_learn_def Let_def shaped_row intro!: shaped_update split: if_splits)
  next
    case False
    with assms(3) have n: "n = k" by simp
    from OkNNr_learn_full [of k n ?d c M x targets y] n assms(1) obtain w s res where
      "learn_loop k (map int (neighbours ?d n k) @ replicate (k - length (neighbours ?d n k)) (- 1)) w s ?d c x res
        (learning_rate * (res - y)) 0 (M, targets, []) = Inr (M', targets', lst)" by auto
    from learn_loop_shape [OF this, of k] assms(2,4) n neighbours_facts [of ?d n k] show ?thesis
      by (auto simp: subset_iff)
  qed
  then show "shaped k c M'" "length targets' = k" "\<And>r. r \<in> set lst \<Longrightarrow> r < k \<and> r \<le> n" by auto
qed

definition lines_after :: "nat \<Rightarrow> nat list \<Rightarrow> nat" where
  "lines_after matrix_rows changed_lines =
     foldl (\<lambda>rows l. if l \<ge> rows then l + 1 else rows) matrix_rows changed_lines"

lemma lines_after_bounds:
  assumes "\<And>r. r \<in> set lst \<Longrightarrow> r < k" "n \<le> k"
  shows "n \<le> lines_after n lst \<and> lines_after n lst \<le> k"
  unfolding lines_after_def by (rule foldl_invariant) (use assms in \<open>auto simp: Suc_le_eq\<close>)

subsection \<open>Learning the two costs\<close>

lemma learn_nearest_costs_shape:
  assumes "learn_nearest_costs m c M est true_costs x e t = (M', est', true', lst)" and "shaped k c M" "m < k"
  shows "shaped k c M'" "length est' = length est" "length true' = length true_costs" "set lst \<subseteq> {m}"
  using assms
  by (auto simp: learn_nearest_costs_def Let_def shaped_row intro!: shaped_update split: if_splits)

lemma learn_nearest_costs_true:
  assumes "learn_nearest_costs m c M est true_costs x e t = (M', est', true', lst)" "0 \<le> t" "m < length true_costs"
  shows "true' ! i \<le> true_costs ! i" "true' ! m \<le> 101 / 100 * t"
  using assms by (auto simp: learn_nearest_costs_def Let_def nth_list_update split: if_splits)

lemma OkNNr_learn2_cases:
  assumes "n \<le> k" "0 < k"
  obtains (near) m where "m < n"
      "OkNNr_learn2 n c M est true_costs x e t k = learn_nearest_costs m c M est true_costs x e t"
  | (new) "n < k" "OkNNr_learn2 n c M est true_costs x e t k =
      (M[n := copy_row c x (M ! n)], est[n := e], true_costs[n := t], [n])"
proof -
  let ?d = "row_distances n c M x"
  have m: "nearest_row ?d < n" if "0 < n"
    using that nearest_row_bound [of ?d] by (metis length_row_distances list.size(3) not_less0)
  show thesis
  proof (cases "n < k \<and> \<not> (n \<noteq> 0 \<and> ?d ! nearest_row ?d < 1 / 10)")
    case True
    then show ?thesis by (intro new) (auto simp: OkNNr_learn2_def Let_def)
  next
    case False
    with assms have "0 < n" by auto
    show ?thesis
      by (rule near [OF m [OF \<open>0 < n\<close>]]) (use False in \<open>auto simp: OkNNr_learn2_def Let_def\<close>)
  qed
qed

lemma OkNNr_learn2_shape:
  assumes "OkNNr_learn2 n c M est true_costs x e t k = (M', est', true', lst)"
    and "shaped k c M" "n \<le> k" "0 < k" "length est = k" "length true_costs = k"
  shows "shaped k c M'" "length est' = k" "length true' = k" "\<And>r. r \<in> set lst \<Longrightarrow> r < k \<and> r \<le> n"
proof -
  have "shaped k c M' \<and> length est' = k \<and> length true' = k \<and> (\<forall>r\<in>set lst. r < k \<and> r \<le> n)"
    using assms(3,4)
  proof (cases rule: OkNNr_learn2_cases [where c = c and M = M and est = est and true_costs = true_costs
        and x = x and e = e and t = t])
    case (near m)
    with assms(1) have eq: "learn_nearest_costs m c M est true_costs x e t = (M', est', true', lst)" by simp
    from near(1) assms(3) have "m < k" by simp
    from learn_nearest_costs_shape [OF eq assms(2) this] assms near(1) show ?thesis by fastforce
  next
    case new
    with assms show ?thesis by (auto simp: shaped_row intro!: shaped_update)
  qed
  then show "shaped k c M'" "length est' = k" "length true' = k" "\<And>r. r \<in> set lst \<Longrightarrow> r < k \<and> r \<le> n" by auto
qed

lemma OkNNr_learn2_true:
  assumes "OkNNr_learn2 n c M est true_costs x e t k = (M', est', true', lst)"
    and "n \<le> k" "0 < k" "length true_costs = k" "0 \<le> t"
  shows "i < n \<Longrightarrow> true' ! i \<le> true_costs ! i" "\<exists>r<lines_after n lst. true' ! r \<le> 101 / 100 * t"
proof -
  have "(\<forall>i<n. true' ! i \<le> true_costs ! i) \<and> (\<exists>r<lines_after n lst. true' ! r \<le> 101 / 100 * t)"
    using assms(2,3)
  proof (cases rule: OkNNr_learn2_cases [where c = c and M = M and est = est and true_costs = true_costs
        and x = x and e = e and t = t])
    case (near m)
    with assms(1) have eq: "learn_nearest_costs m c M est true_costs x e t = (M', est', true', lst)" by simp
    have "n \<le> lines_after n lst" unfolding lines_after_def by (rule foldl_invariant) auto
    with learn_nearest_costs_true [OF eq assms(5)] near(1) assms(2,4) show ?thesis by force
  next
    case new
    with assms show ?thesis by (auto simp: lines_after_def)
  qed
  then show "i < n \<Longrightarrow> true' ! i \<le> true_costs ! i" "\<exists>r<lines_after n lst. true' ! r \<le> 101 / 100 * t" by auto
qed

subsection \<open>Correctness\<close>

text \<open>C8: For distances of \<open>n\<close> stored rows, the weight computation selects the rows that come first in a
  stable sort of the row numbers by distance, at most \<open>k\<close> of them, gives each the similarity of its distance
  and sums these; unused places hold weight 0 and row number -1.\<close>

theorem OkNNr_compute_weights_nearest:
  "OkNNr_compute_weights distances n k =
    (let ns = take k (sort_key ((!) distances) [0..<n]); m = k - length ns;
         ws = map (\<lambda>r. fs_similarity (distances ! r)) ns
     in (ws @ replicate m 0, sum_list ws, map int ns @ replicate m (- 1)))"
  using OkNNr_compute_weights_eq [of distances n k] unfolding neighbours_def similarities_def Let_def .

text \<open>C18: A prediction is refused (-1) exactly when nothing is stored; otherwise it lies between the least
  and the greatest stored target, raised to 0 where they are negative.\<close>

theorem OkNNr_predict_within_targets:
  assumes "0 < k"
  shows "(if n = 0 then OkNNr_predict n c M targets x k = - 1
      else \<forall>lo hi. (\<forall>r<n. lo \<le> targets ! r \<and> targets ! r \<le> hi) \<longrightarrow>
        max 0 lo \<le> OkNNr_predict n c M targets x k \<and> OkNNr_predict n c M targets x k \<le> max 0 hi)"
proof (cases "n = 0")
  case True
  with assms show ?thesis by (simp add: OkNNr_predict_eq)
next
  case False
  have "max 0 lo \<le> OkNNr_predict n c M targets x k \<and> OkNNr_predict n c M targets x k \<le> max 0 hi"
    if "\<forall>r<n. lo \<le> targets ! r \<and> targets ! r \<le> hi" for lo hi
    using weighted_mean_neighbours_bounds [OF assms _ that refl, of c M x] False assms
    by (simp add: OkNNr_predict_eq Let_def max.coboundedI2)
  with False show ?thesis unfolding if_not_P [OF False] by blast
qed

theorem OkNNr_predict_within_targets_witness:
  "3 \<le> OkNNr_predict 2 1 [[0], [1]] [3, 5] [1 / 2] 2 \<and> OkNNr_predict 2 1 [[0], [1]] [3, 5] [1 / 2] 2 \<le> 5"
proof -
  have "\<forall>r<2. 3 \<le> [3, 5 :: real] ! r \<and> [3, 5 :: real] ! r \<le> 5" by (simp add: numeral_2_eq_2 less_Suc_eq)
  moreover have "max 0 3 = (3 :: real)" "max 0 5 = (5 :: real)" by simp_all
  ultimately show ?thesis
    using OkNNr_predict_within_targets [of 2 2 1 "[[0], [1]]" "[3, 5]" "[1 / 2]"] by fastforce
qed

text \<open>C23: Learning a sample fails with a number that is not finite exactly when the matrix is full and one of its rows
  already holds the features of the sample.\<close>

theorem OkNNr_learn_division_by_zero:
  "OkNNr_learn n c M targets x y k = Inl e \<longleftrightarrow>
   e = Undefined \<and> 0 < k \<and> k \<le> n \<and> 0 < c \<and> (\<exists>r<n. \<forall>j<c. M ! r ! j = x ! j)"
  by (rule OkNNr_learn_error)

theorem OkNNr_learn_division_by_zero_witness:
  "OkNNr_learn 1 1 [[1 / 2]] [4] [1 / 2] 5 1 = Inl Undefined \<and> OkNNr_learn 1 1 [[1 / 2]] [4] [0] 5 1 \<noteq> Inl Undefined"
  unfolding OkNNr_learn_division_by_zero by simp

text \<open>Recording the cost of an execution never raises the best true cost of a stored point, and leaves a stored
  point whose best true cost is at most 1.01 times the cost just observed.\<close>

lemma OkNNr_learn2_best_cost:
  assumes "OkNNr_learn2 n c M est true_costs x e t k = (M', est', true', lst)"
    and "n \<le> k" "0 < k" "length true_costs = k" "0 \<le> t"
  shows "(\<forall>i. i < n \<longrightarrow> true' ! i \<le> true_costs ! i) \<and>
    (\<exists>r. r < lines_after n lst \<and> true' ! r \<le> 101 / 100 * t)"
  using OkNNr_learn2_true [OF assms] by blast

end
