(* ===== verification/SelectivityCache.thy ===== *)
theory SelectivityCache
  imports AqoUtils
begin

text \<open>
  The selectivity cache (\<^verbatim>\<open>contrib/aqo/selectivity_cache.c\<close>): during planning the selectivity of a
  parameterized clause is stored under its hash, the relation's number in the query and the table's
  number; after execution it is found again by the hash and the table's number alone.

  The cache keeps one entry per key, an entry once stored is never replaced, and a lookup returns what
  was stored first for the hash and the table.
\<close>

record Entry =
  clause_hash :: c_int
  relid :: c_int
  global_relid :: c_int
  selectivity :: real

definition cache_selectivity :: "c_int \<Rightarrow> c_int \<Rightarrow> c_int \<Rightarrow> real \<Rightarrow> Entry list \<Rightarrow> Entry list" where
  "cache_selectivity h r g sel objects =
     (if list_ex (\<lambda>e. clause_hash e = h \<and> relid e = r \<and> global_relid e = g) objects then objects
      else objects @ [\<lparr>clause_hash = h, relid = r, global_relid = g, selectivity = sel\<rparr>])"

fun selectivity_cache_find_global_relid :: "c_int \<Rightarrow> c_int \<Rightarrow> Entry list \<Rightarrow> real option" where
  "selectivity_cache_find_global_relid h g [] = None"
| "selectivity_cache_find_global_relid h g (e # es) =
     (if clause_hash e = h \<and> global_relid e = g then Some (selectivity e)
      else selectivity_cache_find_global_relid h g es)"

definition selectivity_cache_clear :: "Entry list" where
  "selectivity_cache_clear = []"

text \<open>A planning run stores a sequence of selectivities, starting from the empty cache.\<close>

definition cache_all :: "(c_int \<times> c_int \<times> c_int \<times> real) list \<Rightarrow> Entry list" where
  "cache_all xs = foldl (\<lambda>objects (h, r, g, sel). cache_selectivity h r g sel objects) selectivity_cache_clear xs"

subsection \<open>Lookup after store\<close>

definition entry_key :: "Entry \<Rightarrow> c_int \<times> c_int \<times> c_int" where
  "entry_key e = (clause_hash e, relid e, global_relid e)"

lemma entry_key_eq [simp]: "entry_key \<lparr>clause_hash = h, relid = r, global_relid = g, selectivity = s\<rparr> = (h, r, g)"
  by (simp add: entry_key_def)

lemma cache_selectivity_eq:
  "cache_selectivity h r g sel es =
    (if (h, r, g) \<in> entry_key ` set es then es
     else es @ [\<lparr>clause_hash = h, relid = r, global_relid = g, selectivity = sel\<rparr>])"
  by (auto simp: cache_selectivity_def list_ex_iff entry_key_def)

lemma find_append:
  "selectivity_cache_find_global_relid h g (xs @ ys) =
    (case selectivity_cache_find_global_relid h g xs of None \<Rightarrow> selectivity_cache_find_global_relid h g ys | Some v \<Rightarrow> Some v)"
  by (induction xs) auto

lemma find_None: "selectivity_cache_find_global_relid h g es = None \<longleftrightarrow> (\<forall>r. (h, r, g) \<notin> entry_key ` set es)"
  by (induction es) (auto simp: entry_key_def)

lemma find_cached:
  "selectivity_cache_find_global_relid h' g' (cache_selectivity h r g sel es) =
    (case selectivity_cache_find_global_relid h' g' es of
       None \<Rightarrow> if h = h' \<and> g = g' then Some sel else None | Some v \<Rightarrow> Some v)"
  using find_None [of h' g' es] by (auto simp: cache_selectivity_eq find_append split: option.splits)

lemma cache_keys:
  "entry_key ` set (cache_selectivity h r g sel es) = insert (h, r, g) (entry_key ` set es)"
  "distinct (map entry_key es) \<Longrightarrow> distinct (map entry_key (cache_selectivity h r g sel es))"
  by (auto simp: cache_selectivity_eq)

text \<open>C22: After any sequence of stores into a cleared cache, no key (clause, relation, table) has two entries, and looking up a clause
  and a table gives the selectivity of the first store for them, whatever its relation number, or nothing when there was none.\<close>

theorem selectivity_cache_first_store:
  "distinct (map entry_key (cache_all xs)) \<and>
   selectivity_cache_find_global_relid h g (cache_all xs) =
     map_option (\<lambda>(_, _, _, sel). sel) (find (\<lambda>(h', _, g', _). h' = h \<and> g' = g) xs)"
proof (induction xs rule: rev_induct)
  case Nil
  show ?case by (simp add: cache_all_def selectivity_cache_clear_def)
next
  case (snoc x xs)
  obtain h' r' g' sel' where x: "x = (h', r', g', sel')" by (cases x)
  have find: "find P (ys @ [y]) = (case find P ys of None \<Rightarrow> if P y then Some y else None | Some z \<Rightarrow> Some z)"
    for P and ys :: "(c_int \<times> c_int \<times> c_int \<times> real) list" and y
    by (induction ys) auto
  from snoc show ?case
    by (auto simp: cache_all_def x cache_keys find_cached find split: option.splits)
qed

end
