(* ===== verification/Storage.thy ===== *)
theory Storage
  imports MachineLearning SelectivityCache
begin

text \<open>
  The storage module (\<^verbatim>\<open>contrib/aqo/storage.c\<close>) with the server's array construction it relies on
  (\<^verbatim>\<open>backend/utils/adt/arrayfuncs.c\<close>, \<^verbatim>\<open>arrayutils.c\<close>).

  A \<^verbatim>\<open>float8[]\<close> value is its list of dimensions with its elements. A service relation with its
  unique index is a map from the indexed columns to the remaining ones, seen by one session; whether an
  index exists is part of the state, since every operation turns the extension off for the query
  when it is missing. What a concurrent session does to a tuple reaches the code only through the status of
  \<^verbatim>\<open>heap_update\<close>, which is an argument.
\<close>

subsection \<open>Arrays\<close>

record pg_array =
  ARR_DIMS :: "int list"
  ARR_ELEMS :: "real list"

definition MaxAllocSize :: int where "MaxAllocSize = 1073741823"

definition MaxArraySize :: int where "MaxArraySize = 134217727"

fun array_items_loop :: "int \<Rightarrow> int list \<Rightarrow> int result" where
  "array_items_loop ret [] = Inr ret"
| "array_items_loop ret (d # dims) =
     (if d < 0 then Inl (Elog ''array size exceeds the maximum allowed'')
      else let prod = ret * d; ret' = sint (word_of_int prod :: c_int)
           in if ret' \<noteq> prod then Inl (Elog ''array size exceeds the maximum allowed'')
              else array_items_loop ret' dims)"

definition ArrayGetNItems :: "int list \<Rightarrow> nat result" where
  "ArrayGetNItems dims =
     (if dims = [] then Inr 0
      else bind_result (array_items_loop 1 dims)
             (\<lambda>ret. if ret > MaxArraySize then Inl (Elog ''array size exceeds the maximum allowed'')
                     else Inr (nat ret)))"

definition construct_md_array :: "real list \<Rightarrow> int list \<Rightarrow> pg_array result" where
  "construct_md_array elems dims =
     (if length dims > 6 then Inl (Elog ''number of array dimensions exceeds the maximum allowed'')
      else if dims = [] then Inr \<lparr>ARR_DIMS = [], ARR_ELEMS = []\<rparr>
      else bind_result (ArrayGetNItems dims)
             (\<lambda>nelems. if 8 * int nelems > MaxAllocSize then Inl (Elog ''array size exceeds the maximum allowed'')
                else if 8 * int nelems + 16 + 8 * int (length dims) > MaxAllocSize
                then Inl (Elog ''invalid memory alloc request size'')
                else Inr \<lparr>ARR_DIMS = dims, ARR_ELEMS = take nelems elems\<rparr>))"

definition deconstruct_array :: "pg_array \<Rightarrow> (real list \<times> nat) result" where
  "deconstruct_array arr =
     bind_result (ArrayGetNItems (ARR_DIMS arr)) (\<lambda>nelems. Inr (take nelems (ARR_ELEMS arr), nelems))"

definition form_vector :: "real list \<Rightarrow> nat \<Rightarrow> pg_array result" where
  "form_vector vector nrows =
     (if length vector < nrows then Inl Undefined
      else construct_md_array (map (\<lambda>i. vector ! i) [0..<nrows]) [int nrows])"

definition form_matrix :: "real list list \<Rightarrow> nat \<Rightarrow> nat \<Rightarrow> pg_array result" where
  "form_matrix matrix nrows ncols =
     (if length matrix < nrows \<or> list_ex (\<lambda>row. length row < ncols) (take nrows matrix) then Inl Undefined
      else construct_md_array (concat (map (\<lambda>i. map (\<lambda>j. matrix ! i ! j) [0..<ncols]) [0..<nrows]))
             [int nrows, int ncols])"

definition deform_vector :: "pg_array \<Rightarrow> real list \<Rightarrow> (real list \<times> nat) result" where
  "deform_vector arr vector =
     bind_result (deconstruct_array arr)
       (\<lambda>(values, nelems). if length vector < nelems then Inl Undefined
          else Inr (foldl (\<lambda>v i. v[i := values ! i]) vector [0..<nelems], nelems))"

definition deform_matrix :: "pg_array \<Rightarrow> real list list \<Rightarrow> real list list result" where
  "deform_matrix arr matrix =
     bind_result (deconstruct_array arr)
       (\<lambda>(values, nelems).
          if nelems = 0 then Inr matrix
          else if length (ARR_DIMS arr) < 2 then Inl Undefined
          else let rows = nat (ARR_DIMS arr ! 0); cols = nat (ARR_DIMS arr ! 1)
               in if length matrix < rows \<or> list_ex (\<lambda>row. length row < cols) (take rows matrix) then Inl Undefined
                  else Inr (foldl (\<lambda>m i. m[i := foldl (\<lambda>row j. row[j := values ! (i * cols + j)]) (m ! i) [0..<cols]])
                        matrix [0..<rows]))"

subsection \<open>Service relations\<close>

record query_row =
  q_learn_aqo :: bool
  q_use_aqo :: bool
  q_fspace_hash :: c_int
  q_auto_tuning :: bool
  q_history_query :: pg_array
  q_num_history :: c_int
  q_total_num :: c_int
  q_current_query :: pg_array
  q_num_feature :: c_int

record fss_row =
  f_nfeatures :: nat
  f_features :: pg_array
  f_targets :: pg_array

record house_row =
  h_features :: pg_array
  h_targets :: pg_array

record costs_row =
  c_nfeatures :: nat
  c_features :: pg_array
  c_est_costs :: pg_array
  c_true_costs :: pg_array

record stat_row =
  s_execution_time_with_aqo :: pg_array
  s_execution_time_without_aqo :: pg_array
  s_planning_time_with_aqo :: pg_array
  s_planning_time_without_aqo :: pg_array
  s_cardinality_error_with_aqo :: pg_array
  s_cardinality_error_without_aqo :: pg_array
  s_executions_with_aqo :: "64 word"
  s_executions_without_aqo :: "64 word"

record aqo_tables =
  aqo_queries :: "c_int \<rightharpoonup> query_row"
  aqo_query_texts :: "c_int \<rightharpoonup> string"
  aqo_query_stat :: "c_int \<rightharpoonup> stat_row"
  aqo_data :: "c_int \<times> c_int \<rightharpoonup> fss_row"
  aqo_data_house_lwpr :: "c_int \<times> c_int \<times> c_int \<rightharpoonup> house_row"
  aqo_markov_table :: "c_int \<rightharpoonup> pg_array"
  aqo_best_two_costs_table :: "c_int \<rightharpoonup> costs_row"
  index_exists :: "string \<Rightarrow> bool"

record aqo_state =
  query_context :: QueryContextData
  tables :: aqo_tables
  objects :: "Entry list"

definition disabled :: "aqo_state \<Rightarrow> aqo_state" where
  "disabled s = s\<lparr>query_context := disable_aqo_for_query (query_context s)\<rparr>"

datatype HTSU_Result = HeapTupleMayBeUpdated | HeapTupleInvisible | HeapTupleSelfUpdated | HeapTupleUpdated
  | HeapTupleBeingUpdated | HeapTupleWouldBlock

fun my_simple_heap_update :: "HTSU_Result \<Rightarrow> bool result" where
  "my_simple_heap_update HeapTupleSelfUpdated = Inl (Elog ''tuple already updated by self'')"
| "my_simple_heap_update HeapTupleMayBeUpdated = Inr True"
| "my_simple_heap_update HeapTupleUpdated = Inr False"
| "my_simple_heap_update HeapTupleBeingUpdated = Inr False"
| "my_simple_heap_update _ = Inl (Elog ''unrecognized heap_update status'')"

text \<open>Replacing the tuple of a key: the change is discarded when another session has updated the tuple.\<close>

definition replace_tuple :: "HTSU_Result \<Rightarrow> ('k \<rightharpoonup> 'v) \<Rightarrow> 'k \<Rightarrow> 'v \<Rightarrow> ('k \<rightharpoonup> 'v) result" where
  "replace_tuple hu tab k row =
     bind_result (my_simple_heap_update hu) (\<lambda>ok. Inr (if ok then tab(k \<mapsto> row) else tab))"

subsection \<open>The table of query types\<close>

definition find_query :: "c_int \<Rightarrow> aqo_state \<Rightarrow> query_row option \<times> aqo_state" where
  "find_query h s =
     (if \<not> index_exists (tables s) ''aqo_queries_query_hash_idx'' then (None, disabled s)
      else (aqo_queries (tables s) h, s))"

definition add_query ::
    "c_int \<Rightarrow> bool \<Rightarrow> bool \<Rightarrow> c_int \<Rightarrow> bool \<Rightarrow> real list \<Rightarrow> c_int \<Rightarrow> c_int \<Rightarrow> real list \<Rightarrow> c_int \<Rightarrow>
     aqo_state \<Rightarrow> (bool \<times> aqo_state) result" where
  "add_query h learn use fspace auto query_history num_history total_num current_query num_feature s =
     bind_result (form_vector query_history num_history_data_compute_probability_fs) (\<lambda>hist.
     bind_result (form_vector current_query 2) (\<lambda>cur.
       if \<not> index_exists (tables s) ''aqo_queries_query_hash_idx'' then Inr (False, disabled s)
       else if aqo_queries (tables s) h \<noteq> None then Inl (Elog ''duplicate key value violates unique constraint'')
       else Inr (True, s\<lparr>tables := (tables s)\<lparr>aqo_queries := (aqo_queries (tables s))(h \<mapsto>
              \<lparr>q_learn_aqo = learn, q_use_aqo = use, q_fspace_hash = fspace, q_auto_tuning = auto,
               q_history_query = hist, q_num_history = num_history, q_total_num = total_num,
               q_current_query = cur, q_num_feature = num_feature\<rparr>)\<rparr>\<rparr>)))"

text \<open>
  \<^verbatim>\<open>update_query\<close> unpacks the tuple of \<^verbatim>\<open>aqo_queries\<close>, which has ten columns, into arrays
  of five; with no tuple it unpacks a null pointer.
\<close>

definition aqo_queries_natts :: nat where "aqo_queries_natts = 10"

definition update_query ::
    "HTSU_Result \<Rightarrow> c_int \<Rightarrow> bool \<Rightarrow> bool \<Rightarrow> c_int \<Rightarrow> bool \<Rightarrow> aqo_state \<Rightarrow> (bool \<times> aqo_state) result" where
  "update_query hu h learn use fspace auto s =
     (if \<not> index_exists (tables s) ''aqo_queries_query_hash_idx'' then Inr (False, disabled s)
      else case aqo_queries (tables s) h of
        None \<Rightarrow> Inl Undefined
      | Some row \<Rightarrow>
          if 5 < aqo_queries_natts then Inl Undefined
          else bind_result (replace_tuple hu (aqo_queries (tables s)) h
                 (row\<lparr>q_learn_aqo := learn, q_use_aqo := use, q_fspace_hash := fspace, q_auto_tuning := auto\<rparr>))
                 (\<lambda>tab. Inr (True, s\<lparr>tables := (tables s)\<lparr>aqo_queries := tab\<rparr>\<rparr>)))"

definition update_query2 ::
    "HTSU_Result \<Rightarrow> c_int \<Rightarrow> bool \<Rightarrow> bool \<Rightarrow> c_int \<Rightarrow> bool \<Rightarrow> real list \<Rightarrow> c_int \<Rightarrow> c_int \<Rightarrow>
     aqo_state \<Rightarrow> (bool \<times> aqo_state) result" where
  "update_query2 hu h learn use fspace auto query_history num_history total_num s =
     (if \<not> index_exists (tables s) ''aqo_queries_query_hash_idx'' then Inr (False, disabled s)
      else case aqo_queries (tables s) h of
        None \<Rightarrow> Inl Undefined
      | Some row \<Rightarrow>
          bind_result (form_vector query_history num_history_data_compute_probability_fs) (\<lambda>hist.
          bind_result (replace_tuple hu (aqo_queries (tables s)) h
             (row\<lparr>q_learn_aqo := learn, q_use_aqo := use, q_fspace_hash := fspace, q_auto_tuning := auto,
                   q_history_query := hist, q_num_history := num_history, q_total_num := total_num\<rparr>))
             (\<lambda>tab. Inr (True, s\<lparr>tables := (tables s)\<lparr>aqo_queries := tab\<rparr>\<rparr>))))"

definition add_query_text :: "c_int \<Rightarrow> string \<Rightarrow> aqo_state \<Rightarrow> (bool \<times> aqo_state) result" where
  "add_query_text h txt s =
     (if \<not> index_exists (tables s) ''aqo_query_texts_query_hash_idx'' then Inr (False, disabled s)
      else if aqo_query_texts (tables s) h \<noteq> None then Inl (Elog ''duplicate key value violates unique constraint'')
      else Inr (True, s\<lparr>tables := (tables s)\<lparr>aqo_query_texts := (aqo_query_texts (tables s))(h \<mapsto> txt)\<rparr>\<rparr>))"

subsection \<open>Machine learning data\<close>

text \<open>
  The loading functions fill arrays of their caller and report success; here they return the filled arrays and the
  number of rows, or nothing on failure, with the state (a missing index changes the query's flags).
\<close>

definition load_fss ::
    "c_int \<Rightarrow> nat \<Rightarrow> real list list \<Rightarrow> real list \<Rightarrow> aqo_state \<Rightarrow>
     ((real list list \<times> real list \<times> nat) option \<times> aqo_state) result" where
  "load_fss fss_hash ncols matrix targets s =
     (if \<not> index_exists (tables s) ''aqo_fss_access_idx'' then Inr (None, disabled s)
      else case aqo_data (tables s) (fspace_hash (query_context s), fss_hash) of
        None \<Rightarrow> Inr (None, s)
      | Some row \<Rightarrow>
          if f_nfeatures row = ncols
          then bind_result (deform_matrix (f_features row) matrix) (\<lambda>matrix.
               bind_result (deform_vector (f_targets row) targets) (\<lambda>(targets, rows).
                 Inr (Some (matrix, targets, rows), s)))
          else Inr (None, s))"

definition update_fss ::
    "HTSU_Result \<Rightarrow> c_int \<Rightarrow> nat \<Rightarrow> nat \<Rightarrow> real list list \<Rightarrow> real list \<Rightarrow> aqo_state \<Rightarrow> (bool \<times> aqo_state) result" where
  "update_fss hu fss_hash nrows ncols matrix targets s =
     (if \<not> index_exists (tables s) ''aqo_fss_access_idx'' then Inr (False, disabled s)
      else let key = (fspace_hash (query_context s), fss_hash); tab = aqo_data (tables s)
           in bind_result (form_matrix matrix nrows ncols) (\<lambda>m.
              bind_result (form_vector targets nrows) (\<lambda>v.
              bind_result
                (case tab key of
                   None \<Rightarrow> Inr (tab(key \<mapsto> \<lparr>f_nfeatures = ncols, f_features = m, f_targets = v\<rparr>))
                 | Some row \<Rightarrow> replace_tuple hu tab key (row\<lparr>f_features := m, f_targets := v\<rparr>))
                (\<lambda>tab. Inr (True, s\<lparr>tables := (tables s)\<lparr>aqo_data := tab\<rparr>\<rparr>)))))"

definition load_rf_datahouse ::
    "c_int \<Rightarrow> c_int \<Rightarrow> real list list \<Rightarrow> real list \<Rightarrow> aqo_state \<Rightarrow>
     ((real list list \<times> real list \<times> nat) option \<times> aqo_state) result" where
  "load_rf_datahouse fss_hash rf_hash matrix targets s =
     (if \<not> index_exists (tables s) ''aqo_fss_lwpr_datahouse_idx'' then Inr (None, disabled s)
      else case aqo_data_house_lwpr (tables s) (fspace_hash (query_context s), fss_hash, rf_hash) of
        None \<Rightarrow> Inr (None, s)
      | Some row \<Rightarrow>
          bind_result (deform_matrix (h_features row) matrix) (\<lambda>matrix.
          bind_result (deform_vector (h_targets row) targets) (\<lambda>(targets, rows).
            Inr (Some (matrix, targets, rows), s))))"

definition update_rf_datahouse ::
    "HTSU_Result \<Rightarrow> c_int \<Rightarrow> c_int \<Rightarrow> nat \<Rightarrow> nat \<Rightarrow> real list list \<Rightarrow> real list \<Rightarrow> aqo_state \<Rightarrow> (bool \<times> aqo_state) result" where
  "update_rf_datahouse hu fss_hash rf_hash ncols nrows matrix targets s =
     (if \<not> index_exists (tables s) ''aqo_fss_lwpr_datahouse_idx'' then Inr (False, disabled s)
      else let key = (fspace_hash (query_context s), fss_hash, rf_hash); tab = aqo_data_house_lwpr (tables s)
           in bind_result (form_matrix matrix nrows ncols) (\<lambda>m.
              bind_result (form_vector targets nrows) (\<lambda>v.
              bind_result
                (case tab key of
                   None \<Rightarrow> Inr (tab(key \<mapsto> \<lparr>h_features = m, h_targets = v\<rparr>))
                 | Some row \<Rightarrow> replace_tuple hu tab key (row\<lparr>h_features := m, h_targets := v\<rparr>))
                (\<lambda>tab. Inr (True, s\<lparr>tables := (tables s)\<lparr>aqo_data_house_lwpr := tab\<rparr>\<rparr>)))))"

definition load_best_two_costs ::
    "c_int \<Rightarrow> real list list \<Rightarrow> real list \<Rightarrow> real list \<Rightarrow> nat \<Rightarrow> aqo_state \<Rightarrow>
     ((real list list \<times> real list \<times> real list \<times> nat) option \<times> aqo_state) result" where
  "load_best_two_costs query_pattern matrix est_cost true_cost nf s =
     (if \<not> index_exists (tables s) ''aqo_best_two_costs_table_idx'' then Inr (None, disabled s)
      else case aqo_best_two_costs_table (tables s) query_pattern of
        None \<Rightarrow> Inr (None, s)
      | Some row \<Rightarrow>
          if c_nfeatures row = nf
          then bind_result (deform_matrix (c_features row) matrix) (\<lambda>matrix.
               bind_result (deform_vector (c_est_costs row) est_cost) (\<lambda>(est_cost, rows).
               bind_result (deform_vector (c_true_costs row) true_cost) (\<lambda>(true_cost, rows).
                 Inr (Some (matrix, est_cost, true_cost, rows), s))))
          else Inr (None, s))"

definition update_best_two_costs ::
    "HTSU_Result \<Rightarrow> c_int \<Rightarrow> nat \<Rightarrow> nat \<Rightarrow> real list list \<Rightarrow> real list \<Rightarrow> real list \<Rightarrow> aqo_state \<Rightarrow> (bool \<times> aqo_state) result" where
  "update_best_two_costs hu query_pattern ncols nrows matrix est_cost true_cost s =
     (if \<not> index_exists (tables s) ''aqo_best_two_costs_table_idx'' then Inr (False, disabled s)
      else let tab = aqo_best_two_costs_table (tables s)
           in bind_result (form_matrix matrix nrows ncols) (\<lambda>m.
              bind_result (form_vector est_cost nrows) (\<lambda>ve.
              bind_result (form_vector true_cost nrows) (\<lambda>vt.
              bind_result
                (case tab query_pattern of
                   None \<Rightarrow> Inr (tab(query_pattern \<mapsto>
                     \<lparr>c_nfeatures = ncols, c_features = m, c_est_costs = ve, c_true_costs = vt\<rparr>))
                 | Some row \<Rightarrow> replace_tuple hu tab query_pattern
                     (row\<lparr>c_features := m, c_est_costs := ve, c_true_costs := vt\<rparr>))
                (\<lambda>tab. Inr (True, s\<lparr>tables := (tables s)\<lparr>aqo_best_two_costs_table := tab\<rparr>\<rparr>))))))"

subsection \<open>Query distributions and statistics\<close>

definition load_query_distribution :: "int \<Rightarrow> c_int \<Rightarrow> aqo_state \<Rightarrow> (bool \<times> aqo_state) result" where
  "load_query_distribution num_history_data query_history_hash s =
     (let uniform = map (\<lambda>i. 1 / real num_query_pattern) [0..<num_query_pattern]
      in if num_history_data < int num_history_data_compute_probability_fs
         then Inr (True, s\<lparr>query_context := (query_context s)\<lparr>query_distribution := uniform\<rparr>\<rparr>)
         else if \<not> index_exists (tables s) ''aqo_markov_table_idx'' then Inr (False, disabled s)
         else case aqo_markov_table (tables s) (fspace_hash (query_context s)) of
           None \<Rightarrow> Inr (False, s\<lparr>query_context := (query_context s)\<lparr>query_distribution := uniform\<rparr>\<rparr>)
         | Some arr \<Rightarrow>
             bind_result (deform_vector arr (replicate num_query_pattern 0)) (\<lambda>(dist, n).
               Inr (True, s\<lparr>query_context := (query_context s)\<lparr>query_distribution := dist\<rparr>\<rparr>)))"

definition load_query_distribution2 :: "int \<Rightarrow> QueryContextData \<Rightarrow> QueryContextData result" where
  "load_query_distribution2 h c =
     (if h - 1 < 0 \<or> h - 1 \<ge> int num_query_pattern then Inl Undefined
      else Inr (c\<lparr>query_distribution := (replicate num_query_pattern 0)[nat (h - 1) := 1]\<rparr>))"

definition get_aqo_stat :: "(nat \<Rightarrow> real list) \<Rightarrow> c_int \<Rightarrow> aqo_state \<Rightarrow> (QueryStat option \<times> aqo_state) result" where
  "get_aqo_stat mem h s =
     (let stat = palloc_query_stat mem
      in if \<not> index_exists (tables s) ''aqo_query_stat_idx'' then Inr (None, disabled s)
         else case aqo_query_stat (tables s) h of
           None \<Rightarrow> Inr (Some stat, s)
         | Some row \<Rightarrow>
             bind_result (deform_vector (s_execution_time_with_aqo row) (execution_time_with_aqo stat)) (\<lambda>(a1, n1).
             bind_result (deform_vector (s_execution_time_without_aqo row) (execution_time_without_aqo stat)) (\<lambda>(a2, n2).
             bind_result (deform_vector (s_planning_time_with_aqo row) (planning_time_with_aqo stat)) (\<lambda>(a3, n3).
             bind_result (deform_vector (s_planning_time_without_aqo row) (planning_time_without_aqo stat)) (\<lambda>(a4, n4).
             bind_result (deform_vector (s_cardinality_error_with_aqo row) (cardinality_error_with_aqo stat)) (\<lambda>(a5, n5).
             bind_result (deform_vector (s_cardinality_error_without_aqo row) (cardinality_error_without_aqo stat)) (\<lambda>(a6, n6).
               Inr (Some \<lparr>execution_time_with_aqo = a1, execution_time_without_aqo = a2,
                          planning_time_with_aqo = a3, planning_time_without_aqo = a4,
                          cardinality_error_with_aqo = a5, cardinality_error_without_aqo = a6,
                          execution_time_with_aqo_size = n1, execution_time_without_aqo_size = n2,
                          planning_time_with_aqo_size = n3, planning_time_without_aqo_size = n4,
                          cardinality_error_with_aqo_size = n5, cardinality_error_without_aqo_size = n6,
                          executions_with_aqo = s_executions_with_aqo row,
                          executions_without_aqo = s_executions_without_aqo row\<rparr>, s))))))))"

definition update_aqo_stat :: "HTSU_Result \<Rightarrow> c_int \<Rightarrow> QueryStat \<Rightarrow> aqo_state \<Rightarrow> aqo_state result" where
  "update_aqo_stat hu h stat s =
     (if \<not> index_exists (tables s) ''aqo_query_stat_idx'' then Inr (disabled s)
      else let tab = aqo_query_stat (tables s)
           in bind_result (form_vector (execution_time_with_aqo stat) (execution_time_with_aqo_size stat)) (\<lambda>a1.
              bind_result (form_vector (execution_time_without_aqo stat) (execution_time_without_aqo_size stat)) (\<lambda>a2.
              bind_result (form_vector (planning_time_with_aqo stat) (planning_time_with_aqo_size stat)) (\<lambda>a3.
              bind_result (form_vector (planning_time_without_aqo stat) (planning_time_without_aqo_size stat)) (\<lambda>a4.
              bind_result (form_vector (cardinality_error_with_aqo stat) (cardinality_error_with_aqo_size stat)) (\<lambda>a5.
              bind_result (form_vector (cardinality_error_without_aqo stat) (cardinality_error_without_aqo_size stat)) (\<lambda>a6.
              let row = \<lparr>s_execution_time_with_aqo = a1, s_execution_time_without_aqo = a2,
                         s_planning_time_with_aqo = a3, s_planning_time_without_aqo = a4,
                         s_cardinality_error_with_aqo = a5, s_cardinality_error_without_aqo = a6,
                         s_executions_with_aqo = executions_with_aqo stat,
                         s_executions_without_aqo = executions_without_aqo stat\<rparr>
              in bind_result (if tab h = None then Inr (tab(h \<mapsto> row)) else replace_tuple hu tab h row)
                   (\<lambda>tab. Inr (s\<lparr>tables := (tables s)\<lparr>aqo_query_stat := tab\<rparr>\<rparr>)))))))))"

subsection \<open>Deactivated queries\<close>

definition init_deactivated_queries_storage :: "c_int set option" where
  "init_deactivated_queries_storage = Some {}"

definition fini_deactivated_queries_storage :: "c_int set option \<Rightarrow> c_int set option result" where
  "fini_deactivated_queries_storage st = (case st of None \<Rightarrow> Inl Undefined | Some _ \<Rightarrow> Inr None)"

definition query_is_deactivated :: "c_int set option \<Rightarrow> c_int \<Rightarrow> bool result" where
  "query_is_deactivated st h = (case st of None \<Rightarrow> Inl Undefined | Some hs \<Rightarrow> Inr (h \<in> hs))"

definition add_deactivated_query :: "c_int set option \<Rightarrow> c_int \<Rightarrow> c_int set option result" where
  "add_deactivated_query st h = (case st of None \<Rightarrow> Inl Undefined | Some hs \<Rightarrow> Inr (Some (insert h hs)))"

subsection \<open>Arrays: forming and deforming\<close>

definition holds_vector :: "real list \<Rightarrow> pg_array \<Rightarrow> bool" where
  "holds_vector v arr \<longleftrightarrow> int (length v) \<le> MaxArraySize \<and> arr = \<lparr>ARR_DIMS = [int (length v)], ARR_ELEMS = v\<rparr>"

definition holds_matrix :: "nat \<Rightarrow> real list list \<Rightarrow> pg_array \<Rightarrow> bool" where
  "holds_matrix c M arr \<longleftrightarrow> int (length M) < 2 ^ 31 \<and> int (length M * c) \<le> MaxArraySize \<and> list_all (\<lambda>row. length row = c) M \<and>
     arr = \<lparr>ARR_DIMS = [int (length M), int c], ARR_ELEMS = concat M\<rparr>"

lemma int32_fits: "sint (word_of_int (int n) :: c_int) = int n \<longleftrightarrow> int n < 2 ^ 31"
proof
  show "int n < 2 ^ 31" if "sint (word_of_int (int n) :: c_int) = int n"
    using that sint_lt [of "word_of_int (int n) :: c_int"] by simp
  show "sint (word_of_int (int n) :: c_int) = int n" if "int n < 2 ^ 31"
    using that by (subst sint_sbintrunc') (simp add: signed_take_bit_int_eq_self)
qed

lemma array_items_step:
  "array_items_loop (int a) (int b # ds) =
    (if int (a * b) < 2 ^ 31 then array_items_loop (int (a * b)) ds
     else Inl (Elog ''array size exceeds the maximum allowed''))"
proof -
  have prod: "int a * int b = int (a * b)" by simp
  show ?thesis
  proof (cases "int (a * b) < 2 ^ 31")
    case True
    then have eq: "sint (word_of_int (int (a * b)) :: c_int) = int (a * b)" by (simp only: int32_fits)
    from True show ?thesis unfolding array_items_loop.simps Let_def prod eq by simp
  next
    case False
    then have "sint (word_of_int (int (a * b)) :: c_int) \<noteq> int (a * b)" by (simp only: int32_fits not_False_eq_True)
    with False show ?thesis unfolding array_items_loop.simps Let_def prod by auto
  qed
qed

lemma ArrayGetNItems_vector:
  "ArrayGetNItems [int n] = Inr m \<longleftrightarrow> m = n \<and> int n \<le> MaxArraySize"
  using array_items_step [of 1 n "[]"] by (auto simp: ArrayGetNItems_def MaxArraySize_def bind_result_Inr simp del: array_items_loop.simps(2))

lemma ArrayGetNItems_matrix:
  "ArrayGetNItems [int r, int c] = Inr m \<longleftrightarrow> m = r * c \<and> int r < 2 ^ 31 \<and> int (r * c) \<le> MaxArraySize"
  using array_items_step [of 1 r "[int c]"] array_items_step [of r c "[]"]
  by (auto simp: ArrayGetNItems_def MaxArraySize_def bind_result_Inr nat_mult_distrib simp del: array_items_loop.simps(2))

lemma length_concat_rows: "list_all (\<lambda>row. length row = c) M \<Longrightarrow> length (concat M) = length M * c"
  by (induction M) auto

lemma form_vector_holds:
  assumes "form_vector v n = Inr arr"
  shows "holds_vector (take n v) arr" "n \<le> length v"
proof -
  from assms show n: "n \<le> length v" by (auto simp: form_vector_def split: if_splits)
  then have "map (\<lambda>i. v ! i) [0..<n] = take n v" by (auto intro!: nth_equalityI)
  with assms n show "holds_vector (take n v) arr"
    by (auto simp: form_vector_def construct_md_array_def bind_result_Inr ArrayGetNItems_vector holds_vector_def split: if_splits)
qed

lemma form_matrix_holds:
  assumes "form_matrix M r c = Inr arr" "shaped K c M"
  shows "holds_matrix c (take r M) arr" "r \<le> K"
proof -
  from assms show r: "r \<le> K" by (auto simp: form_matrix_def shaped_def split: if_splits)
  have row: "length (M ! i) = c" if "i < r" for i using that r assms(2) by (simp add: shaped_row)
  have "map (\<lambda>j. M ! i ! j) [0..<c] = M ! i" if "i < r" for i
    using row [OF that] by (auto intro!: nth_equalityI)
  then have eq: "map (\<lambda>i. map (\<lambda>j. M ! i ! j) [0..<c]) [0..<r] = take r M"
    using r assms(2) by (auto intro!: nth_equalityI simp: shaped_def)
  have all: "list_all (\<lambda>row. length row = c) (take r M)"
    using assms(2) by (auto simp: shaped_def list_all_iff dest: in_set_takeD)
  have len: "length (concat (take r M)) = r * c" "length (take r M) = r"
    using r assms(2) length_concat_rows [OF all] by (auto simp: shaped_def)
  from assms r show "holds_matrix c (take r M) arr"
    unfolding form_matrix_def eq
    by (auto simp: construct_md_array_def bind_result_Inr ArrayGetNItems_matrix holds_matrix_def len all split: if_splits)
qed

lemma concat_rows_nth:
  "list_all (\<lambda>row. length row = c) M \<Longrightarrow> i < length M \<Longrightarrow> j < c \<Longrightarrow> concat M ! (i * c + j) = M ! i ! j"
proof (induction M arbitrary: i)
  case Nil
  then show ?case by simp
next
  case (Cons row M)
  then show ?case by (cases i) (auto simp: nth_append add.assoc)
qed

lemma foldl_update_prefix:
  "n \<le> length b \<Longrightarrow> foldl (\<lambda>v i. v[i := f i (v ! i)]) b [0..<n] = map (\<lambda>i. f i (b ! i)) [0..<n] @ drop n b"
  by (subst foldl_update_nth) (auto intro!: nth_equalityI simp: nth_append)

lemma deform_vector_holds:
  assumes "holds_vector v arr" "length v \<le> length b"
  shows "deform_vector arr b = Inr (v @ drop (length v) b, length v)"
proof -
  from assms(1) have "deconstruct_array arr = Inr (v, length v)"
    by (auto simp: holds_vector_def deconstruct_array_def bind_result_Inr ArrayGetNItems_vector)
  with assms(2) show ?thesis
    by (simp add: deform_vector_def foldl_update_prefix [where f = "\<lambda>i _. v ! i"] map_nth)
qed

lemma deform_matrix_holds:
  assumes M: "holds_matrix c M arr" and B: "length M \<le> length B" "list_all (\<lambda>row. length row = c) B"
  shows "deform_matrix arr B = Inr (M @ drop (length M) B)"
proof (cases "length M * c = 0")
  case True
  have rows: "list_all (\<lambda>row. length row = c) M" using M by (simp add: holds_matrix_def)
  have "M @ drop (length M) B = B"
  proof (cases "M = []")
    case False
    with True rows B show ?thesis
      by (auto intro!: nth_equalityI simp: nth_append list_all_length)
  qed simp
  moreover from M True have "deconstruct_array arr = Inr ([], 0)"
    by (auto simp: holds_matrix_def deconstruct_array_def bind_result_Inr ArrayGetNItems_matrix)
  ultimately show ?thesis by (simp add: deform_matrix_def)
next
  case False
  have rows: "list_all (\<lambda>row. length row = c) M" and arr: "arr = \<lparr>ARR_DIMS = [int (length M), int c], ARR_ELEMS = concat M\<rparr>"
    using M by (simp_all add: holds_matrix_def)
  have dec: "deconstruct_array arr = Inr (concat M, length M * c)"
    using M length_concat_rows [OF rows]
    by (auto simp: holds_matrix_def deconstruct_array_def bind_result_Inr ArrayGetNItems_matrix)
  have row: "foldl (\<lambda>row j. row[j := concat M ! (i * c + j)]) b [0..<c] = M ! i" if "i < length M" "length b = c" for i b
    using that rows concat_rows_nth [OF rows that(1)]
    by (subst foldl_update_prefix [where f = "\<lambda>j _. concat M ! (i * c + j)"]) (auto intro!: nth_equalityI simp: list_all_length)
  have "foldl (\<lambda>m i. m[i := foldl (\<lambda>row j. row[j := concat M ! (i * c + j)]) (m ! i) [0..<c]]) B [0..<length M]
      = M @ drop (length M) B"
    using B row by (subst foldl_update_prefix) (auto intro!: nth_equalityI simp: list_all_length)
  moreover have "\<not> list_ex (\<lambda>row. length row < c) (take (length M) B)"
    using B by (auto simp: list_ex_iff list_all_iff dest: in_set_takeD)
  ultimately show ?thesis
    using False B by (simp add: deform_matrix_def dec) (simp add: arr Let_def)
qed

lemma holds_matrix_shaped: "holds_matrix c M arr \<Longrightarrow> shaped (length M) c M"
  by (simp add: holds_matrix_def shaped_def)

lemma shaped_append: "shaped m c M \<Longrightarrow> shaped K c B \<Longrightarrow> m \<le> K \<Longrightarrow> shaped K c (M @ drop m B)"
  by (auto simp: shaped_def list_all_iff dest: in_set_dropD)

lemma shaped_take: "shaped K c M \<Longrightarrow> r \<le> K \<Longrightarrow> shaped r c (take r M)"
  by (auto simp: shaped_def list_all_iff dest: in_set_takeD)

subsection \<open>A store of training rows\<close>

text \<open>
  The two relations of training rows (\<^verbatim>\<open>aqo_data\<close> and \<^verbatim>\<open>aqo_data_house_lwpr\<close>) are used in the
  same way: load the rows of one model into preallocated arrays, learn, save the arrays. The contract of such a store, for
  one model with room for \<open>K\<close> rows of \<open>c\<close> columns: in a well-formed state loading succeeds and what it loads fits the
  arrays, saving keeps the state well-formed, and what has been saved is what is loaded next, unless another session
  changed the tuple and the save was discarded.
\<close>

definition rows_ok :: "nat \<Rightarrow> nat \<Rightarrow> pg_array \<Rightarrow> pg_array \<Rightarrow> bool" where
  "rows_ok K c features targets \<longleftrightarrow>
     (\<exists>M v. holds_matrix c M features \<and> holds_vector v targets \<and> length M = length v \<and> length v \<le> K)"

definition data_ok :: "(c_int \<times> c_int \<Rightarrow> nat) \<Rightarrow> aqo_state \<Rightarrow> bool" where
  "data_ok cols s \<longleftrightarrow> (\<forall>key row. aqo_data (tables s) key = Some row \<longrightarrow>
     f_nfeatures row = cols key \<and> rows_ok aqo_K (cols key) (f_features row) (f_targets row))"

definition rf_rows :: "nat \<Rightarrow> nat" where "rf_rows nIn = 2 * nIn + 1"

definition house_ok :: "(c_int \<times> c_int \<times> c_int \<Rightarrow> nat) \<Rightarrow> aqo_state \<Rightarrow> bool" where
  "house_ok cols s \<longleftrightarrow> (\<forall>key row. aqo_data_house_lwpr (tables s) key = Some row \<longrightarrow>
     rows_ok (rf_rows (cols key)) (cols key) (h_features row) (h_targets row))"

locale training_store =
  fixes load :: "real list list \<Rightarrow> real list \<Rightarrow> 's \<Rightarrow> ((real list list \<times> real list \<times> nat) option \<times> 's) result"
    and save :: "nat \<Rightarrow> real list list \<Rightarrow> real list \<Rightarrow> 's \<Rightarrow> (bool \<times> 's) result"
    and K c :: nat
    and ok :: "'s \<Rightarrow> bool"
  assumes load_fits: "ok s \<Longrightarrow> shaped K c M \<Longrightarrow> length t = K \<Longrightarrow>
      \<exists>r s'. load M t s = Inr (r, s') \<and> ok s' \<and>
        (r = None \<or> (\<exists>M' t' n. r = Some (M', t', n) \<and> shaped K c M' \<and> length t' = K \<and> n \<le> K))"
    and save_ok: "ok s \<Longrightarrow> shaped K c M \<Longrightarrow> length t = K \<Longrightarrow> n \<le> K \<Longrightarrow> save n M t s = Inr (b, s') \<Longrightarrow> ok s'"
    and save_defined: "ok s \<Longrightarrow> shaped K c M \<Longrightarrow> length t = K \<Longrightarrow> n \<le> K \<Longrightarrow> save n M t s \<noteq> Inl Undefined"
    and load_saved: "ok s \<Longrightarrow> shaped K c M \<Longrightarrow> length t = K \<Longrightarrow> n \<le> K \<Longrightarrow> save n M t s = Inr (True, s') \<Longrightarrow>
      shaped K c B \<Longrightarrow> length tb = K \<Longrightarrow>
      s' = s \<or> load B tb s' = Inr (Some (take n M @ drop n B, take n t @ drop n tb, n), s')"

definition learn_step ::
    "(real list list \<Rightarrow> real list \<Rightarrow> 's \<Rightarrow> ((real list list \<times> real list \<times> nat) option \<times> 's) result) \<Rightarrow>
     (nat \<Rightarrow> real list list \<Rightarrow> real list \<Rightarrow> 's \<Rightarrow> (bool \<times> 's) result) \<Rightarrow> nat \<Rightarrow> nat \<Rightarrow>
     real list list \<Rightarrow> real list \<Rightarrow> real list \<Rightarrow> real \<Rightarrow> 's \<Rightarrow> 's result" where
  "learn_step load save K c matrix targets features target s =
     bind_result (load matrix targets s) (\<lambda>(r, s).
       let (matrix, targets, rows) = (case r of None \<Rightarrow> (matrix, targets, 0) | Some x \<Rightarrow> x)
       in bind_result (OkNNr_learn rows c matrix targets features target K) (\<lambda>(matrix, targets, lst).
          bind_result (save (lines_after rows lst) matrix targets s) (\<lambda>(b, s). Inr s)))"

context training_store
begin

lemma loaded_rows:
  assumes "ok s" "shaped K c M" "length t = K"
  obtains r s' M1 t1 n where "load M t s = Inr (r, s')" "ok s'"
    "(case r of None \<Rightarrow> (M, t, 0) | Some x \<Rightarrow> x) = (M1, t1, n)" "shaped K c M1" "length t1 = K" "n \<le> K"
proof -
  from load_fits [OF assms] obtain r s' where load: "load M t s = Inr (r, s')" "ok s'"
    and r: "r = None \<or> (\<exists>M' t' n. r = Some (M', t', n) \<and> shaped K c M' \<and> length t' = K \<and> n \<le> K)" by blast
  show thesis
  proof (cases r)
    case None
    with that [OF load, of M t 0] assms show ?thesis by simp
  next
    case (Some x)
    with r obtain M1 t1 n where "x = (M1, t1, n)" "shaped K c M1" "length t1 = K" "n \<le> K" by auto
    with that [OF load, of M1 t1 n] Some show ?thesis by simp
  qed
qed

lemma learn_step_run:
  assumes "ok s" "shaped K c M" "length t = K"
  obtains s1 M1 t1 n where "ok s1" "shaped K c M1" "length t1 = K" "n \<le> K"
    "learn_step load save K c M t x y s =
       bind_result (OkNNr_learn n c M1 t1 x y K) (\<lambda>(M2, t2, lst).
         bind_result (save (lines_after n lst) M2 t2 s1) (\<lambda>(b, s). Inr s))"
proof -
  from assms obtain r s1 M1 t1 n where "load M t s = Inr (r, s1)" "ok s1"
    "(case r of None \<Rightarrow> (M, t, 0) | Some x \<Rightarrow> x) = (M1, t1, n)" "shaped K c M1" "length t1 = K" "n \<le> K"
    by (rule loaded_rows)
  with that [of s1 M1 t1 n] show thesis by (simp add: learn_step_def Let_def)
qed

lemma learned_rows:
  assumes "OkNNr_learn n c M t x y K = Inr (M', t', lst)" "shaped K c M" "length t = K" "n \<le> K"
  shows "shaped K c M'" "length t' = K" "lines_after n lst \<le> K"
  using OkNNr_learn_shape [OF assms(1,2,4,3)] lines_after_bounds [of lst K n] assms(4) by auto

lemma learn_step_ok:
  assumes "ok s" "shaped K c M" "length t = K" "learn_step load save K c M t x y s = Inr s'"
  shows "ok s'"
proof -
  from learn_step_run [OF assms(1-3), of x y] obtain s1 M1 t1 n where
    run: "ok s1" "shaped K c M1" "length t1 = K" "n \<le> K"
    and step: "learn_step load save K c M t x y s =
       bind_result (OkNNr_learn n c M1 t1 x y K) (\<lambda>(M2, t2, lst).
         bind_result (save (lines_after n lst) M2 t2 s1) (\<lambda>(b, s). Inr s))" by blast
  from assms(4) obtain M2 t2 lst b where learn: "OkNNr_learn n c M1 t1 x y K = Inr (M2, t2, lst)"
    and save: "save (lines_after n lst) M2 t2 s1 = Inr (b, s')"
    unfolding step by (auto simp: result_simps)
  from learned_rows [OF learn run(2,3,4)] show ?thesis by (intro save_ok [OF run(1) _ _ _ save])
qed

lemma learn_step_undefined:
  assumes "ok s" "shaped K c M" "length t = K" "learn_step load save K c M t x y s = Inl Undefined"
  shows "\<exists>M1. shaped K c M1 \<and> 0 < c \<and> (\<exists>r<K. \<forall>j<c. M1 ! r ! j = x ! j)"
proof -
  from learn_step_run [OF assms(1-3), of x y] obtain s1 M1 t1 n where
    run: "ok s1" "shaped K c M1" "length t1 = K" "n \<le> K"
    and step: "learn_step load save K c M t x y s =
       bind_result (OkNNr_learn n c M1 t1 x y K) (\<lambda>(M2, t2, lst).
         bind_result (save (lines_after n lst) M2 t2 s1) (\<lambda>(b, s). Inr s))" by blast
  have "save (lines_after n lst) M2 t2 s1 \<noteq> Inl Undefined"
    if "OkNNr_learn n c M1 t1 x y K = Inr (M2, t2, lst)" for M2 t2 lst
    using learned_rows [OF that run(2-4)] by (intro save_defined [OF run(1)])
  with assms(4) have "OkNNr_learn n c M1 t1 x y K = Inl Undefined"
    unfolding step by (auto simp: result_simps)
  with run show ?thesis unfolding OkNNr_learn_error by auto
qed

end

subsection \<open>The two relations of training rows are such stores\<close>

lemma fspace_disabled [simp]: "fspace_hash (query_context (disabled s)) = fspace_hash (query_context s)"
  "tables (disabled s) = tables s"
  by (simp_all add: disabled_def disable_aqo_for_query_def)

lemma deform_rows:
  assumes "rows_ok K c feats targs" "shaped K c M" "length t = K"
  obtains M' t' n where "deform_matrix feats M = Inr M'" "deform_vector targs t = Inr (t', n)"
    "shaped K c M'" "length t' = K" "n \<le> K"
proof -
  from assms(1) obtain N v where Nv: "holds_matrix c N feats" "holds_vector v targs" "length N = length v" "length v \<le> K"
    by (auto simp: rows_ok_def)
  have "deform_matrix feats M = Inr (N @ drop (length N) M)"
    using assms(2) Nv by (intro deform_matrix_holds) (auto simp: shaped_def)
  moreover have "deform_vector targs t = Inr (v @ drop (length v) t, length v)"
    using assms(3) Nv by (intro deform_vector_holds) auto
  moreover have "shaped K c (N @ drop (length N) M)"
    using assms(2) Nv by (intro shaped_append holds_matrix_shaped) auto
  ultimately show thesis
    using Nv(4) assms(3) that [of "N @ drop (length N) M" "v @ drop (length v) t" "length v"] by simp
qed

lemma form_rows:
  assumes "form_matrix M n c = Inr feats" "form_vector t n = Inr targs" "shaped K c M" "length t = K"
  shows "rows_ok K c feats targs"
    and "shaped K c B \<Longrightarrow> deform_matrix feats B = Inr (take n M @ drop n B)"
    and "length tb = K \<Longrightarrow> deform_vector targs tb = Inr (take n t @ drop n tb, n)"
proof -
  note m = form_matrix_holds [OF assms(1,3)] and v = form_vector_holds [OF assms(2)]
  from m v assms(3,4) show "rows_ok K c feats targs"
    unfolding rows_ok_def by (intro exI [of _ "take n M"] exI [of _ "take n t"]) (auto simp: shaped_def)
  show "deform_matrix feats B = Inr (take n M @ drop n B)" if "shaped K c B"
    using deform_matrix_holds [OF m(1), of B] m(2) that assms(3) by (auto simp: shaped_def)
  show "deform_vector targs tb = Inr (take n t @ drop n tb, n)" if "length tb = K"
    using deform_vector_holds [OF v(1), of tb] v(2) that assms(4) by auto
qed

lemma form_defined:
  "shaped K c M \<Longrightarrow> n \<le> K \<Longrightarrow> form_matrix M n c \<noteq> Inl Undefined"
  "n \<le> length t \<Longrightarrow> form_vector t n \<noteq> Inl Undefined"
proof -
  have items: "array_items_loop r ds \<noteq> Inl Undefined" for r ds
    by (induction r ds rule: array_items_loop.induct) (auto simp: Let_def)
  then have "construct_md_array es ds \<noteq> Inl Undefined" for es ds
    by (auto simp: construct_md_array_def ArrayGetNItems_def result_simps split: if_splits)
  then show "shaped K c M \<Longrightarrow> n \<le> K \<Longrightarrow> form_matrix M n c \<noteq> Inl Undefined"
    "n \<le> length t \<Longrightarrow> form_vector t n \<noteq> Inl Undefined"
    by (auto simp: form_matrix_def form_vector_def shaped_def list_ex_iff list_all_iff dest: in_set_takeD)
qed

lemma replace_tuple_cases:
  "replace_tuple hu tab k row = Inr tab' \<Longrightarrow> tab' = tab(k \<mapsto> row) \<or> my_simple_heap_update hu = Inr False \<and> tab' = tab"
  "replace_tuple hu tab k row \<noteq> Inl Undefined"
  by (cases hu; auto simp: replace_tuple_def)+

definition data_at :: "(c_int \<times> c_int \<Rightarrow> nat) \<Rightarrow> c_int \<Rightarrow> aqo_state \<Rightarrow> bool" where
  "data_at cols f s \<longleftrightarrow> data_ok cols s \<and> fspace_hash (query_context s) = f"

definition house_at :: "(c_int \<times> c_int \<times> c_int \<Rightarrow> nat) \<Rightarrow> c_int \<Rightarrow> aqo_state \<Rightarrow> bool" where
  "house_at cols f s \<longleftrightarrow> house_ok cols s \<and> fspace_hash (query_context s) = f"

lemma load_fss_fits:
  assumes "data_at cols f s" and Mt: "shaped aqo_K (cols (f, h)) M" "length t = aqo_K"
  shows "\<exists>r s'. load_fss h (cols (f, h)) M t s = Inr (r, s') \<and> data_at cols f s' \<and>
    (r = None \<or> (\<exists>M' t' n. r = Some (M', t', n) \<and> shaped aqo_K (cols (f, h)) M' \<and> length t' = aqo_K \<and> n \<le> aqo_K))"
proof (cases "aqo_data (tables s) (f, h)")
  case None
  with assms show ?thesis by (auto simp: load_fss_def data_at_def data_ok_def)
next
  case (Some row)
  with assms have row: "f_nfeatures row = cols (f, h)" "rows_ok aqo_K (cols (f, h)) (f_features row) (f_targets row)"
    by (auto simp: data_at_def data_ok_def)
  from deform_rows [OF row(2) Mt] obtain M' t' n where "deform_matrix (f_features row) M = Inr M'"
    "deform_vector (f_targets row) t = Inr (t', n)" "shaped aqo_K (cols (f, h)) M'" "length t' = aqo_K" "n \<le> aqo_K" .
  with row Some assms show ?thesis by (auto simp: load_fss_def data_at_def data_ok_def)
qed

lemma update_fss_cases:
  assumes "update_fss hu h n c M t s = Inr (b, s')"
  obtains (none) "\<not> b" "s' = disabled s" | (discarded) "my_simple_heap_update hu = Inr False" "s' = s"
  | (stored) m v row where "form_matrix M n c = Inr m" "form_vector t n = Inr v" "f_features row = m" "f_targets row = v"
      "index_exists (tables s) ''aqo_fss_access_idx''"
      "f_nfeatures row = (case aqo_data (tables s) (fspace_hash (query_context s), h) of None \<Rightarrow> c | Some old \<Rightarrow> f_nfeatures old)"
      "s' = s\<lparr>tables := (tables s)\<lparr>aqo_data := (aqo_data (tables s))((fspace_hash (query_context s), h) \<mapsto> row)\<rparr>\<rparr>"
proof (cases "index_exists (tables s) ''aqo_fss_access_idx''")
  case False
  with assms none show thesis by (simp add: update_fss_def)
next
  case True
  with assms obtain m v tab where mv: "form_matrix M n c = Inr m" "form_vector t n = Inr v"
    and tab: "(case aqo_data (tables s) (fspace_hash (query_context s), h) of
        None \<Rightarrow> Inr ((aqo_data (tables s))((fspace_hash (query_context s), h) \<mapsto> \<lparr>f_nfeatures = c, f_features = m, f_targets = v\<rparr>))
      | Some row \<Rightarrow> replace_tuple hu (aqo_data (tables s)) (fspace_hash (query_context s), h) (row\<lparr>f_features := m, f_targets := v\<rparr>)) = Inr tab"
    and s': "s' = s\<lparr>tables := (tables s)\<lparr>aqo_data := tab\<rparr>\<rparr>"
    by (auto simp: update_fss_def Let_def bind_result_Inr)
  show thesis
  proof (cases "aqo_data (tables s) (fspace_hash (query_context s), h)")
    case None
    with tab s' show ?thesis by (intro stored [OF mv _ _ True]) auto
  next
    case (Some row)
    with tab have "tab = (aqo_data (tables s))((fspace_hash (query_context s), h) \<mapsto> row\<lparr>f_features := m, f_targets := v\<rparr>) \<or>
        my_simple_heap_update hu = Inr False \<and> tab = aqo_data (tables s)"
      using replace_tuple_cases(1) by fastforce
    then show ?thesis
    proof
      assume "my_simple_heap_update hu = Inr False \<and> tab = aqo_data (tables s)"
      with s' show ?thesis by (intro discarded) simp_all
    next
      assume "tab = (aqo_data (tables s))((fspace_hash (query_context s), h) \<mapsto> row\<lparr>f_features := m, f_targets := v\<rparr>)"
      with s' Some show ?thesis by (intro stored [OF mv _ _ True]) auto
    qed
  qed
qed

lemma update_fss_ok:
  assumes "data_at cols f s" and Mt: "shaped aqo_K (cols (f, h)) M" "length t = aqo_K"
    and "update_fss hu h n (cols (f, h)) M t s = Inr (b, s')"
  shows "data_at cols f s'"
  using assms(4)
proof (cases rule: update_fss_cases)
  case (stored m v row)
  with form_rows(1) [OF stored(1,2) Mt] assms(1) show ?thesis
    by (auto simp: data_at_def data_ok_def split: option.splits)
qed (use assms(1) in \<open>auto simp: data_at_def data_ok_def\<close>)

lemma update_fss_defined:
  assumes "shaped K c M" "length t = K" "n \<le> K"
  shows "update_fss hu h n c M t s \<noteq> Inl Undefined"
  using assms form_defined(1) [of K c M n] form_defined(2) [of n t]
  by (auto simp: update_fss_def Let_def result_simps replace_tuple_cases(2) split: if_splits option.splits)

lemma load_updated_fss:
  assumes "data_at cols f s" and Mt: "shaped aqo_K (cols (f, h)) M" "length t = aqo_K"
    and "update_fss hu h n (cols (f, h)) M t s = Inr (True, s')" and B: "shaped aqo_K (cols (f, h)) B" "length tb = aqo_K"
  shows "s' = s \<or> load_fss h (cols (f, h)) B tb s' = Inr (Some (take n M @ drop n B, take n t @ drop n tb, n), s')"
  using assms(4)
proof (cases rule: update_fss_cases)
  case (stored m v row)
  have "f_nfeatures row = cols (f, h)"
    using stored(6) assms(1) by (auto simp: data_at_def data_ok_def split: option.splits)
  with stored form_rows(2) [OF stored(1,2) Mt B(1)] form_rows(3) [OF stored(1,2) Mt B(2)] assms(1) show ?thesis
    by (simp add: load_fss_def data_at_def)
qed auto

interpretation fss: training_store "load_fss h (cols (f, h))" "\<lambda>n. update_fss hu h n (cols (f, h))" aqo_K "cols (f, h)"
    "data_at cols f" for h f hu cols
proof (unfold_locales, goal_cases)
  case (1 s M t)
  then show ?case by (rule load_fss_fits [where cols = cols and f = f and h = h])
next
  case (2 s M t n b s')
  show ?case by (rule update_fss_ok [where cols = cols and f = f and h = h, OF 2(1,2,3,5)])
next
  case (3 s M t n)
  show ?case by (rule update_fss_defined [OF 3(2,3,4)])
next
  case (4 s M t n s' B tb)
  show ?case by (rule load_updated_fss [where cols = cols and f = f and h = h, OF 4(1,2,3,5,6,7)])
qed

lemma load_rf_datahouse_fits:
  assumes "house_at cols f s" and Mt: "shaped (rf_rows (cols (f, h, r))) (cols (f, h, r)) M" "length t = rf_rows (cols (f, h, r))"
  shows "\<exists>res s'. load_rf_datahouse h r M t s = Inr (res, s') \<and> house_at cols f s' \<and>
    (res = None \<or> (\<exists>M' t' n. res = Some (M', t', n) \<and> shaped (rf_rows (cols (f, h, r))) (cols (f, h, r)) M' \<and>
      length t' = rf_rows (cols (f, h, r)) \<and> n \<le> rf_rows (cols (f, h, r))))"
proof (cases "aqo_data_house_lwpr (tables s) (f, h, r)")
  case None
  with assms show ?thesis by (auto simp: load_rf_datahouse_def house_at_def house_ok_def)
next
  case (Some row)
  with assms have row: "rows_ok (rf_rows (cols (f, h, r))) (cols (f, h, r)) (h_features row) (h_targets row)"
    by (auto simp: house_at_def house_ok_def)
  from deform_rows [OF row Mt] obtain M' t' n where "deform_matrix (h_features row) M = Inr M'"
    "deform_vector (h_targets row) t = Inr (t', n)"
    "shaped (rf_rows (cols (f, h, r))) (cols (f, h, r)) M'" "length t' = rf_rows (cols (f, h, r))" "n \<le> rf_rows (cols (f, h, r))" .
  with row Some assms show ?thesis by (auto simp: load_rf_datahouse_def house_at_def house_ok_def)
qed

lemma update_rf_datahouse_cases:
  assumes "update_rf_datahouse hu h r c n M t s = Inr (b, s')"
  obtains (none) "\<not> b" "s' = disabled s" | (discarded) "my_simple_heap_update hu = Inr False" "s' = s"
  | (stored) m v row where "form_matrix M n c = Inr m" "form_vector t n = Inr v" "h_features row = m" "h_targets row = v"
      "index_exists (tables s) ''aqo_fss_lwpr_datahouse_idx''"
      "s' = s\<lparr>tables := (tables s)\<lparr>aqo_data_house_lwpr := (aqo_data_house_lwpr (tables s))((fspace_hash (query_context s), h, r) \<mapsto> row)\<rparr>\<rparr>"
proof (cases "index_exists (tables s) ''aqo_fss_lwpr_datahouse_idx''")
  case False
  with assms none show thesis by (simp add: update_rf_datahouse_def)
next
  case True
  with assms obtain m v tab where mv: "form_matrix M n c = Inr m" "form_vector t n = Inr v"
    and tab: "(case aqo_data_house_lwpr (tables s) (fspace_hash (query_context s), h, r) of
        None \<Rightarrow> Inr ((aqo_data_house_lwpr (tables s))((fspace_hash (query_context s), h, r) \<mapsto> \<lparr>h_features = m, h_targets = v\<rparr>))
      | Some row \<Rightarrow> replace_tuple hu (aqo_data_house_lwpr (tables s)) (fspace_hash (query_context s), h, r) (row\<lparr>h_features := m, h_targets := v\<rparr>)) = Inr tab"
    and s': "s' = s\<lparr>tables := (tables s)\<lparr>aqo_data_house_lwpr := tab\<rparr>\<rparr>"
    by (auto simp: update_rf_datahouse_def Let_def bind_result_Inr)
  show thesis
  proof (cases "aqo_data_house_lwpr (tables s) (fspace_hash (query_context s), h, r)")
    case None
    with tab s' show ?thesis by (intro stored [OF mv _ _ True]) auto
  next
    case (Some row)
    with tab have "tab = (aqo_data_house_lwpr (tables s))((fspace_hash (query_context s), h, r) \<mapsto> row\<lparr>h_features := m, h_targets := v\<rparr>) \<or>
        my_simple_heap_update hu = Inr False \<and> tab = aqo_data_house_lwpr (tables s)"
      using replace_tuple_cases(1) by fastforce
    then show ?thesis
    proof
      assume "my_simple_heap_update hu = Inr False \<and> tab = aqo_data_house_lwpr (tables s)"
      with s' show ?thesis by (intro discarded) simp_all
    next
      assume "tab = (aqo_data_house_lwpr (tables s))((fspace_hash (query_context s), h, r) \<mapsto> row\<lparr>h_features := m, h_targets := v\<rparr>)"
      with s' Some show ?thesis by (intro stored [OF mv _ _ True]) auto
    qed
  qed
qed

lemma update_rf_datahouse_ok:
  assumes "house_at cols f s" and Mt: "shaped (rf_rows (cols (f, h, r))) (cols (f, h, r)) M" "length t = rf_rows (cols (f, h, r))"
    and "update_rf_datahouse hu h r (cols (f, h, r)) n M t s = Inr (b, s')"
  shows "house_at cols f s'"
  using assms(4)
proof (cases rule: update_rf_datahouse_cases)
  case (stored m v row)
  with form_rows(1) [OF stored(1,2) Mt] assms(1) show ?thesis
    by (auto simp: house_at_def house_ok_def split: option.splits)
qed (use assms(1) in \<open>auto simp: house_at_def house_ok_def\<close>)

lemma update_rf_datahouse_defined:
  assumes "shaped K c M" "length t = K" "n \<le> K"
  shows "update_rf_datahouse hu h r c n M t s \<noteq> Inl Undefined"
  using form_defined(1) [OF assms(1,3)] form_defined(2) [of n t] assms(2,3)
  unfolding update_rf_datahouse_def Let_def
  by (cases "aqo_data_house_lwpr (tables s) (fspace_hash (query_context s), h, r)")
    (simp_all add: bind_result_Inl replace_tuple_cases(2))

lemma load_updated_rf_datahouse:
  assumes "house_at cols f s" and Mt: "shaped (rf_rows (cols (f, h, r))) (cols (f, h, r)) M" "length t = rf_rows (cols (f, h, r))"
    and "update_rf_datahouse hu h r (cols (f, h, r)) n M t s = Inr (True, s')"
    and B: "shaped (rf_rows (cols (f, h, r))) (cols (f, h, r)) B" "length tb = rf_rows (cols (f, h, r))"
  shows "s' = s \<or> load_rf_datahouse h r B tb s' = Inr (Some (take n M @ drop n B, take n t @ drop n tb, n), s')"
  using assms(4)
proof (cases rule: update_rf_datahouse_cases)
  case (stored m v row)
  have "deform_matrix (h_features row) B = Inr (take n M @ drop n B)"
    "deform_vector (h_targets row) tb = Inr (take n t @ drop n tb, n)"
    using form_rows(2) [OF stored(1,2) Mt B(1)] form_rows(3) [OF stored(1,2) Mt B(2)] stored(3,4) by simp_all
  with stored(5,6) show ?thesis by (simp add: load_rf_datahouse_def)
qed auto

interpretation house: training_store "load_rf_datahouse h r" "update_rf_datahouse hu h r (cols (f, h, r))"
    "rf_rows (cols (f, h, r))" "cols (f, h, r)"
    "house_at cols f" for h r f hu cols
proof (unfold_locales, goal_cases)
  case (1 s M t)
  then show ?case by (rule load_rf_datahouse_fits [where cols = cols and f = f and h = h and r = r])
next
  case (2 s M t n b s')
  show ?case by (rule update_rf_datahouse_ok [where cols = cols and f = f and h = h and r = r, OF 2(1,2,3,5)])
next
  case (3 s M t n)
  show ?case by (rule update_rf_datahouse_defined [OF 3(2,3,4)])
next
  case (4 s M t n s' B tb)
  show ?case by (rule load_updated_rf_datahouse [where cols = cols and f = f and h = h and r = r, OF 4(1,2,3,5,6,7)])
qed

subsection \<open>Learning steps\<close>

text \<open>
  \<^verbatim>\<open>atomic_fss_learn_step\<close> learns one sample of a feature subspace; the receptive fields that are
  not yet trustworthy keep their samples the same way, in a matrix of \<^verbatim>\<open>2 * nIn + 1\<close> rows.
\<close>

definition atomic_fss_learn_step ::
    "HTSU_Result \<Rightarrow> c_int \<Rightarrow> nat \<Rightarrow> real list list \<Rightarrow> real list \<Rightarrow> real list \<Rightarrow> real \<Rightarrow> aqo_state \<Rightarrow> aqo_state result" where
  "atomic_fss_learn_step hu fss_hash matrix_cols matrix targets features target s =
     learn_step (load_fss fss_hash matrix_cols) (\<lambda>nrows. update_fss hu fss_hash nrows matrix_cols) aqo_K matrix_cols
       matrix targets features target s"

definition datahouse_learn_step ::
    "HTSU_Result \<Rightarrow> c_int \<Rightarrow> c_int \<Rightarrow> nat \<Rightarrow> real list \<Rightarrow> real \<Rightarrow> aqo_state \<Rightarrow> aqo_state result" where
  "datahouse_learn_step hu fss_hash rf_hash nIn features target s =
     learn_step (load_rf_datahouse fss_hash rf_hash) (update_rf_datahouse hu fss_hash rf_hash nIn) (rf_rows nIn) nIn
       (replicate (rf_rows nIn) (replicate nIn 0)) (replicate (rf_rows nIn) 0) features target s"

inductive trains :: "(c_int \<times> c_int \<Rightarrow> nat) \<Rightarrow> (c_int \<times> c_int \<times> c_int \<Rightarrow> nat) \<Rightarrow> aqo_state \<Rightarrow> aqo_state \<Rightarrow> bool"
  for cols rf_cols where
  subspace: "cols (fspace_hash (query_context s), h) = c \<Longrightarrow>
     atomic_fss_learn_step hu h c (replicate aqo_K (replicate c 0)) (replicate aqo_K 0) x y s = Inr s' \<Longrightarrow>
     trains cols rf_cols s s'"
| field: "rf_cols (fspace_hash (query_context s), h, r) = c \<Longrightarrow>
     datahouse_learn_step hu h r c x y s = Inr s' \<Longrightarrow> trains cols rf_cols s s'"
| switch: "trains cols rf_cols s (s\<lparr>query_context := q\<rparr>)"

lemma shaped_replicate [simp]: "shaped K c (replicate K (replicate c v))"
  by (simp add: shaped_def list_all_length)

lemma learn_step_frame:
  assumes "learn_step load save K c M t x y s = Inr s'" "P s"
    and "\<And>M t s r s'. P s \<Longrightarrow> load M t s = Inr (r, s') \<Longrightarrow> P s'"
    and "\<And>n M t s b s'. P s \<Longrightarrow> save n M t s = Inr (b, s') \<Longrightarrow> P s'"
  shows "P s'"
proof -
  from assms(1) obtain r s1 where load: "load M t s = Inr (r, s1)"
    by (cases "load M t s") (auto simp: learn_step_def)
  obtain M1 t1 n where "(case r of None \<Rightarrow> (M, t, 0) | Some x \<Rightarrow> x) = (M1, t1, n)" by (rule prod_cases3)
  with assms(1) load have "bind_result (OkNNr_learn n c M1 t1 x y K) (\<lambda>(M2, t2, lst).
      bind_result (save (lines_after n lst) M2 t2 s1) (\<lambda>(b, s). Inr s)) = Inr s'"
    by (simp add: learn_step_def Let_def)
  then have rest: "\<exists>n M t b. save n M t s1 = Inr (b, s')" by (auto simp: bind_result_Inr)
  from rest assms(4) [OF assms(3) [OF assms(2) load]] show ?thesis by blast
qed

lemma load_fss_tables: "load_fss h c M t s = Inr (r, s') \<Longrightarrow> tables s' = tables s"
  by (auto simp: load_fss_def result_simps split: if_splits option.splits)

lemma load_rf_datahouse_tables: "load_rf_datahouse h r M t s = Inr (x, s') \<Longrightarrow> tables s' = tables s"
  by (auto simp: load_rf_datahouse_def result_simps split: if_splits option.splits)

lemma update_fss_frame: "update_fss hu h n c M t s = Inr (b, s') \<Longrightarrow> aqo_data_house_lwpr (tables s') = aqo_data_house_lwpr (tables s)"
  by (auto simp: update_fss_def Let_def result_simps split: if_splits)

lemma update_rf_datahouse_frame: "update_rf_datahouse hu h r c n M t s = Inr (b, s') \<Longrightarrow> aqo_data (tables s') = aqo_data (tables s)"
  by (auto simp: update_rf_datahouse_def Let_def result_simps split: if_splits)

lemma atomic_fss_learn_step_house:
  "atomic_fss_learn_step hu h c M t x y s = Inr s' \<Longrightarrow> house_ok cols s \<Longrightarrow> house_ok cols s'"
  unfolding atomic_fss_learn_step_def
  by (rule learn_step_frame) (auto simp: house_ok_def dest: load_fss_tables update_fss_frame)

lemma datahouse_learn_step_data:
  "datahouse_learn_step hu h r c x y s = Inr s' \<Longrightarrow> data_ok cols s \<Longrightarrow> data_ok cols s'"
  unfolding datahouse_learn_step_def
  by (rule learn_step_frame) (auto simp: data_ok_def dest: load_rf_datahouse_tables update_rf_datahouse_frame)

text \<open>A state with empty relations and all indexes present.\<close>

definition empty_state :: aqo_state where
  "empty_state =
     \<lparr>query_context = \<lparr>query_hash = 0, learn_aqo = False, use_aqo = False, fspace_hash = 0, auto_tuning = False,
        collect_stat = False, adding_query = False, explain_only = False, explain_aqo = False, query_starttime = 0,
        query_planning_time = 0, current_query_hash = 0, query_distribution = [], nfeatures = 0,
        current_query_features = [], best_est_cost = 0, best_pred_cost = 0\<rparr>,
      tables = \<lparr>aqo_queries = Map.empty, aqo_query_texts = Map.empty, aqo_query_stat = Map.empty, aqo_data = Map.empty,
        aqo_data_house_lwpr = Map.empty, aqo_markov_table = Map.empty, aqo_best_two_costs_table = Map.empty,
        index_exists = (\<lambda>_. True)\<rparr>,
      objects = []\<rparr>"

lemma trains_step:
  assumes "trains cols rf_cols s s'" "data_ok cols s" "house_ok rf_cols s"
  shows "data_ok cols s' \<and> house_ok rf_cols s'"
  using assms
proof (cases rule: trains.cases)
  case (subspace h c hu x y)
  let ?f = "fspace_hash (query_context s)"
  have "data_at cols ?f s" using assms(2) by (simp add: data_at_def)
  from fss.learn_step_ok [OF this, of h "replicate aqo_K (replicate c 0)" "replicate aqo_K 0" hu x y s'] subspace have "data_at cols ?f s'"
    by (simp add: atomic_fss_learn_step_def)
  with atomic_fss_learn_step_house [OF subspace(2) assms(3)] show ?thesis by (simp add: data_at_def)
next
  case (field h r c hu x y)
  let ?f = "fspace_hash (query_context s)"
  have "house_at rf_cols ?f s" using assms(3) by (simp add: house_at_def)
  from house.learn_step_ok [OF this, of h r "replicate (rf_rows c) (replicate c 0)" "replicate (rf_rows c) 0" hu x y s'] field have "house_at rf_cols ?f s'"
    by (simp add: datahouse_learn_step_def)
  with datahouse_learn_step_data [OF field(2) assms(2)] show ?thesis by (simp add: house_at_def)
next
  case (switch q)
  with assms(2,3) show ?thesis by (simp add: data_ok_def house_ok_def)
qed

text \<open>C3: Along every run of learning steps, whatever the samples and whatever the other sessions do to the tuples, the relations of
  training rows stay well-formed: each stored matrix has the columns of its model and as many rows as there are targets, at most
  \<^verbatim>\<open>aqo_K\<close> for a feature subspace and at most \<^verbatim>\<open>2 * nIn + 1\<close> for a receptive field.\<close>

theorem training_relations_well_formed:
  assumes "(trains cols rf_cols)\<^sup>*\<^sup>* s s'" "data_ok cols s" "house_ok rf_cols s"
  shows "data_ok cols s' \<and> house_ok rf_cols s'"
  using assms by (induction rule: rtranclp_induct) (auto dest: trains_step)

theorem training_relations_well_formed_witness:
  "\<exists>s'. datahouse_learn_step HeapTupleMayBeUpdated 5 6 1 [1 / 2] 4 empty_state = Inr s' \<and>
     aqo_data_house_lwpr (tables s') (0, 5, 6) = Some \<lparr>h_features = \<lparr>ARR_DIMS = [1, 1], ARR_ELEMS = [1 / 2]\<rparr>,
       h_targets = \<lparr>ARR_DIMS = [1], ARR_ELEMS = [4]\<rparr>\<rparr> \<and>
     data_ok (\<lambda>_. 1) s' \<and> house_ok (\<lambda>_. 1) s'"
proof -
  obtain s' where run: "datahouse_learn_step HeapTupleMayBeUpdated 5 6 1 [1 / 2] 4 empty_state = Inr s'"
    and row: "aqo_data_house_lwpr (tables s') (0, 5, 6) = Some \<lparr>h_features = \<lparr>ARR_DIMS = [1, 1], ARR_ELEMS = [1 / 2]\<rparr>,
       h_targets = \<lparr>ARR_DIMS = [1], ARR_ELEMS = [4]\<rparr>\<rparr>"
    by (simp add: datahouse_learn_step_def learn_step_def load_rf_datahouse_def update_rf_datahouse_def empty_state_def
        OkNNr_learn_def row_distances_def copy_row_def rf_rows_def lines_after_def form_matrix_def form_vector_def
        construct_md_array_def ArrayGetNItems_def MaxArraySize_def MaxAllocSize_def numeral_3_eq_3 Let_def)
  have "trains (\<lambda>_. 1) (\<lambda>_. 1) empty_state s'" by (rule trains.field [OF _ run]) simp
  then have star: "(trains (\<lambda>_. 1) (\<lambda>_. 1))\<^sup>*\<^sup>* empty_state s'" by (rule r_into_rtranclp)
  have "data_ok (\<lambda>_. 1) s' \<and> house_ok (\<lambda>_. 1) s'"
    by (rule training_relations_well_formed [OF star]) (simp_all add: data_ok_def house_ok_def empty_state_def)
  with run row show ?thesis by blast
qed

text \<open>C15: What a learning step saves for a feature subspace is what the next load returns: the rows in use come back in order in the first places
  of the caller's arrays, with their number, and the rest of the arrays is untouched.\<close>

theorem update_fss_load_fss:
  assumes "data_ok cols s" "cols (fspace_hash (query_context s), h) = c"
    and "shaped aqo_K c M" "length t = aqo_K" "n \<le> aqo_K"
    and "update_fss HeapTupleMayBeUpdated h n c M t s = Inr (True, s')"
    and "shaped aqo_K c B" "length tb = aqo_K"
  shows "load_fss h c B tb s' = Inr (Some (take n M @ drop n B, take n t @ drop n tb, n), s')"
  using assms(6)
proof (cases rule: update_fss_cases)
  case (stored m v row)
  have "f_nfeatures row = c"
    using stored(6) assms(1,2) by (auto simp: data_ok_def split: option.splits)
  with stored form_rows(2) [OF stored(1,2) assms(3,4,7)] form_rows(3) [OF stored(1,2) assms(3,4,8)] show ?thesis
    by (simp add: load_fss_def)
qed auto

theorem update_fss_load_fss_witness:
  "\<exists>s'. update_fss HeapTupleMayBeUpdated 7 1 1 ([1 / 2] # replicate 29 [0]) (4 # replicate 29 0) empty_state = Inr (True, s') \<and>
     load_fss 7 1 (replicate 30 [0]) (replicate 30 0) s' = Inr (Some ([1 / 2] # replicate 29 [0], 4 # replicate 29 0, 1), s')"
proof -
  obtain s' where run: "update_fss HeapTupleMayBeUpdated 7 1 1 ([1 / 2] # replicate 29 [0]) (4 # replicate 29 0) empty_state = Inr (True, s')"
    by (simp add: update_fss_def empty_state_def form_matrix_def form_vector_def
        construct_md_array_def ArrayGetNItems_def MaxArraySize_def MaxAllocSize_def Let_def)
  have shapes: "shaped aqo_K 1 ([1 / 2] # replicate 29 [0])" "shaped aqo_K 1 (replicate 30 [0])"
    by (simp_all add: shaped_def aqo_K_def list_all_iff)
  have "data_ok (\<lambda>_. 1) empty_state" by (simp add: data_ok_def empty_state_def)
  from update_fss_load_fss [OF this refl shapes(1) _ _ run shapes(2), of "replicate 30 0"] run show ?thesis
    by (simp add: aqo_K_def)
qed

end
