(* ===== verification/BestCosts.thy ===== *)
theory BestCosts
  imports Storage
begin

text \<open>
  The record of the best costs of a query template (\<^verbatim>\<open>contrib/aqo/plan_generation.c\<close>): before planning the
  best estimated cost of the query is predicted from the record, after execution the record learns the estimated
  cost of the plan and the time it took. The predicted cost becomes the pruning bound of the exploratory planner.

  The lemmas show that the record stays well-formed under every update, that the best true cost of a stored point never
  grows, and that a prediction is never negative; and what goes wrong when the number of features of a template changes.
\<close>

definition calculate_current_best_estimate_cost ::
    "c_int \<Rightarrow> nat \<Rightarrow> real list \<Rightarrow> aqo_state \<Rightarrow> aqo_state result" where
  "calculate_current_best_estimate_cost query_pattern nf input_feature s =
     (let feature_matrix = replicate num_two_costs_save (replicate nf 0);
          best_est_costs = replicate num_two_costs_save 0;
          best_true_costs = replicate num_two_costs_save 0
      in bind_result (load_best_two_costs query_pattern feature_matrix best_est_costs best_true_costs nf s) (\<lambda>(r, s).
           let (feature_matrix, best_est_costs, best_true_costs, rows) =
                 (case r of None \<Rightarrow> (feature_matrix, best_est_costs, best_true_costs, 0) | Some x \<Rightarrow> x)
           in if rows \<noteq> 0 \<and> length input_feature < nf then Inl Undefined
              else Inr (s\<lparr>query_context := (query_context s)\<lparr>best_pred_cost :=
                     OkNNr_predict2 rows nf feature_matrix best_est_costs input_feature 2\<rparr>\<rparr>)))"

definition update_two_best_costs_record ::
    "HTSU_Result \<Rightarrow> c_int \<Rightarrow> nat \<Rightarrow> real list \<Rightarrow> cost \<Rightarrow> real \<Rightarrow> aqo_state \<Rightarrow> aqo_state result" where
  "update_two_best_costs_record hu current_query_pattern nf features est total_time s =
     (let feature_matrix = replicate num_two_costs_save (replicate nf 0);
          best_est_costs = replicate num_two_costs_save 0;
          best_true_costs = replicate num_two_costs_save 0
      in bind_result (load_best_two_costs current_query_pattern feature_matrix best_est_costs best_true_costs nf s) (\<lambda>(r, s).
           let (feature_matrix, best_est_costs, best_true_costs, rows) =
                 (case r of None \<Rightarrow> (feature_matrix, best_est_costs, best_true_costs, 0) | Some x \<Rightarrow> x)
           in if length features < nf then Inl Undefined
              else let (feature_matrix, best_est_costs, best_true_costs, changed_lines) =
                         OkNNr_learn2 rows nf feature_matrix best_est_costs best_true_costs
                           features est total_time num_two_costs_save
                   in bind_result (update_best_two_costs hu current_query_pattern nf (lines_after rows changed_lines)
                                     feature_matrix best_est_costs best_true_costs s) (\<lambda>(b, s). Inr s)))"

definition aqo_estimated_cost_hook :: "cost \<Rightarrow> aqo_state \<Rightarrow> aqo_state" where
  "aqo_estimated_cost_hook path_total_cost s = s\<lparr>query_context := (query_context s)\<lparr>best_est_cost := path_total_cost\<rparr>\<rparr>"

subsection \<open>Well-formed records\<close>

definition holds_costs :: "nat \<Rightarrow> real list list \<Rightarrow> real list \<Rightarrow> real list \<Rightarrow> costs_row \<Rightarrow> bool" where
  "holds_costs c M est tru row \<longleftrightarrow> c_nfeatures row = c \<and> holds_matrix c M (c_features row) \<and>
     holds_vector est (c_est_costs row) \<and> holds_vector tru (c_true_costs row) \<and>
     length est = length M \<and> length tru = length M \<and> length M \<le> num_two_costs_save"

definition costs_ok :: "(c_int \<Rightarrow> nat) \<Rightarrow> aqo_state \<Rightarrow> bool" where
  "costs_ok cols s \<longleftrightarrow> (\<forall>p row. aqo_best_two_costs_table (tables s) p = Some row \<longrightarrow> (\<exists>M est tru. holds_costs (cols p) M est tru row))"

text \<open>The best true costs recorded for a template, oldest first; none when nothing is recorded.\<close>

definition true_costs_of :: "c_int \<Rightarrow> aqo_state \<Rightarrow> real list" where
  "true_costs_of p s = (case aqo_best_two_costs_table (tables s) p of None \<Rightarrow> [] | Some row \<Rightarrow> ARR_ELEMS (c_true_costs row))"

lemma num_two_costs_save_pos [simp]: "0 < num_two_costs_save"
  by (simp add: num_two_costs_save_def)

text \<open>What loading a well-formed record leaves in cleared arrays, in one shape for both clients.\<close>

lemma load_best_two_costs_rows:
  assumes "costs_ok cols s"
  obtains r M est tru n s1 where
    "load_best_two_costs p (replicate num_two_costs_save (replicate (cols p) 0)) (replicate num_two_costs_save 0)
       (replicate num_two_costs_save 0) (cols p) s = Inr (r, s1)"
    "(case r of None \<Rightarrow> (replicate num_two_costs_save (replicate (cols p) 0), replicate num_two_costs_save 0,
        replicate num_two_costs_save 0, 0) | Some x \<Rightarrow> x) = (M, est, tru, n)"
    "tables s1 = tables s" "shaped num_two_costs_save (cols p) M" "length est = num_two_costs_save"
    "length tru = num_two_costs_save" "n \<le> num_two_costs_save"
    "index_exists (tables s) ''aqo_best_two_costs_table_idx'' \<longrightarrow> s1 = s \<and> take n tru = true_costs_of p s \<and> n = length (true_costs_of p s)"
    "query_context s1 = query_context s \<or> query_context s1 = disable_aqo_for_query (query_context s)"
proof -
  let ?K = num_two_costs_save and ?B = "replicate num_two_costs_save (replicate (cols p) 0)"
  let ?z = "replicate num_two_costs_save 0 :: real list"
  show thesis
  proof (cases "index_exists (tables s) ''aqo_best_two_costs_table_idx''")
    case False
    show thesis
      by (rule that [of None "disabled s" ?B ?z ?z 0]) (use False in \<open>simp_all add: load_best_two_costs_def disabled_def\<close>)
  next
    case idx: True
    show thesis
    proof (cases "aqo_best_two_costs_table (tables s) p")
      case None
      show thesis
        by (rule that [of None s ?B ?z ?z 0]) (use None idx in \<open>simp_all add: load_best_two_costs_def true_costs_of_def\<close>)
    next
      case (Some row)
      with assms obtain M est tru where row: "holds_costs (cols p) M est tru row"
        unfolding costs_ok_def by blast
      have m: "deform_matrix (c_features row) ?B = Inr (M @ drop (length M) ?B)"
        using row by (intro deform_matrix_holds) (auto simp: holds_costs_def list_all_iff)
      have v: "deform_vector (c_est_costs row) ?z = Inr (est @ drop (length est) ?z, length est)"
        "deform_vector (c_true_costs row) ?z = Inr (tru @ drop (length tru) ?z, length tru)"
        using row by (intro deform_vector_holds; simp add: holds_costs_def)+
      have "shaped ?K (cols p) (M @ drop (length M) ?B)"
        using row by (intro shaped_append holds_matrix_shaped) (auto simp: holds_costs_def)
      moreover have "ARR_ELEMS (c_true_costs row) = tru" using row by (simp add: holds_costs_def holds_vector_def)
      ultimately show thesis
        by (intro that [of "Some (M @ drop (length M) ?B, est @ drop (length est) ?z, tru @ drop (length tru) ?z, length tru)" s
              "M @ drop (length M) ?B" "est @ drop (length est) ?z" "tru @ drop (length tru) ?z" "length tru"])
          (use Some idx m v row in \<open>simp_all add: load_best_two_costs_def holds_costs_def true_costs_of_def\<close>)
    qed
  qed
qed

lemma update_best_two_costs_cases:
  assumes "update_best_two_costs hu p c n M est tru s = Inr (b, s')"
  obtains (none) "\<not> index_exists (tables s) ''aqo_best_two_costs_table_idx''" "s' = disabled s"
  | (discarded) "my_simple_heap_update hu = Inr False" "s' = s"
  | (stored) m ve vt row where "form_matrix M n c = Inr m" "form_vector est n = Inr ve" "form_vector tru n = Inr vt"
      "c_features row = m" "c_est_costs row = ve" "c_true_costs row = vt" "index_exists (tables s) ''aqo_best_two_costs_table_idx''"
      "c_nfeatures row = (case aqo_best_two_costs_table (tables s) p of None \<Rightarrow> c | Some old \<Rightarrow> c_nfeatures old)"
      "s' = s\<lparr>tables := (tables s)\<lparr>aqo_best_two_costs_table := (aqo_best_two_costs_table (tables s))(p \<mapsto> row)\<rparr>\<rparr>"
proof (cases "index_exists (tables s) ''aqo_best_two_costs_table_idx''")
  case False
  with assms none show thesis by (simp add: update_best_two_costs_def)
next
  case True
  let ?tab = "aqo_best_two_costs_table (tables s)"
  from True assms obtain m ve vt tab where mv: "form_matrix M n c = Inr m" "form_vector est n = Inr ve" "form_vector tru n = Inr vt"
    and tab: "(case ?tab p of
        None \<Rightarrow> Inr (?tab(p \<mapsto> \<lparr>c_nfeatures = c, c_features = m, c_est_costs = ve, c_true_costs = vt\<rparr>))
      | Some row \<Rightarrow> replace_tuple hu ?tab p (row\<lparr>c_features := m, c_est_costs := ve, c_true_costs := vt\<rparr>)) = Inr tab"
    and s': "s' = s\<lparr>tables := (tables s)\<lparr>aqo_best_two_costs_table := tab\<rparr>\<rparr>"
    by (auto simp: update_best_two_costs_def Let_def bind_result_Inr)
  show thesis
  proof (cases "?tab p")
    case None
    with tab s' True show ?thesis by (intro stored [OF mv]) auto
  next
    case (Some row)
    let ?row = "row\<lparr>c_features := m, c_est_costs := ve, c_true_costs := vt\<rparr>"
    from Some tab have "replace_tuple hu ?tab p ?row = Inr tab" by simp
    from replace_tuple_cases(1) [OF this] show ?thesis
    proof
      assume "my_simple_heap_update hu = Inr False \<and> tab = ?tab"
      with s' show ?thesis by (intro discarded) simp_all
    next
      assume "tab = ?tab(p \<mapsto> ?row)"
      with s' Some True show ?thesis by (intro stored [OF mv]) auto
    qed
  qed
qed

lemma update_best_two_costs_stores:
  assumes "update_best_two_costs hu p (cols p) n M est tru s = Inr (b, s')" "costs_ok cols s"
    and shapes: "shaped num_two_costs_save (cols p) M" "length est = num_two_costs_save" "length tru = num_two_costs_save"
    and "n \<le> num_two_costs_save"
  shows "costs_ok cols s'" "q \<noteq> p \<Longrightarrow> true_costs_of q s' = true_costs_of q s"
    "index_exists (tables s) ''aqo_best_two_costs_table_idx'' \<and> true_costs_of p s' = take n tru \<or>
     true_costs_of p s' = true_costs_of p s \<and>
       (index_exists (tables s) ''aqo_best_two_costs_table_idx'' \<longrightarrow> my_simple_heap_update hu = Inr False)"
proof -
  have "costs_ok cols s' \<and> (q \<noteq> p \<longrightarrow> true_costs_of q s' = true_costs_of q s) \<and>
    (index_exists (tables s) ''aqo_best_two_costs_table_idx'' \<and> true_costs_of p s' = take n tru \<or>
     true_costs_of p s' = true_costs_of p s \<and>
       (index_exists (tables s) ''aqo_best_two_costs_table_idx'' \<longrightarrow> my_simple_heap_update hu = Inr False))"
    using assms(1)
  proof (cases rule: update_best_two_costs_cases)
    case (stored m ve vt row)
    have nf: "c_nfeatures row = cols p"
      using stored(8) assms(2) by (auto simp: costs_ok_def holds_costs_def split: option.splits)
    have "holds_costs (cols p) (take n M) (take n est) (take n tru) row"
      using form_matrix_holds [OF stored(1) shapes(1)] form_vector_holds [OF stored(2)] form_vector_holds [OF stored(3)]
        stored(4-6) nf shapes assms(6) by (simp add: holds_costs_def shaped_def)
    moreover from this have "ARR_ELEMS (c_true_costs row) = take n tru" by (simp add: holds_costs_def holds_vector_def)
    ultimately show ?thesis
      using assms(2) stored(7,9) by (auto simp: costs_ok_def true_costs_of_def)
  qed (use assms(2) in \<open>auto simp: costs_ok_def true_costs_of_def\<close>)
  then show "costs_ok cols s'" "q \<noteq> p \<Longrightarrow> true_costs_of q s' = true_costs_of q s"
    "index_exists (tables s) ''aqo_best_two_costs_table_idx'' \<and> true_costs_of p s' = take n tru \<or>
     true_costs_of p s' = true_costs_of p s \<and>
       (index_exists (tables s) ''aqo_best_two_costs_table_idx'' \<longrightarrow> my_simple_heap_update hu = Inr False)" by auto
qed

lemma update_record_run:
  assumes "update_two_best_costs_record hu p (cols p) x est t s = Inr s'" "costs_ok cols s"
  obtains M1 est1 tru1 n M2 est2 tru2 lst s1 b where
    "OkNNr_learn2 n (cols p) M1 est1 tru1 x est t num_two_costs_save = (M2, est2, tru2, lst)"
    "update_best_two_costs hu p (cols p) (lines_after n lst) M2 est2 tru2 s1 = Inr (b, s')"
    "tables s1 = tables s" "shaped num_two_costs_save (cols p) M1" "length est1 = num_two_costs_save"
    "length tru1 = num_two_costs_save" "n \<le> num_two_costs_save"
    "index_exists (tables s) ''aqo_best_two_costs_table_idx'' \<longrightarrow> s1 = s \<and> take n tru1 = true_costs_of p s \<and> n = length (true_costs_of p s)"
proof -
  from load_best_two_costs_rows [OF assms(2), of p] obtain r M1 est1 tru1 n s1 where
    load: "load_best_two_costs p (replicate num_two_costs_save (replicate (cols p) 0)) (replicate num_two_costs_save 0)
       (replicate num_two_costs_save 0) (cols p) s = Inr (r, s1)"
    "(case r of None \<Rightarrow> (replicate num_two_costs_save (replicate (cols p) 0), replicate num_two_costs_save 0,
        replicate num_two_costs_save 0, 0) | Some x \<Rightarrow> x) = (M1, est1, tru1, n)"
    and facts: "tables s1 = tables s" "shaped num_two_costs_save (cols p) M1" "length est1 = num_two_costs_save"
    "length tru1 = num_two_costs_save" "n \<le> num_two_costs_save"
    "index_exists (tables s) ''aqo_best_two_costs_table_idx'' \<longrightarrow> s1 = s \<and> take n tru1 = true_costs_of p s \<and> n = length (true_costs_of p s)"
    by metis
  obtain M2 est2 tru2 lst where learn: "OkNNr_learn2 n (cols p) M1 est1 tru1 x est t num_two_costs_save = (M2, est2, tru2, lst)"
    by (rule prod_cases4)
  from assms(1) load learn obtain b where
    "update_best_two_costs hu p (cols p) (lines_after n lst) M2 est2 tru2 s1 = Inr (b, s')"
    by (auto simp: update_two_best_costs_record_def Let_def bind_result_Inr split: if_splits)
  from that [OF learn this facts] show thesis .
qed

subsection \<open>The record only improves\<close>

lemma update_record_true_costs:
  assumes "update_two_best_costs_record hu p (cols p) x est t s = Inr s'" "costs_ok cols s" "0 \<le> t"
  shows "costs_ok cols s'" "q \<noteq> p \<Longrightarrow> true_costs_of q s' = true_costs_of q s"
    and "length (true_costs_of p s) \<le> length (true_costs_of p s')"
    and "i < length (true_costs_of p s) \<Longrightarrow> true_costs_of p s' ! i \<le> true_costs_of p s ! i"
    and "index_exists (tables s) ''aqo_best_two_costs_table_idx'' \<Longrightarrow> my_simple_heap_update hu = Inr True \<Longrightarrow>
      \<exists>v\<in>set (true_costs_of p s'). v \<le> 101 / 100 * t"
proof -
  let ?K = num_two_costs_save
  obtain M1 est1 tru1 n M2 est2 tru2 lst s1 b where
    learn: "OkNNr_learn2 n (cols p) M1 est1 tru1 x est t ?K = (M2, est2, tru2, lst)"
    and upd: "update_best_two_costs hu p (cols p) (lines_after n lst) M2 est2 tru2 s1 = Inr (b, s')"
    and s1: "tables s1 = tables s" and sh: "shaped ?K (cols p) M1" "length est1 = ?K" "length tru1 = ?K" "n \<le> ?K"
    and idx: "index_exists (tables s) ''aqo_best_two_costs_table_idx'' \<longrightarrow> s1 = s \<and> take n tru1 = true_costs_of p s \<and> n = length (true_costs_of p s)"
    by (rule update_record_run [OF assms(1,2)])
  note shape = OkNNr_learn2_shape [OF learn sh(1,4) num_two_costs_save_pos sh(2,3)]
  have lines: "n \<le> lines_after n lst" "lines_after n lst \<le> ?K"
    using lines_after_bounds [of lst ?K n] shape(4) sh(4) by blast+
  have ok1: "costs_ok cols s1" using assms(2) s1 by (simp add: costs_ok_def)
  have same: "true_costs_of r s1 = true_costs_of r s" for r using s1 by (simp add: true_costs_of_def)
  note st = update_best_two_costs_stores [OF upd ok1 shape(1,2,3) lines(2)]
  note improve = OkNNr_learn2_true [OF learn sh(4) num_two_costs_save_pos sh(3) assms(3)]
  show "costs_ok cols s'" by (rule st(1))
  show "q \<noteq> p \<Longrightarrow> true_costs_of q s' = true_costs_of q s" using st(2) same by simp
  have key: "length (true_costs_of p s) \<le> length (true_costs_of p s') \<and>
    (\<forall>i<length (true_costs_of p s). true_costs_of p s' ! i \<le> true_costs_of p s ! i) \<and>
    (index_exists (tables s) ''aqo_best_two_costs_table_idx'' \<longrightarrow> my_simple_heap_update hu = Inr True \<longrightarrow>
      (\<exists>v\<in>set (true_costs_of p s'). v \<le> 101 / 100 * t))"
    using st(3)
  proof
    assume new: "index_exists (tables s1) ''aqo_best_two_costs_table_idx'' \<and> true_costs_of p s' = take (lines_after n lst) tru2"
    then have "index_exists (tables s) ''aqo_best_two_costs_table_idx''" unfolding s1 by blast
    with idx have old: "take n tru1 = true_costs_of p s" "n = length (true_costs_of p s)" by blast+
    from improve(2) obtain r where r: "r < lines_after n lst" "tru2 ! r \<le> 101 / 100 * t" by blast
    then have "tru2 ! r \<in> set (take (lines_after n lst) tru2)"
      using lines(2) shape(3) by (auto simp: in_set_conv_nth intro!: exI [of _ r])
    moreover have "\<forall>j<n. take (lines_after n lst) tru2 ! j \<le> take n tru1 ! j" using improve(1) lines(1) by simp
    ultimately show ?thesis using new lines shape(3) r(2) unfolding old(1) old(2) [symmetric] by auto
  qed (use same s1 in auto)
  from key show "length (true_costs_of p s) \<le> length (true_costs_of p s')"
    "i < length (true_costs_of p s) \<Longrightarrow> true_costs_of p s' ! i \<le> true_costs_of p s ! i"
    "index_exists (tables s) ''aqo_best_two_costs_table_idx'' \<Longrightarrow> my_simple_heap_update hu = Inr True \<Longrightarrow>
      \<exists>v\<in>set (true_costs_of p s'). v \<le> 101 / 100 * t" by auto
qed



subsection \<open>Predictions\<close>

lemma calculate_runs:
  assumes "costs_ok cols s" "cols p \<le> length features"
  shows "\<exists>s'. calculate_current_best_estimate_cost p (cols p) features s = Inr s' \<and> tables s' = tables s \<and>
    0 \<le> best_pred_cost (query_context s') \<and>
    (aqo_best_two_costs_table (tables s) p = None \<longrightarrow> best_pred_cost (query_context s') = 0)"
proof -
  from load_best_two_costs_rows [OF assms(1), of p] obtain r M est tru n s1 where
    load: "load_best_two_costs p (replicate num_two_costs_save (replicate (cols p) 0)) (replicate num_two_costs_save 0)
       (replicate num_two_costs_save 0) (cols p) s = Inr (r, s1)"
    "(case r of None \<Rightarrow> (replicate num_two_costs_save (replicate (cols p) 0), replicate num_two_costs_save 0,
        replicate num_two_costs_save 0, 0) | Some x \<Rightarrow> x) = (M, est, tru, n)"
    and s1: "tables s1 = tables s"
    by metis
  have "n = 0" if "aqo_best_two_costs_table (tables s) p = None"
    using that load by (auto simp: load_best_two_costs_def split: if_splits)
  then have "OkNNr_predict2 n (cols p) M est features 2 = 0" if "aqo_best_two_costs_table (tables s) p = None"
    using that by (simp add: OkNNr_predict2_def)
  with load s1 assms(2) show ?thesis
    by (simp add: calculate_current_best_estimate_cost_def Let_def OkNNr_predict2_nonneg)
qed



text \<open>C24: The number of features of a template must not change. Once a template has a record with \<open>c\<close> features, learning an
  execution with more features writes a matrix with more columns under the old feature count, and the next
  load with the recorded count then writes past the end of the caller's rows.\<close>

theorem changed_feature_count_overflows:
  assumes "aqo_best_two_costs_table (tables s) p = Some row" "c_nfeatures row = c" "c < d" "d \<le> length features"
    and "index_exists (tables s) ''aqo_best_two_costs_table_idx''"
    and "update_two_best_costs_record HeapTupleMayBeUpdated p d features est t s = Inr s'"
  shows "load_best_two_costs p (replicate num_two_costs_save (replicate c 0)) (replicate num_two_costs_save 0)
    (replicate num_two_costs_save 0) c s' = Inl Undefined"
proof -
  let ?K = num_two_costs_save
  have learn: "OkNNr_learn2 0 d (replicate ?K (replicate d 0)) (replicate ?K 0) (replicate ?K 0) features est t ?K =
      ((replicate ?K (replicate d 0))[0 := copy_row d features (replicate d 0)], (replicate ?K 0)[0 := est], (replicate ?K 0)[0 := t], [0])"
    by (simp add: OkNNr_learn2_def)
  have "load_best_two_costs p (replicate ?K (replicate d 0)) (replicate ?K 0) (replicate ?K 0) d s = Inr (None, s)"
    using assms(1-3,5) by (simp add: load_best_two_costs_def)
  with assms(4,6) learn obtain b where
    "update_best_two_costs HeapTupleMayBeUpdated p d 1 ((replicate ?K (replicate d 0))[0 := copy_row d features (replicate d 0)])
       ((replicate ?K 0)[0 := est]) ((replicate ?K 0)[0 := t]) s = Inr (b, s')"
    by (auto simp: update_two_best_costs_record_def Let_def bind_result_Inr lines_after_def)
  then show ?thesis
  proof (cases rule: update_best_two_costs_cases)
    case none
    with assms(5) show ?thesis by simp
  next
    case discarded
    then show ?thesis by simp
  next
    case (stored m ve vt new)
    let ?M = "(replicate ?K (replicate d 0))[0 := copy_row d features (replicate d 0)]"
    have "shaped ?K d ?M" by (intro shaped_update) simp_all
    moreover have "take 1 ?M = [copy_row d features (replicate d 0)]"
      by (simp add: num_two_costs_save_def numeral_eq_Suc)
    ultimately have m: "holds_matrix d [copy_row d features (replicate d 0)] m"
      using form_matrix_holds(1) [OF stored(1)] by metis
    then have dims: "ARR_DIMS m = [1, int d]" by (simp add: holds_matrix_def)
    have "deconstruct_array m = Inr (ARR_ELEMS m, d)"
      using m ArrayGetNItems_matrix [of 1 d d] by (auto simp: holds_matrix_def deconstruct_array_def bind_result_Inr ArrayGetNItems_matrix)
    then have "deform_matrix m (replicate ?K (replicate c 0)) = Inl Undefined"
      using dims assms(3) by (simp add: deform_matrix_def num_two_costs_save_def Let_def)
    with stored assms(1,2,5) show ?thesis by (simp add: load_best_two_costs_def)
  qed
qed

theorem changed_feature_count_overflows_witness:
  "\<exists>s s'. update_two_best_costs_record HeapTupleMayBeUpdated 3 1 [1 / 2] 80 5 empty_state = Inr s \<and>
     update_two_best_costs_record HeapTupleMayBeUpdated 3 2 [1 / 2, 1 / 4] 90 6 s = Inr s' \<and>
     load_best_two_costs 3 (replicate num_two_costs_save (replicate 1 0)) (replicate num_two_costs_save 0)
       (replicate num_two_costs_save 0) 1 s' = Inl Undefined"
proof -
  have cells: "replicate 66 x = x # replicate 65 x" for x :: 'a by (simp add: numeral_eq_Suc)
  note run = cells update_two_best_costs_record_def load_best_two_costs_def update_best_two_costs_def empty_state_def
    OkNNr_learn2_def row_distances_def copy_row_def lines_after_def form_matrix_def form_vector_def num_two_costs_save_def
    construct_md_array_def ArrayGetNItems_def MaxArraySize_def MaxAllocSize_def Let_def replace_tuple_def
  obtain s row where s: "update_two_best_costs_record HeapTupleMayBeUpdated 3 1 [1 / 2] 80 5 empty_state = Inr s"
    "aqo_best_two_costs_table (tables s) 3 = Some row" "c_nfeatures row = 1"
    "index_exists (tables s) ''aqo_best_two_costs_table_idx''"
    by (simp add: run)
  from s(2-4) obtain s' where s': "update_two_best_costs_record HeapTupleMayBeUpdated 3 2 [1 / 2, 1 / 4] 90 6 s = Inr s'"
    by (simp add: run numeral_2_eq_2)
  from changed_feature_count_overflows [OF s(2,3) _ _ s(4) s'] s(1) s' show ?thesis by auto
qed

end
