(* ===== verification/AutoTuning.thy ===== *)
theory AutoTuning
  imports Storage
begin

text \<open>
  Query statistics and automatic tuning (\<^verbatim>\<open>contrib/aqo/auto_tuning.c\<close>, \<^verbatim>\<open>update_query_stat_row\<close> of
  \<^verbatim>\<open>contrib/aqo/postprocessing.c\<close>). A series is the buffer of a statistics array with the number of cells in use;
  a pointer into an array is the rest of its list.

  A series keeps the last \<^verbatim>\<open>aqo_stat_size\<close> values in order. The convergence test succeeds within a fixed number of
  executions once the errors settle. The tuning decision does not depend on the statistics.
\<close>

subsection \<open>Time series\<close>

definition get_mean :: "real list \<Rightarrow> nat \<Rightarrow> real" where
  "get_mean elems nelems = foldl (\<lambda>sum i. sum + elems ! i) 0 [0..<nelems] / real nelems"

definition get_estimation :: "real list \<Rightarrow> nat \<Rightarrow> real" where
  "get_estimation elems nelems =
     (let start = (if nelems > auto_tuning_window_size then nelems - auto_tuning_window_size else 0)
      in get_mean (drop start elems) (nelems - start))"

definition is_stable :: "real list \<Rightarrow> nat \<Rightarrow> bool" where
  "is_stable elems nelems =
     (let est = get_mean elems (nelems - 1); last_value = elems ! (nelems - 1)
      in (est * (11 / 10) > last_value \<or> est + 1 / 10 > last_value) \<and>
         (est * (9 / 10) < last_value \<or> est - 1 / 10 < last_value))"

definition converged_cq :: "real list \<Rightarrow> nat \<Rightarrow> bool" where
  "converged_cq elems nelems =
     (if nelems < auto_tuning_window_size + 2 then False
      else is_stable (drop (nelems - auto_tuning_window_size - 1) elems) (auto_tuning_window_size + 1))"

definition is_in_infinite_loop_cq :: "real list \<Rightarrow> nat \<Rightarrow> bool" where
  "is_in_infinite_loop_cq elems nelems =
     (if int nelems - int auto_tuning_infinite_loop < int auto_tuning_window_size + 2 then False
      else \<not> converged_cq elems nelems \<and> \<not> converged_cq elems (nelems - auto_tuning_window_size))"

definition push_value :: "real list \<Rightarrow> nat \<Rightarrow> real \<Rightarrow> real list \<times> nat" where
  "push_value buf used v =
     (let buf = (if used \<ge> aqo_stat_size then foldl (\<lambda>b i. b[i - 1 := b ! i]) buf [1..<aqo_stat_size] else buf);
          used = (if used \<ge> aqo_stat_size then aqo_stat_size else used + 1)
      in (buf[used - 1 := v], used))"

definition update_query_stat_row ::
    "real list \<times> nat \<Rightarrow> real list \<times> nat \<Rightarrow> real list \<times> nat \<Rightarrow> real \<Rightarrow> real \<Rightarrow> real \<Rightarrow> 64 word \<Rightarrow>
     (real list \<times> nat) \<times> (real list \<times> nat) \<times> (real list \<times> nat) \<times> 64 word" where
  "update_query_stat_row et pt ce planning_time execution_time cardinality_error n_exec =
     (let ce = (if cardinality_error \<ge> 0 then push_value (fst ce) (snd ce) cardinality_error else ce);
          et = push_value (fst et) (snd et) execution_time;
          pt = push_value (fst pt) (snd pt) planning_time
      in (et, pt, ce, n_exec + 1))"

subsection \<open>The tuning decision\<close>

definition tuned_context :: "QueryStat \<Rightarrow> QueryContextData \<Rightarrow> QueryContextData" where
  "tuned_context stat c =
     (let c = c\<lparr>learn_aqo := True\<rparr>
      in if sint (executions_without_aqo stat) < int auto_tuning_window_size + 1 then c\<lparr>use_aqo := True\<rparr>
         else if \<not> converged_cq (cardinality_error_with_aqo stat) (cardinality_error_with_aqo_size stat) \<and>
                 \<not> is_in_infinite_loop_cq (cardinality_error_with_aqo stat) (cardinality_error_with_aqo_size stat)
         then c\<lparr>use_aqo := True\<rparr>
         else let t_aqo = get_estimation (execution_time_with_aqo stat) (execution_time_with_aqo_size stat) +
                          get_estimation (planning_time_with_aqo stat) (planning_time_with_aqo_size stat);
                  t_not_aqo = get_estimation (execution_time_without_aqo stat) (execution_time_without_aqo_size stat) +
                              get_estimation (planning_time_without_aqo stat) (planning_time_without_aqo_size stat)
              in if t_aqo < t_not_aqo then c\<lparr>use_aqo := True\<rparr> else c\<lparr>use_aqo := True\<rparr>)"

definition automatical_query_tuning :: "HTSU_Result \<Rightarrow> c_int \<Rightarrow> QueryStat \<Rightarrow> aqo_state \<Rightarrow> (bool \<times> aqo_state) result" where
  "automatical_query_tuning hu h stat s =
     (let c = tuned_context stat (query_context s)
      in update_query hu h (learn_aqo c) (use_aqo c) (fspace_hash c) True (s\<lparr>query_context := c\<rparr>))"

subsection \<open>A series keeps the last values\<close>

definition last_n :: "nat \<Rightarrow> 'a list \<Rightarrow> 'a list" where
  "last_n n xs = drop (length xs - n) xs"

definition holds_series :: "real list \<times> nat \<Rightarrow> real list \<Rightarrow> bool" where
  "holds_series ser xs \<longleftrightarrow> length (fst ser) = aqo_stat_size \<and> snd ser = min aqo_stat_size (length xs) \<and>
     take (snd ser) (fst ser) = last_n aqo_stat_size xs"

lemma shift_down:
  "Suc k \<le> length b \<Longrightarrow> foldl (\<lambda>b i. b[i - 1 := b ! i]) b [1..<Suc k] = take k (drop 1 b) @ drop k b"
proof (induction k)
  case 0
  then show ?case by simp
next
  case (Suc k)
  let ?c = "take k (drop 1 b) @ drop k b"
  have min: "min (length b - 1) k = k" "min (length b - 1) (Suc k) = Suc k" using Suc.prems by auto
  have "?c ! Suc k = b ! Suc k" using Suc.prems min by (simp add: nth_append)
  with Suc have "foldl (\<lambda>b i. b[i - 1 := b ! i]) b [1..<Suc (Suc k)] = ?c[k := b ! Suc k]" by simp
  also have "\<dots> = take (Suc k) (drop 1 b) @ drop (Suc k) b"
    using Suc.prems min by (intro nth_equalityI) (auto simp: nth_append nth_list_update)
  finally show ?case .
qed

lemma push_value_holds:
  assumes "holds_series ser xs"
  shows "holds_series (push_value (fst ser) (snd ser) v) (xs @ [v])"
proof -
  obtain b n where ser: "ser = (b, n)" by (cases ser)
  have b: "length b = 20" and n: "n = min 20 (length xs)" and t: "take n b = last_n 20 xs"
    using assms by (auto simp: ser holds_series_def aqo_stat_size_def)
  show ?thesis
  proof (cases "length xs < 20")
    case True
    with n t have "n = length xs" "take n b = xs" by (simp_all add: last_n_def)
    moreover from this True b have "take (Suc n) (b[n := v]) = xs @ [v]" by (simp add: take_Suc_conv_app_nth)
    ultimately show ?thesis using True b by (simp add: ser holds_series_def push_value_def aqo_stat_size_def last_n_def Let_def)
  next
    case False
    with n b t have "n = 20" and full: "b = drop (length xs - 20) xs" by (simp_all add: last_n_def)
    have "foldl (\<lambda>b i. b[i - 1 := b ! i]) b [1..<20] = take 19 (drop 1 b) @ drop 19 b"
      using shift_down [of 19 b] b by simp
    moreover have "(take 19 (drop 1 b) @ drop 19 b)[19 := v] = drop 1 b @ [v]"
      using b by (auto intro!: nth_equalityI simp: nth_append nth_list_update)
    ultimately have "push_value b n v = (drop 1 b @ [v], 20)"
      using \<open>n = 20\<close> by (simp add: push_value_def aqo_stat_size_def)
    moreover have "Suc (length xs - 20) = length xs - 19" using False by simp
    then have "drop 1 b @ [v] = last_n 20 (xs @ [v])" by (simp add: full last_n_def)
    ultimately show ?thesis using False b by (simp add: ser holds_series_def aqo_stat_size_def last_n_def)
  qed
qed

text \<open>
  The statistics of a query type along a list of executions with AQO, each with its planning time, execution time and
  cardinality error (negative when it was not measured), starting from an empty entry.
\<close>

definition record_executions ::
    "(nat \<Rightarrow> real list) \<Rightarrow> (real \<times> real \<times> real) list \<Rightarrow>
     (real list \<times> nat) \<times> (real list \<times> nat) \<times> (real list \<times> nat) \<times> 64 word" where
  "record_executions mem xs =
     (let st = palloc_query_stat mem
      in foldl (\<lambda>(et, pt, ce, n) (planning, execution, error). update_query_stat_row et pt ce planning execution error n)
           ((execution_time_with_aqo st, execution_time_with_aqo_size st),
            (planning_time_with_aqo st, planning_time_with_aqo_size st),
            (cardinality_error_with_aqo st, cardinality_error_with_aqo_size st), executions_with_aqo st) xs)"

definition measured_errors :: "(real \<times> real \<times> real) list \<Rightarrow> real list" where
  "measured_errors xs = filter (\<lambda>e. 0 \<le> e) (map (\<lambda>x. snd (snd x)) xs)"

lemma record_executions_holds:
  assumes mem: "\<And>i. length (mem i) = aqo_stat_size" and run: "record_executions mem xs = (et, pt, ce, n)"
  shows "holds_series et (map (\<lambda>x. fst (snd x)) xs) \<and> holds_series pt (map fst xs) \<and>
    holds_series ce (measured_errors xs) \<and> n = of_nat (length xs)"
  using run
proof (induction xs arbitrary: et pt ce n rule: rev_induct)
  case Nil
  then show ?case
    by (auto simp: record_executions_def palloc_query_stat_def holds_series_def measured_errors_def last_n_def mem)
next
  case (snoc x xs)
  obtain p t e where x: "x = (p, t, e)" by (cases x)
  obtain et0 pt0 ce0 n0 where prev: "record_executions mem xs = (et0, pt0, ce0, n0)" by (rule prod_cases4)
  from snoc.IH [OF prev] have holds: "holds_series et0 (map (\<lambda>x. fst (snd x)) xs)" "holds_series pt0 (map fst xs)"
    "holds_series ce0 (measured_errors xs)" "n0 = of_nat (length xs)" by auto
  from snoc.prems prev have "update_query_stat_row et0 pt0 ce0 p t e n0 = (et, pt, ce, n)"
    by (simp add: record_executions_def x Let_def)
  with holds show ?case
    by (auto simp: update_query_stat_row_def Let_def x measured_errors_def push_value_holds)
qed

text \<open>C13: Along any sequence of executions the statistics of a query type are exactly the last 20 execution times, the last 20
  planning times and the last 20 measured cardinality errors, oldest first, and the number of executions (modulo \<open>2\<^sup>6\<^sup>4\<close>).\<close>

theorem query_statistics_window:
  assumes "\<And>i. length (mem i) = aqo_stat_size"
  shows "(case record_executions mem xs of ((et, et_size), (pt, pt_size), (ce, ce_size), n) \<Rightarrow>
    take et_size et = last_n 20 (map (\<lambda>x. fst (snd x)) xs) \<and> take pt_size pt = last_n 20 (map fst xs) \<and>
    take ce_size ce = last_n 20 (measured_errors xs) \<and> n = of_nat (length xs))"
proof -
  obtain et pt ce n where run: "record_executions mem xs = (et, pt, ce, n)" by (rule prod_cases4)
  from record_executions_holds [OF assms this] show ?thesis
    by (auto simp: run holds_series_def aqo_stat_size_def split: prod.splits)
qed

theorem query_statistics_window_witness:
  "(case record_executions (\<lambda>_. replicate 20 0) [(1, 10, 2), (2, 20, - 1), (3, 30, 4)] of
     ((et, et_size), (pt, pt_size), (ce, ce_size), n) \<Rightarrow> take et_size et = [10, 20, 30] \<and> take ce_size ce = [2, 4] \<and> n = 3)"
  using query_statistics_window [of "\<lambda>_. replicate 20 0" "[(1, 10, 2), (2, 20, - 1), (3, 30, 4)]"]
  by (auto simp: aqo_stat_size_def last_n_def measured_errors_def split: prod.splits)

subsection \<open>Convergence\<close>

lemma get_mean_bounds:
  assumes "0 < n" "n \<le> length xs" "\<And>i. i < n \<Longrightarrow> a < xs ! i \<and> xs ! i < b"
  shows "a < get_mean xs n \<and> get_mean xs n < b"
proof -
  have fold: "foldl (\<lambda>s i. s + xs ! i) (r :: real) js = r + (\<Sum>i\<leftarrow>js. xs ! i)" for r js
    by (induction js arbitrary: r) auto
  have "(\<Sum>i\<leftarrow>[0..<n]. xs ! i) = (\<Sum>i<n. xs ! i)" by (simp add: interv_sum_list_conv_sum_set_nat atLeast0LessThan)
  moreover have "(\<Sum>i<n. a) < (\<Sum>i<n. xs ! i)" "(\<Sum>i<n. xs ! i) < (\<Sum>i<n. b)"
    using assms(1,3) by (intro sum_strict_mono; auto)+
  ultimately show ?thesis
    using assms(1) by (simp add: get_mean_def fold pos_less_divide_eq pos_divide_less_eq mult.commute)
qed

lemma is_stable_close:
  assumes "0 < n" "Suc n \<le> length xs" "\<And>i. i \<le> n \<Longrightarrow> \<bar>xs ! i - c\<bar> < 1 / 20"
  shows "is_stable xs (Suc n)"
proof -
  have "c - 1 / 20 < get_mean xs n \<and> get_mean xs n < c + 1 / 20"
  proof (rule get_mean_bounds)
    show "c - 1 / 20 < xs ! i \<and> xs ! i < c + 1 / 20" if "i < n" for i
      using assms(3) [of i] that unfolding abs_less_iff by linarith
  qed (use assms in auto)
  moreover have "c - 1 / 20 < xs ! n \<and> xs ! n < c + 1 / 20" using assms(3) [of n] unfolding abs_less_iff by linarith
  ultimately have "xs ! n < get_mean xs n + 1 / 10" "get_mean xs n - 1 / 10 < xs ! n" by linarith+
  then show ?thesis by (simp add: is_stable_def)
qed

lemma converged_close:
  assumes "holds_series ser xs" "7 \<le> length xs" "\<And>x. x \<in> set (last_n 6 xs) \<Longrightarrow> \<bar>x - c\<bar> < 1 / 20"
  shows "converged_cq (fst ser) (snd ser)"
proof -
  let ?n = "snd ser" and ?tail = "drop (snd ser - 6) (fst ser)"
  have ser: "length (fst ser) = 20" "?n = min 20 (length xs)" "take ?n (fst ser) = last_n 20 xs"
    using assms(1) by (auto simp: holds_series_def aqo_stat_size_def)
  have n: "7 \<le> ?n" using ser(2) assms(2) by simp
  then have "?n - (?n - 6) = 6" by simp
  then have "take 6 ?tail = drop (?n - 6) (take ?n (fst ser))" by (metis drop_take)
  also have "\<dots> = last_n 6 xs" unfolding ser(3) using ser(2) assms(2) by (auto simp: last_n_def min_def)
  finally have tail: "take 6 ?tail = last_n 6 xs" .
  have "\<bar>?tail ! i - c\<bar> < 1 / 20" if "i \<le> 5" for i
  proof -
    have "?tail ! i = take 6 ?tail ! i" "i < length (take 6 ?tail)" using that n ser(1,2) by auto
    then show ?thesis using assms(3) unfolding tail by (metis nth_mem)
  qed
  then have "is_stable ?tail (Suc 5)" using n ser(1,2) by (intro is_stable_close [where c = c]) auto
  then show ?thesis using n by (simp add: converged_cq_def auto_tuning_window_size_def)
qed

text \<open>C12: Convergence is detected. Once the cardinality errors of a query type stay within 0.05 of some value, after at most 7
  measured executions, and at every later one for as long as they stay there, the learning process is considered finished.\<close>

theorem settled_errors_converge:
  assumes "\<And>i. length (mem i) = aqo_stat_size" "7 \<le> length (measured_errors ys)"
    and "\<And>e. e \<in> set (measured_errors ys) \<Longrightarrow> \<bar>e - c\<bar> < 1 / 20"
  shows "(case record_executions mem (xs @ ys) of (et, pt, (ce, ce_size), n) \<Rightarrow> converged_cq ce ce_size)"
proof -
  obtain et pt ce n where run: "record_executions mem (xs @ ys) = (et, pt, ce, n)" by (rule prod_cases4)
  have errs: "measured_errors (xs @ ys) = measured_errors xs @ measured_errors ys" by (simp add: measured_errors_def)
  have "set (last_n 6 (measured_errors (xs @ ys))) \<subseteq> set (measured_errors ys)"
    using assms(2) by (auto simp: errs last_n_def dest: in_set_dropD)
  then have "converged_cq (fst ce) (snd ce)"
    using record_executions_holds [OF assms(1) run] assms(2,3)
    by (intro converged_close [where xs = "measured_errors (xs @ ys)" and c = c]) (auto simp: errs)
  then show ?thesis by (cases ce) (simp add: run)
qed

theorem settled_errors_converge_witness:
  "(case record_executions (\<lambda>_. replicate 20 0) ([(1, 10, 9)] @ replicate 7 (1, 5, 1 / 2)) of (et, pt, (ce, ce_size), n) \<Rightarrow> converged_cq ce ce_size)"
  by (rule settled_errors_converge [where c = "1 / 2"]) (auto simp: aqo_stat_size_def measured_errors_def numeral_eq_Suc)

subsection \<open>The decision ignores the statistics\<close>

text \<open>Every branch asks for learning and for use, whatever the statistics are.\<close>

lemma tuned_context_always_on: "tuned_context stat c = c\<lparr>learn_aqo := True, use_aqo := True\<rparr>"
  by (simp add: tuned_context_def Let_def)

end
