(* ===== verification/HashEval.thy ===== *)
theory HashEval
  imports AqoHash
begin

text \<open>
  Hashes of concrete texts. The hash of a twelve-byte text on a little-endian machine is rewritten into arithmetic on
  integers, which the simplifier evaluates: the two scrambling macros become folds over their rotation counts, and every
  word is kept as an integer below \<open>2\<^sup>3\<^sup>2\<close>.
\<close>

unbundle bit_operations_syntax

definition w32 :: "int \<Rightarrow> uint32" where "w32 x = word_of_int x"

lemma w32_mod: "w32 (x mod 4294967296) = w32 x"
  unfolding w32_def by (simp add: word_of_int_eq_iff take_bit_eq_mod)

lemma w32_arith:
  "w32 x + w32 y = w32 ((x + y) mod 4294967296)" "w32 x - w32 y = w32 ((x - y) mod 4294967296)"
  unfolding w32_mod by (simp_all add: w32_def wi_hom_syms)

lemma w32_xor: "w32 x XOR w32 y = w32 (x XOR y)"
  by (rule bit_word_eqI) (simp add: w32_def bit_simps)

lemma w32_rot:
  assumes "0 \<le> x" "x < 4294967296"
  shows "rot (w32 x) k = w32 ((x * 2 ^ k) mod 4294967296 OR x div 2 ^ (32 - k))"
proof (rule bit_word_eqI, goal_cases)
  case (1 n)
  have "take_bit 32 x = x" using assms by (simp add: take_bit_int_eq_self)
  then have "\<not> bit x j" if "32 \<le> j" for j using that by (metis bit_take_bit_iff not_less)
  moreover have "(x * 2 ^ k) mod 4294967296 = take_bit 32 (push_bit k x)" by (simp add: take_bit_eq_mod push_bit_eq_mult)
  ultimately show ?case using 1
    by (auto simp: rot_def w32_def bit_simps simp flip: drop_bit_eq_div)
qed

subsection \<open>Texts without markers\<close>

text \<open>A text in which a character of the start pattern does not occur passes a removal unchanged.\<close>

lemma replace_loop_plain: "c \<in> set pat \<Longrightarrow> c \<notin> set (seen @ rest) \<Longrightarrow> replace_loop pat stop seen rest = rest"
proof (induction rest arbitrary: seen)
  case Nil
  then show ?case by (simp add: replace_loop.simps)
next
  case (Cons ch rest)
  have "take (length pat) seen \<noteq> rev pat" using Cons.prems by (metis Un_iff in_set_takeD set_append set_rev)
  with Cons show ?case by (subst replace_loop.simps) simp
qed

lemma get_query_hash_plain:
  assumes "CHR '':'' \<notin> set str" "CHR ''{'' \<notin> set str"
  shows "get_query_hash be (\<lambda>_. str) q = hash_any be True (map of_char str)"
proof -
  have "remove_consts str = str"
    unfolding remove_consts_def replace_patterns_def using assms(2) by (intro replace_loop_plain [where c = "CHR ''{''"]) simp_all
  moreover have "remove_locations str = str" "remove_varno str = str" "remove_varnoold str = str" "remove_stmt_len str = str"
    unfolding remove_locations_def remove_varno_def remove_varnoold_def remove_stmt_len_def replace_patterns_def
    using assms(1) by (intro replace_loop_plain [where c = "CHR '':''"]; simp)+
  ultimately show ?thesis by (simp add: get_query_hash_def)
qed

subsection \<open>Texts of twelve bytes\<close>

lemma shl_w32: "i < length k \<Longrightarrow> n \<le> 24 \<Longrightarrow> shl k i n = w32 (uint (k ! i) * 2 ^ n)"
  by (rule bit_word_eqI) (auto simp: shl_def w32_def bit_simps simp flip: push_bit_eq_mult)

definition word_at :: "byte list \<Rightarrow> nat \<Rightarrow> int" where
  "word_at k i =
     uint (k ! (4 * i)) + uint (k ! (4 * i + 1)) * 256 + uint (k ! (4 * i + 2)) * 65536 + uint (k ! (4 * i + 3)) * 16777216"

lemma fetch32_w32: "4 * i + 3 < length k \<Longrightarrow> fetch32 False k i = w32 (word_at k i)"
  by (simp add: fetch32_bytes bytes_add_def shl_w32 w32_arith w32_mod word_at_def)

lemma hash_any_twelve:
  assumes "length k = 12"
  shows "hash_any False True k =
    snd (snd (final (mix (w32 2658358876 + w32 (word_at k 0), w32 2658358876 + w32 (word_at k 1), w32 2658358876 + w32 (word_at k 2)))))"
proof -
  have "hash_init 12 = (w32 2658358876, w32 2658358876, w32 2658358876)" by (simp add: hash_init_def w32_def)
  moreover have "aligned_loop False s [] = (s, [])" for s by (cases s) (simp add: aligned_loop.simps)
  moreover have "aligned_tail False s [] = s" for s by (cases s) (simp add: aligned_tail_def)
  ultimately show ?thesis using assms
    by (simp add: hash_any_def aligned_loop.simps [of False "w32 2658358876"] fetch32_w32 split: prod.splits)
qed

fun mix_turn :: "nat \<Rightarrow> hash_state \<Rightarrow> hash_state" where
  "mix_turn k (a, b, c) = (b, c + b, (a - c) XOR rot c k)"

fun final_turn :: "nat \<Rightarrow> hash_state \<Rightarrow> hash_state" where
  "final_turn k (a, b, c) = (b, (c XOR b) - rot b k, a)"

lemma mix_turns: "mix s = fold mix_turn [4, 6, 8, 16, 19, 4] s"
  by (cases s) (simp add: mix_def mix_line_def Let_def)

lemma final_turns: "snd (snd (final s)) = fst (snd (fold final_turn [14, 11, 25, 16, 4, 14, 24] s))"
  by (cases s) (simp add: final_def Let_def)

lemmas w32_hash = get_query_hash_plain hash_any_twelve word_at_def mix_turns final_turns w32_arith w32_xor w32_rot

end
