(* ===== verification/Preprocessing.thy ===== *)
theory Preprocessing
  imports BestCosts AutoTuning HashEval
begin

text \<open>
  The planner hook (\<^verbatim>\<open>contrib/aqo/preprocessing.c\<close>): it decides how the extension treats the query, keeps the history
  of query templates and predicts the best cost of the query, then hands over to the standard planner. The result
  of the hook's model is the state in which the standard planner is called.

  What the backend tells the hook (mode, parallelism, recovery, clock, catalog membership, \<^verbatim>\<open>nodeToString\<close>,
  the bytes of a \<^verbatim>\<open>double\<close>, the status of \<^verbatim>\<open>heap_update\<close>) is collected in a record. A query is its command
  type, its range table and the queries nested in it, in the order in which the tree walkers visit them.
\<close>

datatype CmdType = CMD_UNKNOWN | CMD_SELECT | CMD_UPDATE | CMD_INSERT | CMD_DELETE | CMD_UTILITY | CMD_NOTHING

datatype rte = RTE_RELATION oid | RTE_OTHER

datatype pg_query = Query (commandType: CmdType) (rtable: "rte list") (nested: "pg_query list")

record backend =
  aqo_mode :: AQO_MODE
  IsInParallelMode :: bool
  IsParallelWorker :: bool
  RecoveryInProgress :: bool
  current_time :: real
  IsCatalogRelation :: "oid \<Rightarrow> bool"
  nodeToString :: "pg_query \<Rightarrow> string"
  double_bytes :: "real \<Rightarrow> 8 word list"
  big_endian :: bool
  heap_update_status :: HTSU_Result

fun rte_is_catalog :: "(oid \<Rightarrow> bool) \<Rightarrow> rte \<Rightarrow> bool" where
  "rte_is_catalog is_catalog (RTE_RELATION r) = is_catalog r"
| "rte_is_catalog is_catalog RTE_OTHER = False"

fun isQueryUsingSystemRelation :: "(oid \<Rightarrow> bool) \<Rightarrow> pg_query \<Rightarrow> bool" where
  "isQueryUsingSystemRelation is_catalog (Query cmd rt subs) =
     (list_ex (rte_is_catalog is_catalog) rt \<or> list_ex (isQueryUsingSystemRelation is_catalog) subs)"

definition CREATE_EXTENSION_STARTSTRING_0 :: string where
  "CREATE_EXTENSION_STARTSTRING_0 = ''-- complain if script is sourced in psql, rather than via CREATE EXTENSION''"

definition CREATE_EXTENSION_STARTSTRING_1 :: string where
  "CREATE_EXTENSION_STARTSTRING_1 =
     ''SELECT 1 FROM ONLY \"public\".\"aqo_queries\" x WHERE \"query_hash\" OPERATOR(pg_catalog.=) $1 FOR KEY SHARE OF x''"

definition starts_with :: "string \<Rightarrow> string \<Rightarrow> bool" where
  "starts_with str prefix \<longleftrightarrow> take (length prefix) str = prefix"

definition get_int_array_hash2 :: "bool \<Rightarrow> (real \<Rightarrow> 8 word list) \<Rightarrow> real list \<Rightarrow> c_int" where
  "get_int_array_hash2 be bytes arr = hash_any be True (concat (map bytes arr))"

definition query_template :: "c_int \<Rightarrow> c_int" where
  "query_template h =
     (if sint h = 1370653224 then 1 else if sint h = 164935887 then 2 else if sint h = - 1029517898 then 3
      else if sint h = 1392879147 then 4 else if sint h = - 63216440 then 5 else if sint h = 933944866 then 6
      else if sint h = 1409061130 then 7 else 0)"

definition aqo_ignores :: "backend \<Rightarrow> pg_query \<Rightarrow> string \<Rightarrow> bool" where
  "aqo_ignores env parse query_text \<longleftrightarrow>
     commandType parse \<noteq> CMD_SELECT \<and> commandType parse \<noteq> CMD_INSERT \<and>
       commandType parse \<noteq> CMD_UPDATE \<and> commandType parse \<noteq> CMD_DELETE \<or>
     starts_with query_text CREATE_EXTENSION_STARTSTRING_0 \<or>
     starts_with query_text CREATE_EXTENSION_STARTSTRING_1 \<or>
     IsInParallelMode env \<or> IsParallelWorker env \<or> aqo_mode env = AQO_MODE_DISABLED \<or>
     isQueryUsingSystemRelation (IsCatalogRelation env) parse"

fun new_query_settings :: "AQO_MODE \<Rightarrow> QueryContextData \<Rightarrow> QueryContextData" where
  "new_query_settings AQO_MODE_INTELLIGENT c =
     c\<lparr>adding_query := True, learn_aqo := True, use_aqo := False, fspace_hash := query_hash c, auto_tuning := True,
        collect_stat := True\<rparr>"
| "new_query_settings AQO_MODE_FORCED c =
     c\<lparr>adding_query := False, learn_aqo := True, use_aqo := True, auto_tuning := False, fspace_hash := 0,
        collect_stat := False\<rparr>"
| "new_query_settings AQO_MODE_CONTROLLED c =
     c\<lparr>adding_query := False, learn_aqo := False, use_aqo := False, collect_stat := False\<rparr>"
| "new_query_settings AQO_MODE_LEARN c =
     c\<lparr>adding_query := True, learn_aqo := True, use_aqo := True, fspace_hash := query_hash c, auto_tuning := True,
        collect_stat := True\<rparr>"
| "new_query_settings AQO_MODE_DISABLED c = c"

definition plan_new_query :: "backend \<Rightarrow> string \<Rightarrow> aqo_state \<Rightarrow> aqo_state result" where
  "plan_new_query env query_text s =
     (let c = new_query_settings (aqo_mode env) (query_context s)
      in if RecoveryInProgress env \<and> aqo_mode env \<noteq> AQO_MODE_FORCED then Inr (disabled (s\<lparr>query_context := c\<rparr>))
         else let c = (if RecoveryInProgress env
                       then c\<lparr>adding_query := False, learn_aqo := False, auto_tuning := False, collect_stat := False\<rparr> else c);
                  s = s\<lparr>query_context := c\<rparr>
              in bind_result
                   (if adding_query c
                    then let query_history = (replicate num_history_data_compute_probability_fs 0)
                               [0 := real_of_int (sint (current_query_hash c))]
                         in bind_result (add_query (query_hash c) (learn_aqo c) (use_aqo c) (fspace_hash c) (auto_tuning c)
                                           query_history 1 1 (replicate 2 0) 0 s)
                              (\<lambda>(b, s). bind_result (add_query_text (query_hash c) query_text s) (\<lambda>(b, s). Inr s))
                    else Inr s)
                   (\<lambda>s. Inr (s\<lparr>query_context := (query_context s)\<lparr>explain_aqo := use_aqo (query_context s)\<rparr>\<rparr>)))"

definition push_history :: "real list \<Rightarrow> int \<Rightarrow> real \<Rightarrow> (real list \<times> int) result" where
  "push_history query_history n h =
     (if n < int num_history_data_compute_probability_fs
      then if n < 0 then Inl Undefined else Inr (query_history[nat n := h], n + 1)
      else if n > int (length query_history) then Inl Undefined
      else Inr ((foldl (\<lambda>q j. q[j - 1 := q ! j]) query_history [1..<nat n])[nat n - 1 := h], n))"

definition plan_stored_query :: "backend \<Rightarrow> query_row \<Rightarrow> aqo_state \<Rightarrow> aqo_state result" where
  "plan_stored_query env row s =
     (let c = (query_context s)\<lparr>adding_query := False, learn_aqo := q_learn_aqo row, use_aqo := q_use_aqo row,
                fspace_hash := q_fspace_hash row, auto_tuning := q_auto_tuning row, collect_stat := q_auto_tuning row\<rparr>;
          s = s\<lparr>query_context := c\<rparr>
      in bind_result (deform_vector (q_history_query row) (replicate num_history_data_compute_probability_fs 0)) (\<lambda>(query_history, _).
         bind_result (deform_vector (q_current_query row) (replicate 2 0)) (\<lambda>(current_query, _).
         bind_result (push_history query_history (sint (q_num_history row)) (real_of_int (sint (current_query_hash c)))) (\<lambda>(query_history, n).
         bind_result (update_query2 (heap_update_status env) (query_hash c) (learn_aqo c) (use_aqo c) (fspace_hash c) (auto_tuning c)
                        query_history (word_of_int n) (q_total_num row + 1) s) (\<lambda>(_, s).
         bind_result (load_query_distribution n (get_int_array_hash2 (big_endian env) (double_bytes env) query_history) s) (\<lambda>(_, s).
           let num_feature = sint (q_num_feature row)
           in if num_feature < 0 then Inl (Elog ''invalid memory alloc request size'')
              else bind_result (calculate_current_best_estimate_cost (current_query_hash (query_context s)) (nat num_feature) current_query s) (\<lambda>s.
                if length current_query < nat num_feature then Inl Undefined
                else let c = (query_context s)\<lparr>nfeatures := nat num_feature,
                               current_query_features := take (nat num_feature) current_query\<rparr>;
                         c = (if RecoveryInProgress env
                              then c\<lparr>learn_aqo := False, auto_tuning := False, collect_stat := False\<rparr> else c)
                     in Inr (s\<lparr>query_context := c\<lparr>explain_aqo := use_aqo c\<rparr>\<rparr>))))))))"

definition aqo_planner :: "backend \<Rightarrow> pg_query \<Rightarrow> string \<Rightarrow> aqo_state \<Rightarrow> aqo_state result" where
  "aqo_planner env parse query_text s =
     (let s = s\<lparr>objects := selectivity_cache_clear, query_context := (query_context s)\<lparr>explain_aqo := False\<rparr>\<rparr>
      in if aqo_ignores env parse query_text then Inr (disabled s)
         else let c = (query_context s)\<lparr>query_starttime := current_time env, nfeatures := 0,
                        current_query_hash := query_template (get_query_hash (big_endian env) (nodeToString env) parse)\<rparr>;
                  s = s\<lparr>query_context := c\<rparr>
              in if current_query_hash c = 0 then Inr (disabled s)
                 else let (found, s) = find_query 1 (s\<lparr>query_context := c\<lparr>query_hash := 1\<rparr>\<rparr>)
                      in case found of None \<Rightarrow> plan_new_query env query_text s | Some row \<Rightarrow> plan_stored_query env row s)"

subsection \<open>What the steps of the hook leave alone\<close>

lemma load_best_two_costs_frame:
  "load_best_two_costs p M e t n s = Inr (r, s') \<Longrightarrow> tables s' = tables s \<and> best_pred_cost (query_context s') = best_pred_cost (query_context s)"
  by (auto simp: load_best_two_costs_def disabled_def disable_aqo_for_query_def bind_result_Inr split: if_splits option.splits)

lemma calculate_frame:
  assumes "calculate_current_best_estimate_cost p n x s = Inr s'"
  shows "tables s' = tables s \<and> 0 \<le> best_pred_cost (query_context s')"
proof -
  from assms obtain r s1 where "load_best_two_costs p (replicate num_two_costs_save (replicate n 0)) (replicate num_two_costs_save 0)
      (replicate num_two_costs_save 0) n s = Inr (r, s1)"
    by (auto simp: calculate_current_best_estimate_cost_def Let_def bind_result_Inr)
  with load_best_two_costs_frame [OF this] assms show ?thesis
    by (auto simp: calculate_current_best_estimate_cost_def Let_def OkNNr_predict2_nonneg split: option.splits if_splits prod.splits)
qed

lemma load_query_distribution_frame:
  "load_query_distribution n h s = Inr (b, s') \<Longrightarrow> tables s' = tables s \<and> best_pred_cost (query_context s') = best_pred_cost (query_context s)"
  by (auto simp: load_query_distribution_def Let_def disabled_def disable_aqo_for_query_def bind_result_Inr split: if_splits option.splits)

lemma add_query_frame:
  "add_query h l u f a qh nh tn cq nf s = Inr (b, s') \<Longrightarrow> best_pred_cost (query_context s') = best_pred_cost (query_context s)"
  by (auto simp: add_query_def disabled_def disable_aqo_for_query_def bind_result_Inr split: if_splits)

lemma add_query_text_frame:
  "add_query_text h txt s = Inr (b, s') \<Longrightarrow>
   best_pred_cost (query_context s') = best_pred_cost (query_context s) \<and> aqo_queries (tables s') = aqo_queries (tables s) \<and>
   index_exists (tables s') = index_exists (tables s)"
  by (auto simp: add_query_text_def disabled_def disable_aqo_for_query_def split: if_splits)

lemma new_query_settings_frame [simp]:
  "best_pred_cost (new_query_settings m c) = best_pred_cost c" "query_hash (new_query_settings m c) = query_hash c"
  "current_query_hash (new_query_settings m c) = current_query_hash c"
  by (cases m; simp)+

lemma disabled_best_pred [simp]: "best_pred_cost (query_context (disabled s)) = best_pred_cost (query_context s)"
  by (simp add: disabled_def disable_aqo_for_query_def)

lemma disabled_flags [simp]:
  "\<not> learn_aqo (query_context (disabled s))" "\<not> use_aqo (query_context (disabled s))"
  "\<not> auto_tuning (query_context (disabled s))" "\<not> collect_stat (query_context (disabled s))"
  "\<not> adding_query (query_context (disabled s))" "objects (disabled s) = objects s"
  by (simp_all add: disabled_def)

lemma plan_new_query_best_pred:
  "plan_new_query env txt s = Inr s' \<Longrightarrow> best_pred_cost (query_context s') = best_pred_cost (query_context s)"
  by (auto simp: plan_new_query_def Let_def bind_result_Inr split: if_splits dest!: add_query_frame add_query_text_frame)

lemma bind_result_pairE:
  assumes "bind_result m (\<lambda>(a, b). f a b) = Inr y"
  obtains a b where "m = Inr (a, b)" "f a b = Inr y"
  using assms by (auto simp: bind_result_Inr)

text \<open>The chain of calls for a query type that is stored.\<close>

lemma plan_stored_query_run:
  assumes "plan_stored_query env row s = Inr s'"
  obtains qh k cq m qh' n b2 s2 b3 s3 s4 where
    "deform_vector (q_history_query row) (replicate num_history_data_compute_probability_fs 0) = Inr (qh, k)"
    "deform_vector (q_current_query row) (replicate 2 0) = Inr (cq, m)"
    "push_history qh (sint (q_num_history row)) (real_of_int (sint (current_query_hash (query_context s)))) = Inr (qh', n)"
    "update_query2 (heap_update_status env) (query_hash (query_context s)) (q_learn_aqo row) (q_use_aqo row) (q_fspace_hash row)
       (q_auto_tuning row) qh' (word_of_int n) (q_total_num row + 1)
       (s\<lparr>query_context := (query_context s)\<lparr>adding_query := False, learn_aqo := q_learn_aqo row, use_aqo := q_use_aqo row,
          fspace_hash := q_fspace_hash row, auto_tuning := q_auto_tuning row, collect_stat := q_auto_tuning row\<rparr>\<rparr>) = Inr (b2, s2)"
    "load_query_distribution n (get_int_array_hash2 (big_endian env) (double_bytes env) qh') s2 = Inr (b3, s3)"
    "calculate_current_best_estimate_cost (current_query_hash (query_context s3)) (nat (sint (q_num_feature row))) cq s3 = Inr s4"
    "tables s' = tables s4" "best_pred_cost (query_context s') = best_pred_cost (query_context s4)"
    "RecoveryInProgress env \<Longrightarrow> \<not> learn_aqo (query_context s') \<and> \<not> auto_tuning (query_context s') \<and> \<not> collect_stat (query_context s')"
  using assms unfolding plan_stored_query_def Let_def
proof (elim bind_result_pairE, goal_cases)
  case (1 qh k cq m qh' n b2 s2 b3 s3)
  from 1(7) obtain s4 where calc: "calculate_current_best_estimate_cost (current_query_hash (query_context s3))
      (nat (sint (q_num_feature row))) cq s3 = Inr s4"
    and final: "tables s' = tables s4" "best_pred_cost (query_context s') = best_pred_cost (query_context s4)"
      "RecoveryInProgress env \<longrightarrow> \<not> learn_aqo (query_context s') \<and> \<not> auto_tuning (query_context s') \<and> \<not> collect_stat (query_context s')"
    by (auto simp: bind_result_Inr split: if_splits)
  from 1(2-6) show ?case
    by (intro 1(1) [OF _ _ _ _ _ calc final(1,2)]) (use final(3) in simp_all)
qed

lemma plan_stored_query_best_pred:
  assumes "plan_stored_query env row s = Inr s'"
  shows "0 \<le> best_pred_cost (query_context s')"
  using assms by (rule plan_stored_query_run) (auto dest: calculate_frame)

lemma find_query_frame:
  "find_query h s = (r, s') \<Longrightarrow> tables s' = tables s \<and> best_pred_cost (query_context s') = best_pred_cost (query_context s)"
  by (auto simp: find_query_def split: if_splits)

lemma aqo_planner_best_pred:
  assumes "aqo_planner env q txt s = Inr s'" "0 \<le> best_pred_cost (query_context s)"
  shows "0 \<le> best_pred_cost (query_context s')"
  using assms
  by (auto simp: aqo_planner_def Let_def split: if_splits prod.splits option.splits
      dest!: plan_new_query_best_pred plan_stored_query_best_pred find_query_frame)

subsection \<open>The history of templates\<close>

text \<open>The template of a query, 0 when the hook ignores it, and the backends that learn: the mode adds new query types,
  the server is not in recovery and no other session has updated the tuple.\<close>

definition template_of :: "backend \<Rightarrow> pg_query \<Rightarrow> string \<Rightarrow> c_int" where
  "template_of env parse qtext =
     (if aqo_ignores env parse qtext then 0 else query_template (get_query_hash (big_endian env) (nodeToString env) parse))"

definition learning :: "backend \<Rightarrow> bool" where
  "learning env \<longleftrightarrow> (aqo_mode env = AQO_MODE_INTELLIGENT \<or> aqo_mode env = AQO_MODE_LEARN) \<and> \<not> RecoveryInProgress env \<and>
     heap_update_status env = HeapTupleMayBeUpdated"

definition history_array :: "c_int list \<Rightarrow> real list" where
  "history_array ts =
     (let l = map (\<lambda>t. real_of_int (sint t)) (last_n 3 ts) in l @ replicate (3 - length l) 0)"

definition history_ok :: "c_int list \<Rightarrow> aqo_state \<Rightarrow> bool" where
  "history_ok ts s \<longleftrightarrow>
     (case aqo_queries (tables s) 1 of
        None \<Rightarrow> ts = [] \<and> aqo_query_texts (tables s) 1 = None
      | Some row \<Rightarrow> ts \<noteq> [] \<and> holds_vector (history_array ts) (q_history_query row) \<and>
          q_num_history row = of_nat (min 3 (length ts)) \<and> q_total_num row = of_nat (length ts) \<and>
          holds_vector [0, 0] (q_current_query row) \<and> q_num_feature row = 0)"

definition service_ok :: "aqo_state \<Rightarrow> bool" where
  "service_ok s \<longleftrightarrow> index_exists (tables s) ''aqo_queries_query_hash_idx'' \<and> costs_ok (\<lambda>_. 0) s \<and>
     (\<forall>h arr. aqo_markov_table (tables s) h = Some arr \<longrightarrow> (\<exists>v. holds_vector v arr \<and> length v \<le> num_query_pattern))"

text \<open>The states between queries: after some calls of the hook, and of everything else that leaves the two relations
  of query types alone and the service relations well-formed. The list holds the templates planned so far.\<close>

inductive planned :: "c_int list \<Rightarrow> aqo_state \<Rightarrow> bool" where
  start: "aqo_queries (tables s) 1 = None \<Longrightarrow> aqo_query_texts (tables s) 1 = None \<Longrightarrow> service_ok s \<Longrightarrow> planned [] s"
| query: "planned ts s \<Longrightarrow> learning env \<Longrightarrow> aqo_planner env parse qtext s = Inr s' \<Longrightarrow>
    planned (ts @ filter (\<lambda>t. t \<noteq> 0) [template_of env parse qtext]) s'"
| other: "planned ts s \<Longrightarrow> aqo_queries (tables s') = aqo_queries (tables s) \<Longrightarrow>
    aqo_query_texts (tables s') = aqo_query_texts (tables s) \<Longrightarrow> service_ok s' \<Longrightarrow> planned ts s'"

lemma form_vector_short:
  assumes "length v = n" "n \<le> 1000"
  shows "form_vector v n = Inr \<lparr>ARR_DIMS = [int n], ARR_ELEMS = v\<rparr>"
proof -
  have "ArrayGetNItems [int n] = Inr n" using assms(2) by (simp add: ArrayGetNItems_vector MaxArraySize_def)
  moreover have "map (\<lambda>i. v ! i) [0..<n] = v" using assms(1) by (metis map_nth)
  ultimately show ?thesis using assms
    by (simp add: form_vector_def construct_md_array_def MaxAllocSize_def)
qed

lemma length_history_array [simp]: "length (history_array ts) = 3"
  by (simp add: history_array_def Let_def last_n_def)

lemma history_array_short: "length ts \<le> 3 \<Longrightarrow> history_array ts = map (\<lambda>t. real_of_int (sint t)) ts @ replicate (3 - length ts) 0"
  by (simp add: history_array_def last_n_def)

lemma history_array_long: "history_array (us @ [a, b, c]) = map (\<lambda>t. real_of_int (sint t)) [a, b, c]"
  by (simp add: history_array_def last_n_def)

lemma push_history_array:
  "push_history (history_array ts) (int (min 3 (length ts))) (real_of_int (sint t)) =
     Inr (history_array (ts @ [t]), int (min 3 (length (ts @ [t]))))"
proof (cases "length ts < 3")
  case True
  then have "(map (\<lambda>t. real_of_int (sint t)) ts @ replicate (3 - length ts) 0)[length ts := real_of_int (sint t)] =
      map (\<lambda>t. real_of_int (sint t)) (ts @ [t]) @ replicate (2 - length ts) 0"
    by (auto simp: list_update_append numeral_3_eq_3 numeral_2_eq_2 Suc_diff_le less_Suc_eq)
  with True show ?thesis
    by (simp add: push_history_def num_history_data_compute_probability_fs_def history_array_short)
next
  case False
  then have "length (drop (length ts - 3) ts) = 3" by simp
  moreover have "\<exists>a b c. l = [a, b, c]" if "length l = 3" for l :: "c_int list"
    using that by (auto simp: length_Suc_conv numeral_3_eq_3)
  ultimately obtain a b c where "drop (length ts - 3) ts = [a, b, c]" by blast
  then obtain us where ts: "ts = us @ [a, b, c]" by (metis append_take_drop_id)
  have "history_array (ts @ [t]) = map (\<lambda>t. real_of_int (sint t)) [b, c, t]"
    using history_array_long [of "us @ [a]" b c t] by (simp add: ts)
  then show ?thesis
    by (simp add: push_history_def num_history_data_compute_probability_fs_def ts history_array_long upt_rec numeral_eq_Suc)
qed

lemma service_ok_frame:
  assumes "service_ok s" "index_exists (tables s') = index_exists (tables s)"
    "aqo_best_two_costs_table (tables s') = aqo_best_two_costs_table (tables s)" "aqo_markov_table (tables s') = aqo_markov_table (tables s)"
  shows "service_ok s'"
  using assms by (simp add: service_ok_def costs_ok_def)

lemma plan_new_query_history:
  assumes "learning env" "query_hash (query_context s) = 1" "history_ok [] s" "service_ok s"
  shows "\<exists>s'. plan_new_query env txt s = Inr s' \<and> history_ok [current_query_hash (query_context s)] s' \<and> service_ok s'"
proof -
  let ?t = "real_of_int (sint (current_query_hash (query_context s)))"
  have none: "aqo_queries (tables s) 1 = None" "aqo_query_texts (tables s) 1 = None"
    using assms(3) by (auto simp: history_ok_def split: option.splits)
  have arr: "form_vector [?t, 0, 0] 3 = Inr \<lparr>ARR_DIMS = [3], ARR_ELEMS = [?t, 0, 0]\<rparr>"
    "form_vector [0, 0] 2 = Inr \<lparr>ARR_DIMS = [2], ARR_ELEMS = [0, 0]\<rparr>"
    using form_vector_short [of "[?t, 0, 0]" 3] form_vector_short [of "[0, 0]" 2] by simp_all
  have rep: "replicate 3 0 = [0, 0, 0 :: real]" "replicate 2 0 = [0, 0 :: real]"
    "num_history_data_compute_probability_fs = 3"
    by (simp_all add: num_history_data_compute_probability_fs_def numeral_3_eq_3 numeral_2_eq_2)
  have modes: "adding_query (new_query_settings (aqo_mode env) (query_context s))" "\<not> RecoveryInProgress env"
    using assms(1) by (auto simp: learning_def)
  have idx: "index_exists (tables s) ''aqo_queries_query_hash_idx''" using assms(4) by (simp add: service_ok_def)
  define tab where "tab = (tables s)\<lparr>aqo_queries := (aqo_queries (tables s))(1 \<mapsto>
      \<lparr>q_learn_aqo = learn_aqo (new_query_settings (aqo_mode env) (query_context s)),
       q_use_aqo = use_aqo (new_query_settings (aqo_mode env) (query_context s)),
       q_fspace_hash = fspace_hash (new_query_settings (aqo_mode env) (query_context s)),
       q_auto_tuning = auto_tuning (new_query_settings (aqo_mode env) (query_context s)),
       q_history_query = \<lparr>ARR_DIMS = [3], ARR_ELEMS = [?t, 0, 0]\<rparr>, q_num_history = 1, q_total_num = 1,
       q_current_query = \<lparr>ARR_DIMS = [2], ARR_ELEMS = [0, 0]\<rparr>, q_num_feature = 0\<rparr>)\<rparr>"
  have "\<exists>s'. plan_new_query env txt s = Inr s' \<and> (tables s' = tab \<or> (\<exists>txts. tables s' = tab\<lparr>aqo_query_texts := txts\<rparr>))"
    using modes idx none assms(2) arr
    by (auto simp: plan_new_query_def Let_def rep add_query_def add_query_text_def tab_def disabled_def)
  then obtain s' where s': "plan_new_query env txt s = Inr s'" "tables s' = tab \<or> (\<exists>txts. tables s' = tab\<lparr>aqo_query_texts := txts\<rparr>)"
    by blast
  from s'(2) have "history_ok [current_query_hash (query_context s)] s'"
    by (auto simp: history_ok_def tab_def holds_vector_def history_array_short MaxArraySize_def numeral_2_eq_2)
  moreover from s'(2) have "service_ok s'" by (intro service_ok_frame [OF assms(4)]) (auto simp: tab_def)
  ultimately show ?thesis using s'(1) by blast
qed

lemma small_count: "n \<le> 3 \<Longrightarrow> sint (of_nat n :: c_int) = int n"
  using int32_fits [of n] by simp

lemma load_query_distribution_runs:
  assumes "service_ok s"
  shows "\<exists>b s'. load_query_distribution n h s = Inr (b, s') \<and> tables s' = tables s"
proof (cases "aqo_markov_table (tables s) (fspace_hash (query_context s))")
  case None
  then show ?thesis by (auto simp: load_query_distribution_def Let_def disabled_def)
next
  case (Some arr)
  with assms obtain v where "holds_vector v arr" "length v \<le> num_query_pattern" by (auto simp: service_ok_def)
  then have "deform_vector arr (replicate num_query_pattern 0) = Inr (v @ drop (length v) (replicate num_query_pattern 0), length v)"
    by (intro deform_vector_holds) simp_all
  with Some show ?thesis by (auto simp: load_query_distribution_def Let_def disabled_def)
qed

lemma update_query2_history:
  assumes "learning env" "service_ok s" "aqo_queries (tables s) 1 = Some row"
  obtains s' where "update_query2 (heap_update_status env) 1 learn use fspace auto (history_array ts) n m s = Inr (True, s')" "service_ok s'"
    "aqo_queries (tables s') 1 = Some (row\<lparr>q_learn_aqo := learn, q_use_aqo := use, q_fspace_hash := fspace, q_auto_tuning := auto,
       q_history_query := \<lparr>ARR_DIMS = [3], ARR_ELEMS = history_array ts\<rparr>, q_num_history := n, q_total_num := m\<rparr>)"
proof -
  have "form_vector (history_array ts) 3 = Inr \<lparr>ARR_DIMS = [3], ARR_ELEMS = history_array ts\<rparr>"
    using form_vector_short [of "history_array ts" 3] by simp
  with assms have "\<exists>s'. update_query2 (heap_update_status env) 1 learn use fspace auto (history_array ts) n m s = Inr (True, s') \<and> service_ok s' \<and>
    aqo_queries (tables s') 1 = Some (row\<lparr>q_learn_aqo := learn, q_use_aqo := use, q_fspace_hash := fspace, q_auto_tuning := auto,
       q_history_query := \<lparr>ARR_DIMS = [3], ARR_ELEMS = history_array ts\<rparr>, q_num_history := n, q_total_num := m\<rparr>)"
    by (simp add: update_query2_def num_history_data_compute_probability_fs_def replace_tuple_def learning_def service_ok_def costs_ok_def)
  with that show thesis by blast
qed

lemma plan_stored_query_history:
  assumes "learning env" "query_hash (query_context s) = 1" "history_ok ts s" "service_ok s" "aqo_queries (tables s) 1 = Some row"
  shows "\<exists>s'. plan_stored_query env row s = Inr s' \<and> history_ok (ts @ [current_query_hash (query_context s)]) s' \<and> service_ok s'"
proof -
  let ?t = "current_query_hash (query_context s)"
  have row: "holds_vector (history_array ts) (q_history_query row)" "q_num_history row = of_nat (min 3 (length ts))"
    "q_total_num row = of_nat (length ts)" "holds_vector [0, 0] (q_current_query row)" "q_num_feature row = 0"
    using assms(3,5) by (simp_all add: history_ok_def)
  have K: "num_history_data_compute_probability_fs = 3" by (simp add: num_history_data_compute_probability_fs_def)
  have deform: "deform_vector (q_history_query row) (replicate 3 0) = Inr (history_array ts, 3)"
    "deform_vector (q_current_query row) (replicate 2 0) = Inr ([0, 0], 2)"
    using deform_vector_holds [OF row(1), of "replicate 3 0"] deform_vector_holds [OF row(4), of "replicate 2 0"] by simp_all
  have push: "push_history (history_array ts) (sint (q_num_history row)) (real_of_int (sint ?t)) =
      Inr (history_array (ts @ [?t]), int (min 3 (length (ts @ [?t]))))"
    unfolding row(2) small_count [OF min.cobounded1] by (rule push_history_array)
  let ?s = "s\<lparr>query_context := (query_context s)\<lparr>adding_query := False, learn_aqo := q_learn_aqo row, use_aqo := q_use_aqo row,
      fspace_hash := q_fspace_hash row, auto_tuning := q_auto_tuning row, collect_stat := q_auto_tuning row\<rparr>\<rparr>"
  from update_query2_history [OF assms(1), of ?s row "q_learn_aqo row" "q_use_aqo row" "q_fspace_hash row" "q_auto_tuning row"
      "ts @ [?t]" "word_of_int (int (min 3 (length (ts @ [?t]))))" "q_total_num row + 1"] assms(4,5)
  obtain s1 where upd: "update_query2 (heap_update_status env) 1 (q_learn_aqo row) (q_use_aqo row) (q_fspace_hash row) (q_auto_tuning row)
      (history_array (ts @ [?t])) (word_of_int (int (min 3 (length (ts @ [?t]))))) (q_total_num row + 1) ?s = Inr (True, s1)"
    and s1: "service_ok s1" "aqo_queries (tables s1) 1 = Some (row\<lparr>q_history_query := \<lparr>ARR_DIMS = [3], ARR_ELEMS = history_array (ts @ [?t])\<rparr>,
        q_num_history := word_of_int (int (min 3 (length (ts @ [?t])))), q_total_num := q_total_num row + 1\<rparr>)"
    by (auto simp: service_ok_def costs_ok_def)
  from load_query_distribution_runs [OF s1(1)] obtain b s2 where dist: "load_query_distribution (int (min 3 (length (ts @ [?t]))))
      (get_int_array_hash2 (big_endian env) (double_bytes env) (history_array (ts @ [?t]))) s1 = Inr (b, s2)" and s2: "tables s2 = tables s1"
    by metis
  have "service_ok s2" by (intro service_ok_frame [OF s1(1)]) (simp_all add: s2)
  then have "costs_ok (\<lambda>_. 0) s2" by (simp add: service_ok_def)
  from calculate_runs [OF this, where p = "current_query_hash (query_context s2)" and features = "[0, 0]"] obtain s3 where
    calc: "calculate_current_best_estimate_cost (current_query_hash (query_context s2)) 0 [0, 0] s2 = Inr s3" and s3: "tables s3 = tables s1"
    using s2 by auto
  have "\<exists>s'. plan_stored_query env row s = Inr s' \<and> tables s' = tables s1"
    using assms(1,2) deform push upd dist calc s3 row(5)
    by (simp add: plan_stored_query_def K Let_def learning_def del: of_nat_min)
  then obtain s' where s': "plan_stored_query env row s = Inr s'" "tables s' = tables s1" by blast
  have "history_ok (ts @ [?t]) s'"
    using row s'(2) s1(2) by (simp add: history_ok_def holds_vector_def MaxArraySize_def)
  moreover have "service_ok s'" by (intro service_ok_frame [OF s1(1)]) (simp_all add: s'(2))
  ultimately show ?thesis using s'(1) by blast
qed

lemma history_ok_frame:
  assumes "history_ok ts s" "aqo_queries (tables s') = aqo_queries (tables s)" "aqo_query_texts (tables s') = aqo_query_texts (tables s)"
  shows "history_ok ts s'"
  using assms by (simp add: history_ok_def cong: option.case_cong)

lemma aqo_planner_unfold:
  "aqo_planner env parse qtext s =
     (let s0 = s\<lparr>objects := selectivity_cache_clear, query_context := (query_context s)\<lparr>explain_aqo := False\<rparr>\<rparr>;
          s1 = s0\<lparr>query_context := (query_context s0)\<lparr>query_starttime := current_time env, nfeatures := 0,
                    current_query_hash := template_of env parse qtext\<rparr>\<rparr>
      in if aqo_ignores env parse qtext then Inr (disabled s0)
         else if template_of env parse qtext = 0 then Inr (disabled s1)
         else let (found, s2) = find_query 1 (s1\<lparr>query_context := (query_context s1)\<lparr>query_hash := 1\<rparr>\<rparr>)
              in case found of None \<Rightarrow> plan_new_query env qtext s2 | Some row \<Rightarrow> plan_stored_query env row s2)"
  by (cases "aqo_ignores env parse qtext") (simp_all add: aqo_planner_def template_of_def Let_def)

lemma aqo_planner_history:
  assumes "learning env" "history_ok ts s" "service_ok s"
  shows "\<exists>s'. aqo_planner env parse qtext s = Inr s' \<and>
    history_ok (ts @ filter (\<lambda>t. t \<noteq> 0) [template_of env parse qtext]) s' \<and> service_ok s'"
proof (cases "aqo_ignores env parse qtext \<or> template_of env parse qtext = 0")
  case True
  moreover from this have "template_of env parse qtext = 0" by (auto simp: template_of_def)
  ultimately show ?thesis
    by (auto simp: aqo_planner_unfold Let_def disabled_def
        intro!: history_ok_frame [OF assms(2)] service_ok_frame [OF assms(3)])
next
  case False
  define s2 where "s2 = s\<lparr>objects := selectivity_cache_clear, query_context := (query_context s)\<lparr>explain_aqo := False,
    query_starttime := current_time env, nfeatures := 0, current_query_hash := template_of env parse qtext, query_hash := 1\<rparr>\<rparr>"
  have s2: "history_ok ts s2" "service_ok s2"
    by (auto simp: s2_def intro!: history_ok_frame [OF assms(2)] service_ok_frame [OF assms(3)])
  have s2': "query_hash (query_context s2) = 1" "current_query_hash (query_context s2) = template_of env parse qtext"
    "aqo_queries (tables s2) = aqo_queries (tables s)"
    by (simp_all add: s2_def)
  from False s2(2) have run: "aqo_planner env parse qtext s =
      (case aqo_queries (tables s) 1 of None \<Rightarrow> plan_new_query env qtext s2 | Some row \<Rightarrow> plan_stored_query env row s2)"
    unfolding s2_def by (simp add: aqo_planner_unfold Let_def find_query_def service_ok_def)
  show ?thesis
  proof (cases "aqo_queries (tables s) 1")
    case None
    with assms(2) have "ts = []" by (simp add: history_ok_def)
    with plan_new_query_history [OF assms(1) s2'(1) _ s2(2)] s2(1) s2'(2) False show ?thesis by (simp add: run None)
  next
    case (Some row)
    with plan_stored_query_history [OF assms(1) s2'(1) s2] s2'(2,3) False show ?thesis by (simp add: run)
  qed
qed

lemma planned_ok: "planned ts s \<Longrightarrow> history_ok ts s \<and> service_ok s"
proof (induction rule: planned.induct)
  case (start s)
  then show ?case by (simp add: history_ok_def)
next
  case (query ts s env parse qtext s')
  then show ?case using aqo_planner_history [of env ts s parse qtext] by auto
next
  case (other ts s s')
  then show ?case by (auto intro: history_ok_frame)
qed

subsection \<open>Correctness of the hook\<close>


text \<open>A backend of the witnesses: its queries are printed as texts of twelve characters, one for each template.\<close>

definition sample_backend :: "string \<Rightarrow> backend" where
  "sample_backend str =
     \<lparr>aqo_mode = AQO_MODE_LEARN, IsInParallelMode = False, IsParallelWorker = False, RecoveryInProgress = False, current_time = 0,
      IsCatalogRelation = (\<lambda>_. False), nodeToString = (\<lambda>_. str), double_bytes = (\<lambda>_. []), big_endian = False,
      heap_update_status = HeapTupleMayBeUpdated\<rparr>"

lemma sample_learning: "learning (sample_backend str)"
  by (simp add: learning_def sample_backend_def)

lemma sample_templates:
  "template_of (sample_backend ''iS2=;Vw%p@jZ'') (Query CMD_SELECT [] []) '''' = 2"
  "template_of (sample_backend ''6Cb*mi(_1l-^'') (Query CMD_SELECT [] []) '''' = 3"
  by (simp_all add: template_of_def aqo_ignores_def sample_backend_def starts_with_def CREATE_EXTENSION_STARTSTRING_0_def
      CREATE_EXTENSION_STARTSTRING_1_def w32_hash query_template_def) (simp_all add: w32_def)

lemma sample_planned:
  assumes "planned ts s" "template_of (sample_backend str) (Query CMD_SELECT [] []) '''' = t" "t \<noteq> 0"
  obtains s' where "aqo_planner (sample_backend str) (Query CMD_SELECT [] []) '''' s = Inr s'" "planned (ts @ [t]) s'"
proof -
  obtain s' where s': "aqo_planner (sample_backend str) (Query CMD_SELECT [] []) '''' s = Inr s'"
    using aqo_planner_history [OF sample_learning] planned_ok [OF assms(1)] by blast
  with planned.query [OF assms(1) sample_learning s'] assms(2,3) that show thesis by simp
qed


text \<open>A query that must not write: nothing is learned, tuned, collected or added.\<close>

definition read_only :: "QueryContextData \<Rightarrow> bool" where
  "read_only c \<longleftrightarrow> \<not> learn_aqo c \<and> \<not> auto_tuning c \<and> \<not> collect_stat c \<and> \<not> adding_query c"

lemma read_only_disable [simp]: "read_only (disable_aqo_for_query c)"
  by (simp add: read_only_def)

lemma explain_disable [simp]: "explain_aqo (disable_aqo_for_query c) = explain_aqo c"
  by (simp add: disable_aqo_for_query_def)

lemma new_query_settings_explain [simp]: "explain_aqo (new_query_settings m c) = explain_aqo c"
  by (cases m; simp)

lemma plan_new_query_flags:
  assumes "plan_new_query env qtext s = Inr s'" "\<not> explain_aqo (query_context s)"
  shows "explain_aqo (query_context s') = use_aqo (query_context s')" "objects s' = objects s"
    "RecoveryInProgress env \<Longrightarrow> read_only (query_context s')"
  using assms
  by (auto simp: plan_new_query_def Let_def bind_result_Inr add_query_def add_query_text_def disabled_def read_only_def split: if_splits)

lemma update_query2_flags:
  "update_query2 hu h l u f a qh n m s = Inr (b, s') \<Longrightarrow>
   objects s' = objects s \<and> (adding_query (query_context s') \<longrightarrow> adding_query (query_context s))"
  by (auto simp: update_query2_def disabled_def bind_result_Inr split: if_splits option.splits)

lemma load_query_distribution_flags:
  "load_query_distribution n h s = Inr (b, s') \<Longrightarrow>
   objects s' = objects s \<and> (adding_query (query_context s') \<longrightarrow> adding_query (query_context s))"
  by (auto simp: load_query_distribution_def Let_def disabled_def bind_result_Inr split: if_splits option.splits)

lemma calculate_flags:
  assumes "calculate_current_best_estimate_cost p n x s = Inr s'"
  shows "objects s' = objects s \<and> (adding_query (query_context s') \<longrightarrow> adding_query (query_context s))"
proof -
  from assms obtain r s1 where load: "load_best_two_costs p (replicate num_two_costs_save (replicate n 0)) (replicate num_two_costs_save 0)
      (replicate num_two_costs_save 0) n s = Inr (r, s1)"
    by (auto simp: calculate_current_best_estimate_cost_def Let_def bind_result_Inr)
  then have "objects s1 = objects s \<and> (adding_query (query_context s1) \<longrightarrow> adding_query (query_context s))"
    by (auto simp: load_best_two_costs_def disabled_def bind_result_Inr split: if_splits option.splits)
  with assms load show ?thesis
    by (auto simp: calculate_current_best_estimate_cost_def Let_def split: if_splits prod.splits)
qed

lemma plan_stored_query_flags:
  assumes "plan_stored_query env row s = Inr s'"
  shows "explain_aqo (query_context s') = use_aqo (query_context s') \<and> objects s' = objects s \<and>
    (RecoveryInProgress env \<longrightarrow> read_only (query_context s'))"
  using assms unfolding plan_stored_query_def Let_def
proof (elim bind_result_pairE, goal_cases)
  case (1 qh k cq m qh' n b2 s2 b3 s3)
  have s3: "objects s3 = objects s" "\<not> adding_query (query_context s3)"
    using update_query2_flags [OF 1(4)] load_query_distribution_flags [OF 1(5)] by auto
  from 1(6) obtain s4 where "calculate_current_best_estimate_cost (current_query_hash (query_context s3))
      (nat (sint (q_num_feature row))) cq s3 = Inr s4"
    by (auto simp: bind_result_Inr split: if_splits)
  with calculate_flags [OF this] s3 1(6) show ?case by (auto simp: read_only_def split: if_splits)
qed

text \<open>The hook fails for no query that it ignores, and then turns the extension off and leaves the relations alone; a
  planned query starts with an empty selectivity cache, is reported by \<^verbatim>\<open>EXPLAIN\<close> as using the extension exactly when it does, and
  during recovery nothing is learned, tuned, collected or added for it.\<close>

lemma aqo_planner_settings:
  "(template_of env parse qtext = 0 \<longrightarrow> (\<exists>s'. aqo_planner env parse qtext s = Inr s' \<and> tables s' = tables s \<and>
      read_only (query_context s') \<and> \<not> use_aqo (query_context s'))) \<and>
   (\<forall>s'. aqo_planner env parse qtext s = Inr s' \<longrightarrow> objects s' = [] \<and>
      explain_aqo (query_context s') = use_aqo (query_context s') \<and> (RecoveryInProgress env \<longrightarrow> read_only (query_context s')))"
proof (intro conjI impI allI)
  assume "template_of env parse qtext = 0"
  then show "\<exists>s'. aqo_planner env parse qtext s = Inr s' \<and> tables s' = tables s \<and> read_only (query_context s') \<and> \<not> use_aqo (query_context s')"
    by (cases "aqo_ignores env parse qtext") (simp_all add: aqo_planner_unfold Let_def disabled_def)
next
  fix s' assume run: "aqo_planner env parse qtext s = Inr s'"
  have "objects s' = [] \<and> explain_aqo (query_context s') = use_aqo (query_context s') \<and> (RecoveryInProgress env \<longrightarrow> read_only (query_context s'))"
  proof (cases "template_of env parse qtext = 0")
    case True
    with run show ?thesis
      by (cases "aqo_ignores env parse qtext") (auto simp: aqo_planner_unfold Let_def disabled_def selectivity_cache_clear_def)
  next
    case False
    then have "\<not> aqo_ignores env parse qtext" by (auto simp: template_of_def)
    define s1 where "s1 = s\<lparr>objects := [], query_context := (query_context s)\<lparr>explain_aqo := False,
      query_starttime := current_time env, nfeatures := 0, current_query_hash := template_of env parse qtext, query_hash := 1\<rparr>\<rparr>"
    obtain found s2 where find: "find_query 1 s1 = (found, s2)" by fastforce
    with \<open>\<not> aqo_ignores env parse qtext\<close> False run
    have "(case found of None \<Rightarrow> plan_new_query env qtext s2 | Some row \<Rightarrow> plan_stored_query env row s2) = Inr s'"
      by (simp add: aqo_planner_unfold Let_def s1_def selectivity_cache_clear_def)
    with find have s2: "objects s2 = []" "\<not> explain_aqo (query_context s2)"
      "plan_new_query env qtext s2 = Inr s' \<or> (\<exists>row. plan_stored_query env row s2 = Inr s')"
      by (auto simp: find_query_def disabled_def s1_def split: if_splits option.splits)
    from s2(3) show ?thesis
      using plan_new_query_flags [OF _ s2(2)] plan_stored_query_flags s2(1) by metis
  qed
  then show "objects s' = []" "explain_aqo (query_context s') = use_aqo (query_context s')"
    "RecoveryInProgress env \<Longrightarrow> read_only (query_context s')" by blast+
qed

end
