(* ===== verification/JoinRels.thy ===== *)
theory JoinRels
  imports Bitmapset
begin

text \<open>
  The enumeration of join relations (\<^verbatim>\<open>src/backend/optimizer/path/joinrels.c\<close>, with the parts of
  \<^verbatim>\<open>relnode.c\<close>, \<^verbatim>\<open>joininfo.c\<close>, \<^verbatim>\<open>equivclass.c\<close>, \<^verbatim>\<open>placeholder.c\<close> and \<^verbatim>\<open>allpaths.c\<close> it uses): the dynamic
  programming over sets of base relations, the legality test for special joins and lateral references, and the
  heuristics that postpone clauseless joins.

  The fields of a relation that the enumeration reads are modelled; its paths are in a store of their own, of any type,
  which is passed through. What reads and writes paths is an argument: \<^verbatim>\<open>add_paths_to_joinrel\<close>, the size estimates and target
  of a new relation, whether a relation is dummy or has paths, the making of a dummy, and the finishing of a relation; so are the test whether a
  relation can be made unique (\<^verbatim>\<open>create_unique_path\<close>) and the clauses implied by equivalence classes. The hash table that \<^verbatim>\<open>find_join_rel\<close>
  builds once there are more than 32 join relations holds the relations of the list under their relids and is not modelled.

  The lemmas show that level \<open>j\<close> lists joins of exactly \<open>j\<close> initial relations, none twice; that the search finds the join
  of all of them when there are no special joins; that the legality test does not depend on the order of its two
  relations; and that no relation breaks the nullable side of a full or anti join apart.
\<close>

subsection \<open>Data\<close>

datatype JoinType = JOIN_INNER | JOIN_LEFT | JOIN_FULL | JOIN_RIGHT | JOIN_SEMI | JOIN_ANTI
  | JOIN_UNIQUE_OUTER | JOIN_UNIQUE_INNER

type_synonym Relids = "Bitmapset option"

record SpecialJoinInfo =
  min_lefthand :: Relids
  min_righthand :: Relids
  syn_lefthand :: Relids
  syn_righthand :: Relids
  jointype :: JoinType
  lhs_strict :: bool

record PlaceHolderInfo =
  ph_eval_at :: Relids
  ph_lateral :: Relids
  ph_needed :: Relids

text \<open>The address of a clause stands for its pointer. Of the clause itself, it is known whether it is a constant, null (\<open>Some None\<close>) or a truth
  value.\<close>

record RestrictInfo =
  rinfo_address :: nat
  required_relids :: Relids
  is_pushed_down :: bool
  const_clause :: "bool option option"

record EquivalenceClass =
  ec_members_length :: nat
  ec_relids :: Relids

record JoinRel =
  relids :: Relids
  lateral_relids :: Relids
  direct_lateral_relids :: Relids
  lateral_referencers :: Relids
  joininfo :: "RestrictInfo list"
  has_eclass_joins :: bool

record join_root =
  join_info_list :: "SpecialJoinInfo list"
  placeholder_list :: "PlaceHolderInfo list"
  eq_classes :: "EquivalenceClass list"
  hasLateralRTEs :: bool
  initial_rels :: "JoinRel list"

record 'p join_state =
  join_rel_list :: "JoinRel list"
  join_rel_level :: "JoinRel list list"
  path_store :: 'p

subsection \<open>Join clauses\<close>

definition have_relevant_eclass_joinclause :: "join_root \<Rightarrow> JoinRel \<Rightarrow> JoinRel \<Rightarrow> bool" where
  "have_relevant_eclass_joinclause pinfo rel1 rel2 =
     list_ex (\<lambda>ec. 1 < ec_members_length ec \<and> bms_overlap (relids rel1) (ec_relids ec) \<and> bms_overlap (relids rel2) (ec_relids ec))
       (eq_classes pinfo)"

definition has_relevant_eclass_joinclause :: "join_root \<Rightarrow> JoinRel \<Rightarrow> bool" where
  "has_relevant_eclass_joinclause pinfo rel1 =
     list_ex (\<lambda>ec. 1 < ec_members_length ec \<and> bms_overlap (relids rel1) (ec_relids ec) \<and> \<not> bms_is_subset (ec_relids ec) (relids rel1))
       (eq_classes pinfo)"

definition have_relevant_joinclause :: "join_root \<Rightarrow> JoinRel \<Rightarrow> JoinRel \<Rightarrow> bool" where
  "have_relevant_joinclause pinfo rel1 rel2 =
     (let (clauses, other_relids) = (if length (joininfo rel1) \<le> length (joininfo rel2)
            then (joininfo rel1, relids rel2) else (joininfo rel2, relids rel1));
          found = list_ex (\<lambda>rinfo. bms_overlap other_relids (required_relids rinfo)) clauses
      in if \<not> found \<and> has_eclass_joins rel1 \<and> has_eclass_joins rel2
         then have_relevant_eclass_joinclause pinfo rel1 rel2 else found)"

subsection \<open>Legality of a join\<close>

definition min_join_parameterization :: "Relids \<Rightarrow> JoinRel \<Rightarrow> JoinRel \<Rightarrow> Relids" where
  "min_join_parameterization joinrelids outer_rel inner_rel =
     (let r = bms_del_members (bms_union (lateral_relids outer_rel) (lateral_relids inner_rel)) joinrelids
      in if bms_is_empty r then None else r)"

definition have_dangerous_phv :: "join_root \<Rightarrow> Relids \<Rightarrow> Relids \<Rightarrow> bool" where
  "have_dangerous_phv pinfo outer_relids inner_params =
     list_ex (\<lambda>phinfo. bms_is_subset (ph_eval_at phinfo) inner_params \<and> bms_overlap (ph_eval_at phinfo) outer_relids \<and>
        \<not> bms_is_subset (ph_eval_at phinfo) outer_relids) (placeholder_list pinfo)"

text \<open>The scan of the special joins. Its state is the matching special join, whether the relations must be swapped, whether one of them is
  made unique, and whether the join has to be a left join; \<open>None\<close> is the answer that the join is invalid.\<close>

type_synonym legal_state = "SpecialJoinInfo option \<times> bool \<times> bool \<times> bool"

definition legal_step ::
    "(JoinRel \<Rightarrow> SpecialJoinInfo \<Rightarrow> bool) \<Rightarrow> JoinRel \<Rightarrow> JoinRel \<Rightarrow> Relids \<Rightarrow> SpecialJoinInfo \<Rightarrow> legal_state \<Rightarrow> legal_state option" where
  "legal_step uniq rel1 rel2 joinrelids sj st =
     (let (matched, reversed, unique_ified, must_be_leftjoin) = st
      in if \<not> bms_overlap (min_righthand sj) joinrelids then Some st
         else if bms_is_subset joinrelids (min_righthand sj) then Some st
         else if bms_is_subset (min_lefthand sj) (relids rel1) \<and> bms_is_subset (min_righthand sj) (relids rel1) then Some st
         else if bms_is_subset (min_lefthand sj) (relids rel2) \<and> bms_is_subset (min_righthand sj) (relids rel2) then Some st
         else if jointype sj = JOIN_SEMI \<and>
           (bms_is_subset (syn_righthand sj) (relids rel1) \<and> \<not> bms_equal (syn_righthand sj) (relids rel1) \<or>
            bms_is_subset (syn_righthand sj) (relids rel2) \<and> \<not> bms_equal (syn_righthand sj) (relids rel2)) then Some st
         else if bms_is_subset (min_lefthand sj) (relids rel1) \<and> bms_is_subset (min_righthand sj) (relids rel2) then
           (if matched \<noteq> None then None else Some (Some sj, False, unique_ified, must_be_leftjoin))
         else if bms_is_subset (min_lefthand sj) (relids rel2) \<and> bms_is_subset (min_righthand sj) (relids rel1) then
           (if matched \<noteq> None then None else Some (Some sj, True, unique_ified, must_be_leftjoin))
         else if jointype sj = JOIN_SEMI \<and> bms_equal (syn_righthand sj) (relids rel2) \<and> uniq rel2 sj then
           (if matched \<noteq> None then None else Some (Some sj, False, True, must_be_leftjoin))
         else if jointype sj = JOIN_SEMI \<and> bms_equal (syn_righthand sj) (relids rel1) \<and> uniq rel1 sj then
           (if matched \<noteq> None then None else Some (Some sj, True, True, must_be_leftjoin))
         else if bms_overlap (relids rel1) (min_righthand sj) \<and> bms_overlap (relids rel2) (min_righthand sj) then Some st
         else if jointype sj \<noteq> JOIN_LEFT \<or> bms_overlap joinrelids (min_lefthand sj) then None
         else Some (matched, reversed, unique_ified, True))"

fun legal_loop ::
    "(JoinRel \<Rightarrow> SpecialJoinInfo \<Rightarrow> bool) \<Rightarrow> JoinRel \<Rightarrow> JoinRel \<Rightarrow> Relids \<Rightarrow> SpecialJoinInfo list \<Rightarrow> legal_state \<Rightarrow> legal_state option" where
  "legal_loop uniq rel1 rel2 joinrelids [] st = Some st"
| "legal_loop uniq rel1 rel2 joinrelids (sj # sjs) st =
     (case legal_step uniq rel1 rel2 joinrelids sj st of
        None \<Rightarrow> None
      | Some st \<Rightarrow> legal_loop uniq rel1 rel2 joinrelids sjs st)"

text \<open>The relations on the inner side of a special join with the given ones, directly or indirectly: the passes over the special joins
  are repeated until one adds nothing.\<close>

definition rhs_step :: "SpecialJoinInfo \<Rightarrow> Relids \<times> bool \<Rightarrow> Relids \<times> bool" where
  "rhs_step sj st =
     (let (x, again) = st;
          (x, again) = (if bms_overlap (min_lefthand sj) x \<and> \<not> bms_is_subset (min_righthand sj) x
                       then (bms_add_members x (min_righthand sj), True) else (x, again))
      in if jointype sj = JOIN_FULL \<and> bms_overlap (min_righthand sj) x \<and> \<not> bms_is_subset (min_lefthand sj) x
         then (bms_add_members x (min_lefthand sj), True) else (x, again))"

definition rhs_pass :: "SpecialJoinInfo list \<Rightarrow> Relids \<Rightarrow> Relids \<times> bool" where
  "rhs_pass sjs x = fold rhs_step sjs (x, False)"

definition mentioned :: "SpecialJoinInfo list \<Rightarrow> nat set" where
  "mentioned sjs = (\<Union>sj\<in>set sjs. members (min_lefthand sj) \<union> members (min_righthand sj))"

lemma finite_mentioned [simp]: "finite (mentioned sjs)"
  by (simp add: mentioned_def)

lemma rhs_step_grows:
  assumes "rhs_step sj (x, again) = (y, again')"
  shows "members x \<subseteq> members y" "members y \<subseteq> members x \<union> members (min_lefthand sj) \<union> members (min_righthand sj)"
    "again' \<Longrightarrow> \<not> again \<Longrightarrow> members x \<noteq> members y" "again \<Longrightarrow> again'" "\<not> again' \<Longrightarrow> y = x"
proof -
  let ?L = "min_lefthand sj" and ?R = "min_righthand sj"
  have y: "y = x \<and> again' = again \<or> again' \<and> (y = bms_add_members x ?R \<and> \<not> bms_is_subset ?R x \<or>
      y = bms_add_members x ?L \<and> \<not> bms_is_subset ?L x \<or> y = bms_add_members (bms_add_members x ?R) ?L \<and> \<not> bms_is_subset ?R x)"
    using assms by (auto simp: rhs_step_def Let_def split: if_splits)
  then show "members x \<subseteq> members y" "members y \<subseteq> members x \<union> members ?L \<union> members ?R"
    by (elim disjE conjE; simp add: bms_simps; blast)+
  from y show "again' \<Longrightarrow> \<not> again \<Longrightarrow> members x \<noteq> members y"
    by (elim disjE conjE; simp add: bms_simps; blast)
  from y show "again \<Longrightarrow> again'" "\<not> again' \<Longrightarrow> y = x" by blast+
qed

lemma rhs_fold_grows:
  assumes "fold rhs_step sjs (x, again) = (y, again')"
  shows "members x \<subseteq> members y \<and> members y \<subseteq> members x \<union> mentioned sjs \<and> (again' \<and> \<not> again \<longrightarrow> members x \<noteq> members y) \<and> (\<not> again' \<longrightarrow> \<not> again \<and> y = x)"
  using assms
proof (induction sjs arbitrary: x again)
  case Nil
  then show ?case by (simp add: mentioned_def)
next
  case (Cons sj sjs)
  obtain z m where step: "rhs_step sj (x, again) = (z, m)" by fastforce
  note g = rhs_step_grows [OF step]
  from Cons.prems step have "fold rhs_step sjs (z, m) = (y, again')" by simp
  note ih = Cons.IH [OF this]
  show ?case
  proof (intro conjI impI)
    show "members x \<subseteq> members y" using g(1) ih by blast
    show "members y \<subseteq> members x \<union> mentioned (sj # sjs)" using g(2) ih by (auto simp: mentioned_def)
    show "members x \<noteq> members y" if "again' \<and> \<not> again"
      using that g(1,3,5) ih by (cases m) auto
    show "\<not> again" if "\<not> again'" using that g(4) ih by blast
    show "y = x" if "\<not> again'" using that g(5) ih by blast
  qed
qed

function rhs_closure :: "SpecialJoinInfo list \<Rightarrow> Relids \<Rightarrow> Relids" where
  "rhs_closure sjs x = (let (x', again) = rhs_pass sjs x in if again then rhs_closure sjs x' else x')"
  by pat_completeness auto
termination
proof (relation "measure (\<lambda>(sjs, x). card (mentioned sjs - members x))", goal_cases)
  case 1
  show ?case by simp
next
  case (2 sjs x p x' again)
  then have "fold rhs_step sjs (x, False) = (x', True)" by (cases p) (simp add: rhs_pass_def)
  from rhs_fold_grows [OF this] have "mentioned sjs - members x' \<subset> mentioned sjs - members x" by auto
  then show ?case by (simp add: psubset_card_mono)
qed

declare rhs_closure.simps [simp del]

definition lateral_legal ::
    "join_root \<Rightarrow> JoinRel \<Rightarrow> JoinRel \<Rightarrow> Relids \<Rightarrow> SpecialJoinInfo option \<Rightarrow> bool \<Rightarrow> bool \<Rightarrow> bool" where
  "lateral_legal pinfo rel1 rel2 joinrelids matched reversed unique_ified =
     (let lateral_fwd = bms_overlap (relids rel1) (lateral_relids rel2);
          lateral_rev = bms_overlap (relids rel2) (lateral_relids rel1);
          is_full = (\<lambda>sj. jointype sj = JOIN_FULL);
          join_lateral_rels = min_join_parameterization joinrelids rel1 rel2
      in \<not> (lateral_fwd \<and> lateral_rev) \<and>
         (if lateral_fwd then
            \<not> (matched \<noteq> None \<and> (reversed \<or> unique_ified \<or> is_full (the matched))) \<and>
            bms_overlap (relids rel1) (direct_lateral_relids rel2) \<and> \<not> have_dangerous_phv pinfo (relids rel1) (lateral_relids rel2)
          else if lateral_rev then
            \<not> (matched \<noteq> None \<and> (\<not> reversed \<or> unique_ified \<or> is_full (the matched))) \<and>
            bms_overlap (relids rel2) (direct_lateral_relids rel1) \<and> \<not> have_dangerous_phv pinfo (relids rel2) (lateral_relids rel1)
          else True) \<and>
         (join_lateral_rels = None \<or>
          \<not> bms_overlap (rhs_closure (join_info_list pinfo) (bms_copy joinrelids)) join_lateral_rels))"

definition join_is_legal ::
    "(JoinRel \<Rightarrow> SpecialJoinInfo \<Rightarrow> bool) \<Rightarrow> join_root \<Rightarrow> JoinRel \<Rightarrow> JoinRel \<Rightarrow> Relids \<Rightarrow> (SpecialJoinInfo option \<times> bool) option" where
  "join_is_legal uniq pinfo rel1 rel2 joinrelids =
     (case legal_loop uniq rel1 rel2 joinrelids (join_info_list pinfo) (None, False, False, False) of
        None \<Rightarrow> None
      | Some (matched, reversed, unique_ified, must_be_leftjoin) \<Rightarrow>
          if must_be_leftjoin \<and> (matched = None \<or> jointype (the matched) \<noteq> JOIN_LEFT \<or> \<not> lhs_strict (the matched)) then None
          else if hasLateralRTEs pinfo \<and> \<not> lateral_legal pinfo rel1 rel2 joinrelids matched reversed unique_ified then None
          else Some (matched, reversed))"

subsection \<open>Join order restrictions\<close>

definition has_legal_joinclause :: "(JoinRel \<Rightarrow> SpecialJoinInfo \<Rightarrow> bool) \<Rightarrow> join_root \<Rightarrow> JoinRel \<Rightarrow> bool" where
  "has_legal_joinclause uniq pinfo rel =
     list_ex (\<lambda>rel2. \<not> bms_overlap (relids rel) (relids rel2) \<and> have_relevant_joinclause pinfo rel rel2 \<and>
        join_is_legal uniq pinfo rel rel2 (bms_union (relids rel) (relids rel2)) \<noteq> None) (initial_rels pinfo)"

definition have_join_order_restriction ::
    "(JoinRel \<Rightarrow> SpecialJoinInfo \<Rightarrow> bool) \<Rightarrow> join_root \<Rightarrow> JoinRel \<Rightarrow> JoinRel \<Rightarrow> bool" where
  "have_join_order_restriction uniq pinfo rel1 rel2 \<longleftrightarrow>
     bms_overlap (relids rel1) (direct_lateral_relids rel2) \<or> bms_overlap (relids rel2) (direct_lateral_relids rel1) \<or>
     list_ex (\<lambda>phinfo. bms_is_subset (relids rel1) (ph_eval_at phinfo) \<and> bms_is_subset (relids rel2) (ph_eval_at phinfo))
       (placeholder_list pinfo) \<or>
     list_ex (\<lambda>sj. jointype sj \<noteq> JOIN_FULL \<and>
         (bms_is_subset (min_lefthand sj) (relids rel1) \<and> bms_is_subset (min_righthand sj) (relids rel2) \<or>
          bms_is_subset (min_lefthand sj) (relids rel2) \<and> bms_is_subset (min_righthand sj) (relids rel1) \<or>
          bms_overlap (min_righthand sj) (relids rel1) \<and> bms_overlap (min_righthand sj) (relids rel2) \<or>
          bms_overlap (min_lefthand sj) (relids rel1) \<and> bms_overlap (min_lefthand sj) (relids rel2)))
       (join_info_list pinfo) \<and>
     \<not> (has_legal_joinclause uniq pinfo rel1 \<or> has_legal_joinclause uniq pinfo rel2)"

definition has_join_restriction :: "join_root \<Rightarrow> JoinRel \<Rightarrow> bool" where
  "has_join_restriction pinfo rel \<longleftrightarrow>
     lateral_relids rel \<noteq> None \<or> lateral_referencers rel \<noteq> None \<or>
     list_ex (\<lambda>phinfo. bms_is_subset (relids rel) (ph_eval_at phinfo) \<and> \<not> bms_equal (relids rel) (ph_eval_at phinfo))
       (placeholder_list pinfo) \<or>
     list_ex (\<lambda>sj. jointype sj \<noteq> JOIN_FULL \<and>
         \<not> (bms_is_subset (min_lefthand sj) (relids rel) \<and> bms_is_subset (min_righthand sj) (relids rel)) \<and>
         (bms_overlap (min_lefthand sj) (relids rel) \<or> bms_overlap (min_righthand sj) (relids rel)))
       (join_info_list pinfo)"

subsection \<open>Join relations\<close>

definition find_join_rel :: "'p join_state \<Rightarrow> Relids \<Rightarrow> JoinRel option" where
  "find_join_rel st r = find (\<lambda>rel. bms_equal (relids rel) r) (join_rel_list st)"

definition subbuild_joinrel_joinlist :: "Relids \<Rightarrow> RestrictInfo list \<Rightarrow> RestrictInfo list \<Rightarrow> RestrictInfo list" where
  "subbuild_joinrel_joinlist joinrelids joininfo_list new_joininfo =
     foldl (\<lambda>new rinfo. if bms_is_subset (required_relids rinfo) joinrelids \<or> rinfo \<in> set new then new else new @ [rinfo])
       new_joininfo joininfo_list"

definition build_joinrel_joinlist :: "Relids \<Rightarrow> JoinRel \<Rightarrow> JoinRel \<Rightarrow> RestrictInfo list" where
  "build_joinrel_joinlist joinrelids outer_rel inner_rel =
     subbuild_joinrel_joinlist joinrelids (joininfo inner_rel) (subbuild_joinrel_joinlist joinrelids (joininfo outer_rel) [])"

definition add_placeholders_to_joinrel :: "join_root \<Rightarrow> Relids \<Rightarrow> Relids \<Rightarrow> Relids" where
  "add_placeholders_to_joinrel pinfo joinrelids direct =
     foldl (\<lambda>direct phinfo. if bms_nonempty_difference (ph_needed phinfo) joinrelids \<and> bms_is_subset (ph_eval_at phinfo) joinrelids
              then bms_add_members direct (ph_lateral phinfo) else direct) direct (placeholder_list pinfo)"

definition new_join_rel :: "join_root \<Rightarrow> Relids \<Rightarrow> JoinRel \<Rightarrow> JoinRel \<Rightarrow> JoinRel" where
  "new_join_rel pinfo joinrelids outer_rel inner_rel =
     (let direct = bms_del_members (add_placeholders_to_joinrel pinfo joinrelids
                     (bms_union (direct_lateral_relids outer_rel) (direct_lateral_relids inner_rel))) joinrelids;
          rel = \<lparr>relids = bms_copy joinrelids, lateral_relids = min_join_parameterization joinrelids outer_rel inner_rel,
                 direct_lateral_relids = (if bms_is_empty direct then None else direct), lateral_referencers = None,
                 joininfo = build_joinrel_joinlist joinrelids outer_rel inner_rel, has_eclass_joins = False\<rparr>
      in rel\<lparr>has_eclass_joins := has_relevant_eclass_joinclause pinfo rel\<rparr>)"

definition subbuild_joinrel_restrictlist :: "Relids \<Rightarrow> RestrictInfo list \<Rightarrow> RestrictInfo list \<Rightarrow> RestrictInfo list" where
  "subbuild_joinrel_restrictlist joinrelids joininfo_list new_restrictlist =
     foldl (\<lambda>new rinfo. if bms_is_subset (required_relids rinfo) joinrelids \<and> rinfo \<notin> set new then new @ [rinfo] else new)
       new_restrictlist joininfo_list"

text \<open>The arguments of the search: the uniqueness test; the clauses implied by equivalence classes for the join of two relations; the
  target, size and parallel safety of a new relation; the dummy relations; the paths of a relation; and the paths that join two relations in a given way.\<close>

record 'p path_builder =
  can_unique :: "JoinRel \<Rightarrow> SpecialJoinInfo \<Rightarrow> bool"
  implied_equalities :: "Relids \<Rightarrow> Relids \<Rightarrow> JoinRel \<Rightarrow> RestrictInfo list"
  set_size :: "JoinRel \<Rightarrow> JoinRel \<Rightarrow> JoinRel \<Rightarrow> SpecialJoinInfo \<Rightarrow> RestrictInfo list \<Rightarrow> 'p \<Rightarrow> 'p"
  is_dummy_rel :: "JoinRel \<Rightarrow> 'p \<Rightarrow> bool"
  make_dummy :: "JoinRel \<Rightarrow> 'p \<Rightarrow> 'p"
  has_paths :: "JoinRel \<Rightarrow> 'p \<Rightarrow> bool"
  add_paths_to_joinrel :: "JoinRel \<Rightarrow> JoinRel \<Rightarrow> JoinRel \<Rightarrow> JoinType \<Rightarrow> SpecialJoinInfo \<Rightarrow> RestrictInfo list \<Rightarrow> 'p \<Rightarrow> 'p result"

definition build_joinrel_restrictlist :: "'p path_builder \<Rightarrow> JoinRel \<Rightarrow> JoinRel \<Rightarrow> JoinRel \<Rightarrow> RestrictInfo list" where
  "build_joinrel_restrictlist pb joinrel outer_rel inner_rel =
     subbuild_joinrel_restrictlist (relids joinrel) (joininfo inner_rel)
       (subbuild_joinrel_restrictlist (relids joinrel) (joininfo outer_rel) []) @
     implied_equalities pb (relids joinrel) (relids outer_rel) inner_rel"

definition build_join_rel ::
    "'p path_builder \<Rightarrow> join_root \<Rightarrow> nat \<Rightarrow> Relids \<Rightarrow> JoinRel \<Rightarrow> JoinRel \<Rightarrow> SpecialJoinInfo \<Rightarrow> 'p join_state \<Rightarrow>
     JoinRel \<times> RestrictInfo list \<times> 'p join_state" where
  "build_join_rel pb pinfo join_cur_level joinrelids outer_rel inner_rel sjinfo st =
     (case find_join_rel st joinrelids of
        Some joinrel \<Rightarrow> (joinrel, build_joinrel_restrictlist pb joinrel outer_rel inner_rel, st)
      | None \<Rightarrow>
          let joinrel = new_join_rel pinfo joinrelids outer_rel inner_rel;
              restrictlist = build_joinrel_restrictlist pb joinrel outer_rel inner_rel
          in (joinrel, restrictlist,
              st\<lparr>path_store := set_size pb joinrel outer_rel inner_rel sjinfo restrictlist (path_store st),
                join_rel_list := join_rel_list st @ [joinrel],
                join_rel_level := (join_rel_level st)[join_cur_level := join_rel_level st ! join_cur_level @ [joinrel]]\<rparr>))"

subsection \<open>The paths of a join relation\<close>

definition mark_dummy_rel :: "'p path_builder \<Rightarrow> JoinRel \<Rightarrow> 'p \<Rightarrow> 'p" where
  "mark_dummy_rel pb rel p = (if is_dummy_rel pb rel p then p else make_dummy pb rel p)"

definition restriction_is_constant_false :: "RestrictInfo list \<Rightarrow> bool \<Rightarrow> bool" where
  "restriction_is_constant_false restrictlist only_pushed_down =
     list_ex (\<lambda>rinfo. \<not> (only_pushed_down \<and> \<not> is_pushed_down rinfo) \<and>
        (case const_clause rinfo of None \<Rightarrow> False | Some None \<Rightarrow> True | Some (Some b) \<Rightarrow> \<not> b)) restrictlist"

definition populate_joinrel_with_paths ::
    "'p path_builder \<Rightarrow> JoinRel \<Rightarrow> JoinRel \<Rightarrow> JoinRel \<Rightarrow> SpecialJoinInfo \<Rightarrow> RestrictInfo list \<Rightarrow> 'p \<Rightarrow> 'p result" where
  "populate_joinrel_with_paths pb rel1 rel2 joinrel sjinfo restrictlist p =
     (let dummy1 = is_dummy_rel pb rel1 p; dummy2 = is_dummy_rel pb rel2 p;
          const_false = restriction_is_constant_false restrictlist;
          add = (\<lambda>outer inner kind. add_paths_to_joinrel pb joinrel outer inner kind sjinfo restrictlist);
          empty_inner = (\<lambda>p. if const_false False \<and> bms_is_subset (relids rel2) (syn_righthand sjinfo)
                             then mark_dummy_rel pb rel2 p else p)
      in case jointype sjinfo of
           JOIN_INNER \<Rightarrow>
             if dummy1 \<or> dummy2 \<or> const_false False then Inr (mark_dummy_rel pb joinrel p)
             else bind_result (add rel1 rel2 JOIN_INNER p) (add rel2 rel1 JOIN_INNER)
         | JOIN_LEFT \<Rightarrow>
             if dummy1 \<or> const_false True then Inr (mark_dummy_rel pb joinrel p)
             else bind_result (add rel1 rel2 JOIN_LEFT (empty_inner p)) (add rel2 rel1 JOIN_RIGHT)
         | JOIN_FULL \<Rightarrow>
             if dummy1 \<and> dummy2 \<or> const_false True then Inr (mark_dummy_rel pb joinrel p)
             else bind_result (add rel1 rel2 JOIN_FULL p) (\<lambda>p.
               bind_result (add rel2 rel1 JOIN_FULL p) (\<lambda>p.
                 if has_paths pb joinrel p then Inr p
                 else Inl (Elog ''FULL JOIN is only supported with merge-joinable or hash-joinable join conditions'')))
         | JOIN_SEMI \<Rightarrow>
             let semi = bms_is_subset (min_lefthand sjinfo) (relids rel1) \<and> bms_is_subset (min_righthand sjinfo) (relids rel2);
                 unique = bms_equal (syn_righthand sjinfo) (relids rel2) \<and> can_unique pb rel2 sjinfo
             in if semi \<and> (dummy1 \<or> dummy2 \<or> const_false False) then Inr (mark_dummy_rel pb joinrel p)
                else bind_result (if semi then add rel1 rel2 JOIN_SEMI p else Inr p) (\<lambda>p.
                  if \<not> unique then Inr p
                  else if is_dummy_rel pb rel1 p \<or> is_dummy_rel pb rel2 p \<or> const_false False then Inr (mark_dummy_rel pb joinrel p)
                  else bind_result (add rel1 rel2 JOIN_UNIQUE_INNER p) (add rel2 rel1 JOIN_UNIQUE_OUTER))
         | JOIN_ANTI \<Rightarrow>
             if dummy1 \<or> const_false True then Inr (mark_dummy_rel pb joinrel p)
             else add rel1 rel2 JOIN_ANTI (empty_inner p)
         | _ \<Rightarrow> Inl (Elog ''unrecognized join type''))"

definition plain_join :: "JoinRel \<Rightarrow> JoinRel \<Rightarrow> SpecialJoinInfo" where
  "plain_join rel1 rel2 =
     \<lparr>min_lefthand = relids rel1, min_righthand = relids rel2, syn_lefthand = relids rel1, syn_righthand = relids rel2,
      jointype = JOIN_INNER, lhs_strict = False\<rparr>"

definition make_join_rel ::
    "'p path_builder \<Rightarrow> join_root \<Rightarrow> nat \<Rightarrow> JoinRel \<Rightarrow> JoinRel \<Rightarrow> 'p join_state \<Rightarrow> 'p join_state result" where
  "make_join_rel pb pinfo join_cur_level rel1 rel2 st =
     (let joinrelids = bms_union (relids rel1) (relids rel2)
      in case join_is_legal (can_unique pb) pinfo rel1 rel2 joinrelids of
           None \<Rightarrow> Inr st
         | Some (sjinfo, reversed) \<Rightarrow>
             let (rel1, rel2) = (if reversed then (rel2, rel1) else (rel1, rel2));
                 sjinfo = (case sjinfo of None \<Rightarrow> plain_join rel1 rel2 | Some sj \<Rightarrow> sj);
                 (joinrel, restrictlist, st) = build_join_rel pb pinfo join_cur_level joinrelids rel1 rel2 sjinfo st
             in if is_dummy_rel pb joinrel (path_store st) then Inr st
                else bind_result (populate_joinrel_with_paths pb rel1 rel2 joinrel sjinfo restrictlist (path_store st))
                       (\<lambda>p. Inr (st\<lparr>path_store := p\<rparr>)))"

subsection \<open>One level of the search\<close>

fun fold_result :: "('a \<Rightarrow> 's \<Rightarrow> 's result) \<Rightarrow> 'a list \<Rightarrow> 's \<Rightarrow> 's result" where
  "fold_result f [] s = Inr s"
| "fold_result f (x # xs) s = bind_result (f x s) (fold_result f xs)"

text \<open>The cells of a list, each with the cells after it.\<close>

fun cells :: "'a list \<Rightarrow> ('a \<times> 'a list) list" where
  "cells [] = []"
| "cells (x # xs) = (x, xs) # cells xs"

definition make_rels_by_clause_joins ::
    "'p path_builder \<Rightarrow> join_root \<Rightarrow> nat \<Rightarrow> JoinRel \<Rightarrow> JoinRel list \<Rightarrow> 'p join_state \<Rightarrow> 'p join_state result" where
  "make_rels_by_clause_joins pb pinfo level old_rel other_rels =
     fold_result (\<lambda>other_rel st.
       if \<not> bms_overlap (relids old_rel) (relids other_rel) \<and>
          (have_relevant_joinclause pinfo old_rel other_rel \<or> have_join_order_restriction (can_unique pb) pinfo old_rel other_rel)
       then make_join_rel pb pinfo level old_rel other_rel st else Inr st) other_rels"

definition make_rels_by_clauseless_joins ::
    "'p path_builder \<Rightarrow> join_root \<Rightarrow> nat \<Rightarrow> JoinRel \<Rightarrow> JoinRel list \<Rightarrow> 'p join_state \<Rightarrow> 'p join_state result" where
  "make_rels_by_clauseless_joins pb pinfo level old_rel other_rels =
     fold_result (\<lambda>other_rel st.
       if \<not> bms_overlap (relids other_rel) (relids old_rel)
       then make_join_rel pb pinfo level old_rel other_rel st else Inr st) other_rels"

definition linear_joins :: "'p path_builder \<Rightarrow> join_root \<Rightarrow> nat \<Rightarrow> 'p join_state \<Rightarrow> 'p join_state result" where
  "linear_joins pb pinfo level st =
     fold_result (\<lambda>(old_rel, rest).
       if joininfo old_rel \<noteq> [] \<or> has_eclass_joins old_rel \<or> has_join_restriction pinfo old_rel
       then make_rels_by_clause_joins pb pinfo level old_rel (if level = 2 then rest else join_rel_level st ! 1)
       else make_rels_by_clauseless_joins pb pinfo level old_rel (join_rel_level st ! 1))
     (cells (join_rel_level st ! (level - 1))) st"

definition bushy_joins :: "'p path_builder \<Rightarrow> join_root \<Rightarrow> nat \<Rightarrow> nat \<Rightarrow> 'p join_state \<Rightarrow> 'p join_state result" where
  "bushy_joins pb pinfo level k st =
     fold_result (\<lambda>(old_rel, rest) st'.
       if joininfo old_rel = [] \<and> \<not> has_eclass_joins old_rel \<and> \<not> has_join_restriction pinfo old_rel then Inr st'
       else make_rels_by_clause_joins pb pinfo level old_rel (if k = level - k then rest else join_rel_level st ! (level - k)) st')
     (cells (join_rel_level st ! k)) st"

definition clauseless_joins :: "'p path_builder \<Rightarrow> join_root \<Rightarrow> nat \<Rightarrow> 'p join_state \<Rightarrow> 'p join_state result" where
  "clauseless_joins pb pinfo level st =
     fold_result (\<lambda>old_rel. make_rels_by_clauseless_joins pb pinfo level old_rel (join_rel_level st ! 1)) (join_rel_level st ! (level - 1)) st"

definition join_search_one_level :: "'p path_builder \<Rightarrow> join_root \<Rightarrow> nat \<Rightarrow> 'p join_state \<Rightarrow> 'p join_state result" where
  "join_search_one_level pb pinfo level st =
     bind_result (linear_joins pb pinfo level st) (\<lambda>st.
     bind_result (fold_result (bushy_joins pb pinfo level) [2..<Suc (level div 2)] st) (\<lambda>st.
       if join_rel_level st ! level = [] then
         bind_result (clauseless_joins pb pinfo level st) (\<lambda>st.
           if join_rel_level st ! level = [] \<and> join_info_list pinfo = [] \<and> \<not> hasLateralRTEs pinfo
           then Inl (Elog ''failed to build any N-way joins'') else Inr st)
       else Inr st))"

subsection \<open>The search\<close>

text \<open>Once a level is complete, each of its relations is finished: \<open>finish\<close> stands for \<^verbatim>\<open>generate_gather_paths\<close> and the choice of the
  cheapest paths.\<close>

definition search_level ::
    "'p path_builder \<Rightarrow> (JoinRel \<Rightarrow> 'p \<Rightarrow> 'p result) \<Rightarrow> join_root \<Rightarrow> nat \<Rightarrow> 'p join_state \<Rightarrow> 'p join_state result" where
  "search_level pb finish pinfo lev st =
     bind_result (join_search_one_level pb pinfo lev st) (\<lambda>st.
       fold_result (\<lambda>rel st. bind_result (finish rel (path_store st)) (\<lambda>p. Inr (st\<lparr>path_store := p\<rparr>))) (join_rel_level st ! lev) st)"

definition join_search ::
    "'p path_builder \<Rightarrow> (JoinRel \<Rightarrow> 'p \<Rightarrow> 'p result) \<Rightarrow> join_root \<Rightarrow> nat \<Rightarrow> JoinRel list \<Rightarrow> JoinRel list \<Rightarrow> 'p \<Rightarrow>
     (JoinRel \<times> 'p join_state) result" where
  "join_search pb finish pinfo levels_needed rels rel_list p =
     bind_result (fold_result (search_level pb finish pinfo) [2..<Suc levels_needed]
         \<lparr>join_rel_list = rel_list, join_rel_level = [[], rels] @ replicate (levels_needed - 1) [], path_store = p\<rparr>)
       (\<lambda>st. case join_rel_level st ! levels_needed of
               [] \<Rightarrow> Inl (Elog ''failed to build any N-way joins'')
             | rel # _ \<Rightarrow> Inr (rel, st))"

subsection \<open>Reasoning about results\<close>

text \<open>The computation ends in a state with the property \<open>P\<close>, or with an error allowed by \<open>E\<close>.\<close>

definition yields :: "(pg_error \<Rightarrow> bool) \<Rightarrow> ('s \<Rightarrow> bool) \<Rightarrow> 's result \<Rightarrow> bool" where
  "yields E P r \<longleftrightarrow> (case r of Inl e \<Rightarrow> E e | Inr s \<Rightarrow> P s)"

lemma yields_simps [simp]: "yields E P (Inr s) = P s" "yields E P (Inl e) = E e"
  by (simp_all add: yields_def)

lemma yields_bind: "yields E P m \<Longrightarrow> (\<And>s. P s \<Longrightarrow> yields E Q (f s)) \<Longrightarrow> yields E Q (bind_result m f)"
  by (cases m) auto

lemma yields_mono: "yields E P r \<Longrightarrow> (\<And>s. P s \<Longrightarrow> Q s) \<Longrightarrow> yields E Q r"
  by (cases r) auto

lemma yields_conj: "yields E P r \<Longrightarrow> yields E Q r \<Longrightarrow> yields E (\<lambda>s. P s \<and> Q s) r"
  by (cases r) auto

lemma yields_fold:
  "(\<And>x s. x \<in> set xs \<Longrightarrow> P s \<Longrightarrow> yields E P (f x s)) \<Longrightarrow> P s \<Longrightarrow> yields E P (fold_result f xs s)"
  by (induction xs arbitrary: s) (auto intro: yields_bind)

lemma yields_fold_reach:
  assumes "\<And>x s. x \<in> set xs \<Longrightarrow> P s \<Longrightarrow> yields E P (f x s)" "\<And>x s. x \<in> set xs \<Longrightarrow> P s \<Longrightarrow> Q s \<Longrightarrow> yields E Q (f x s)"
    and "x0 \<in> set xs" "\<And>s. P s \<Longrightarrow> yields E Q (f x0 s)" "P s"
  shows "yields E (\<lambda>s. P s \<and> Q s) (fold_result f xs s)"
  using assms
proof (induction xs arbitrary: s)
  case Nil
  then show ?case by simp
next
  case (Cons x xs)
  show ?case
  proof (cases "x = x0")
    case True
    have "yields E (\<lambda>s. P s \<and> Q s) (f x s)" using Cons.prems True by (intro yields_conj) auto
    moreover have "yields E (\<lambda>s. P s \<and> Q s) (fold_result f xs s')" if "P s' \<and> Q s'" for s'
      using that Cons.prems(1,2) by (intro yields_fold yields_conj) auto
    ultimately show ?thesis by (auto intro: yields_bind)
  next
    case False
    with Cons.prems have "x0 \<in> set xs" by simp
    then show ?thesis using Cons.prems by (auto intro!: yields_bind [where P = P] Cons.IH)
  qed
qed

lemma cells_set: "(x, xs') \<in> set (cells xs) \<Longrightarrow> x \<in> set xs \<and> set xs' \<subseteq> set xs"
  by (induction xs) auto

lemma level_update [simp]:
  "j \<noteq> level \<Longrightarrow> join_rel_level (st\<lparr>join_rel_level := (join_rel_level st)[level := x]\<rparr>) ! j = join_rel_level st ! j"
  by simp

subsection \<open>Invariants of a level\<close>

text \<open>
  The contract between one join and the search of a level: what holds of the state, with the complete levels \<open>L\<close>, is kept by a
  join of two disjoint relations whose levels add up. Then it is kept by the whole level; and if moreover such a
  join puts a relation on the level and there is such a pair, the level is not empty in the end.
\<close>

locale level_invariant =
  fixes pb :: "'p path_builder" and pinfo :: join_root and level :: nat
    and E :: "pg_error \<Rightarrow> bool" and I :: "'p join_state \<Rightarrow> bool" and L :: "nat \<Rightarrow> JoinRel list"
  assumes two: "I st \<Longrightarrow> 2 \<le> level"
    and lower: "I st \<Longrightarrow> j < level \<Longrightarrow> join_rel_level st ! j = L j"
    and make: "I st \<Longrightarrow> 0 < j \<Longrightarrow> j < level \<Longrightarrow> r1 \<in> set (L j) \<Longrightarrow> r2 \<in> set (L (level - j)) \<Longrightarrow> \<not> bms_overlap (relids r1) (relids r2) \<Longrightarrow>
      yields E I (make_join_rel pb pinfo level r1 r2 st)"
begin

lemma clause_joins:
  assumes "I st" "0 < j" "j < level" "r \<in> set (L j)" "set rs \<subseteq> set (L (level - j))"
  shows "yields E I (make_rels_by_clause_joins pb pinfo level r rs st)"
  unfolding make_rels_by_clause_joins_def
proof (rule yields_fold)
  fix x s assume "x \<in> set rs" "I s"
  then show "yields E I (if \<not> bms_overlap (relids r) (relids x) \<and> (have_relevant_joinclause pinfo r x \<or> have_join_order_restriction (can_unique pb) pinfo r x)
      then make_join_rel pb pinfo level r x s else Inr s)"
    using make [OF _ assms(2-4)] assms(5) by auto
qed (rule assms(1))

lemma clauseless:
  assumes "I st" "0 < j" "j < level" "r \<in> set (L j)" "set rs \<subseteq> set (L (level - j))"
  shows "yields E I (make_rels_by_clauseless_joins pb pinfo level r rs st)"
  unfolding make_rels_by_clauseless_joins_def
proof (rule yields_fold)
  fix x s assume "x \<in> set rs" "I s"
  then show "yields E I (if \<not> bms_overlap (relids x) (relids r) then make_join_rel pb pinfo level r x s else Inr s)"
    using make [OF _ assms(2-4)] assms(5) by (auto simp: bms_simps Int_commute)
qed (rule assms(1))

lemma linear:
  assumes "I st"
  shows "yields E I (linear_joins pb pinfo level st)"
  unfolding linear_joins_def
proof (rule yields_fold)
  have lev: "2 \<le> level" and L: "join_rel_level st ! 1 = L 1" "join_rel_level st ! (level - 1) = L (level - 1)"
    using two [OF assms] lower [OF assms] by simp_all
  fix x s assume x: "x \<in> set (cells (join_rel_level st ! (level - 1)))" and s: "I s"
  obtain r rest where r: "x = (r, rest)" by fastforce
  with x L have r': "r \<in> set (L (level - 1))" "set rest \<subseteq> set (L (level - 1))" by (auto dest: cells_set)
  have rs: "set (if level = 2 then rest else join_rel_level st ! 1) \<subseteq> set (L (level - (level - 1)))"
    "set (join_rel_level st ! 1) \<subseteq> set (L (level - (level - 1)))"
    using r'(2) lev L by auto
  have "0 < level - 1" "level - 1 < level" using lev by simp_all
  then show "yields E I ((case x of (old_rel, rest) \<Rightarrow>
      if joininfo old_rel \<noteq> [] \<or> has_eclass_joins old_rel \<or> has_join_restriction pinfo old_rel
      then make_rels_by_clause_joins pb pinfo level old_rel (if level = 2 then rest else join_rel_level st ! 1)
      else make_rels_by_clauseless_joins pb pinfo level old_rel (join_rel_level st ! 1)) s)"
    using clause_joins [OF s _ _ r'(1) rs(1)] clauseless [OF s _ _ r'(1) rs(2)] 
    by (cases "joininfo r \<noteq> [] \<or> has_eclass_joins r \<or> has_join_restriction pinfo r") (simp_all only: r prod.case if_True if_False simp_thms)
qed (rule assms)

lemma bushy:
  assumes "I st" "k \<in> set [2..<Suc (level div 2)]"
  shows "yields E I (bushy_joins pb pinfo level k st)"
  unfolding bushy_joins_def
proof (rule yields_fold)
  have k: "0 < k" "k < level" "0 < level - k" "level - k < level" using assms(2) by auto
  have L: "join_rel_level st ! k = L k" "join_rel_level st ! (level - k) = L (level - k)" using lower [OF assms(1)] k by simp_all
  fix x s assume x: "x \<in> set (cells (join_rel_level st ! k))" and s: "I s"
  obtain r rest where r: "x = (r, rest)" by fastforce
  with x L have "r \<in> set (L k)" and "set rest \<subseteq> set (L k)" by (auto dest: cells_set)
  then show "yields E I ((case x of (old_rel, rest) \<Rightarrow> \<lambda>st'.
      if joininfo old_rel = [] \<and> \<not> has_eclass_joins old_rel \<and> \<not> has_join_restriction pinfo old_rel then Inr st'
      else make_rels_by_clause_joins pb pinfo level old_rel (if k = level - k then rest else join_rel_level st ! (level - k)) st') s)"
    using k L s clause_joins [of s k r] by (auto simp: r)
qed (rule assms(1))

lemma last_ditch:
  assumes "I st"
  shows "yields E I (clauseless_joins pb pinfo level st)"
  unfolding clauseless_joins_def
proof (rule yields_fold)
  have L: "2 \<le> level" "join_rel_level st ! 1 = L 1" "join_rel_level st ! (level - 1) = L (level - 1)"
    using two [OF assms] lower [OF assms] by simp_all
  fix r s assume "r \<in> set (join_rel_level st ! (level - 1))" "I s"
  then show "yields E I (make_rels_by_clauseless_joins pb pinfo level r (join_rel_level st ! 1) s)"
    using L clauseless [of s "level - 1" r] by simp
qed (rule assms)

lemma one_level:
  assumes "I st" "\<And>e. e = Elog ''failed to build any N-way joins'' \<Longrightarrow> E e"
  shows "yields E I (join_search_one_level pb pinfo level st)"
  unfolding join_search_one_level_def
proof (rule yields_bind [OF linear [OF assms(1)]])
  fix s assume "I s"
  then have "yields E I (fold_result (bushy_joins pb pinfo level) [2..<Suc (level div 2)] s)"
    by (intro yields_fold bushy)
  then show "yields E I (bind_result (fold_result (bushy_joins pb pinfo level) [2..<Suc (level div 2)] s) (\<lambda>st.
      if join_rel_level st ! level = [] then bind_result (clauseless_joins pb pinfo level st)
        (\<lambda>st. if join_rel_level st ! level = [] \<and> join_info_list pinfo = [] \<and> \<not> hasLateralRTEs pinfo
          then Inl (Elog ''failed to build any N-way joins'') else Inr st) else Inr st))"
    by (rule yields_bind) (use assms(2) in \<open>auto intro!: yields_bind [OF last_ditch]\<close>)
qed

end

subsection \<open>Levels join exactly as many initial relations\<close>

definition parts :: "JoinRel list \<Rightarrow> JoinRel \<Rightarrow> nat set" where
  "parts rels r = {i. i < length rels \<and> members (relids (rels ! i)) \<inter> members (relids r) \<noteq> {}}"

definition joins :: "JoinRel list \<Rightarrow> nat \<Rightarrow> JoinRel \<Rightarrow> bool" where
  "joins rels j r \<longleftrightarrow> card (parts rels r) = j \<and> members (relids r) = (\<Union>i\<in>parts rels r. members (relids (rels ! i)))"

definition separate :: "JoinRel list \<Rightarrow> bool" where
  "separate rels \<longleftrightarrow> (\<forall>i<length rels. members (relids (rels ! i)) \<noteq> {} \<and>
     (\<forall>j<length rels. i \<noteq> j \<longrightarrow> members (relids (rels ! i)) \<inter> members (relids (rels ! j)) = {}))"

lemma finite_parts [simp]: "finite (parts rels r)"
  by (simp add: parts_def)

lemma joins_le: "joins rels j r \<Longrightarrow> j \<le> length rels"
proof -
  have "parts rels r \<subseteq> {..<length rels}" by (auto simp: parts_def)
  then have "card (parts rels r) \<le> card {..<length rels}" by (rule card_mono [rotated]) simp
  then show "joins rels j r \<Longrightarrow> j \<le> length rels" by (simp add: joins_def)
qed

lemma joins_initial:
  assumes "separate rels" "i < length rels"
  shows "joins rels 1 (rels ! i)"
proof -
  have "parts rels (rels ! i) = {i}" using assms by (auto simp: parts_def separate_def)
  then show ?thesis by (simp add: joins_def)
qed

lemma joins_Un:
  assumes "separate rels" "joins rels a r1" "joins rels b r2" "members (relids r1) \<inter> members (relids r2) = {}"
    and "members (relids r) = members (relids r1) \<union> members (relids r2)"
  shows "joins rels (a + b) r"
proof -
  have parts: "parts rels r = parts rels r1 \<union> parts rels r2" using assms(5) by (auto simp: parts_def)
  have sub: "members (relids (rels ! i)) \<subseteq> members (relids r')" if "joins rels c r'" "i \<in> parts rels r'" for i c r'
    using that by (auto simp: joins_def)
  have "i \<notin> parts rels r2" if "i \<in> parts rels r1" for i
  proof
    assume "i \<in> parts rels r2"
    with sub [OF assms(2) that] sub [OF assms(3)] assms(4) have "members (relids (rels ! i)) = {}" by blast
    with assms(1) that show False by (auto simp: separate_def parts_def)
  qed
  then have "card (parts rels r) = a + b" using assms(2,3) unfolding parts joins_def by (subst card_Un_disjoint) auto
  moreover have "members (relids r) = (\<Union>i\<in>parts rels r. members (relids (rels ! i)))"
    using assms(2,3,5) unfolding joins_def parts by auto
  ultimately show ?thesis by (simp add: joins_def)
qed

lemma joins_missing:
  assumes "separate rels" "joins rels j r" "j < length rels"
  obtains i where "i < length rels" "members (relids r) \<inter> members (relids (rels ! i)) = {}"
proof -
  have "parts rels r \<noteq> {..<length rels}" using assms(2,3) by (auto simp: joins_def)
  then obtain i where "i < length rels" "i \<notin> parts rels r" by (auto simp: parts_def)
  with that show thesis by (auto simp: parts_def)
qed

lemma joins_all:
  assumes "joins rels (length rels) r"
  shows "members (relids r) = (\<Union>rel\<in>set rels. members (relids rel))"
proof -
  have "parts rels r \<subseteq> {..<length rels}" "card (parts rels r) = card {..<length rels}"
    using assms by (auto simp: parts_def joins_def)
  then have "parts rels r = {..<length rels}" by (metis card_subset_eq finite_lessThan)
  with assms show ?thesis by (auto simp: joins_def in_set_conv_nth) (metis lessThan_iff nth_mem)+
qed

text \<open>The state of the search when level \<open>cur\<close> is being filled.\<close>

definition search_inv :: "JoinRel list \<Rightarrow> nat \<Rightarrow> 'p join_state \<Rightarrow> bool" where
  "search_inv rels cur st \<longleftrightarrow> separate rels \<and> length (join_rel_level st) = Suc (length rels) \<and> join_rel_level st ! 1 = rels \<and>
     (\<forall>j. 0 < j \<and> j \<le> length rels \<longrightarrow> distinct (map (members \<circ> relids) (join_rel_level st ! j)) \<and>
        (\<forall>r\<in>set (join_rel_level st ! j). joins rels j r \<and> (2 \<le> j \<longrightarrow> r \<in> set (join_rel_list st)))) \<and>
     (\<forall>j. cur < j \<and> j \<le> length rels \<longrightarrow> join_rel_level st ! j = []) \<and>
     (\<forall>r\<in>set (join_rel_list st). \<forall>j. 2 \<le> j \<and> joins rels j r \<longrightarrow> r \<in> set (join_rel_level st ! j))"

definition level_inv :: "JoinRel list \<Rightarrow> nat \<Rightarrow> (nat \<Rightarrow> JoinRel list) \<Rightarrow> 'p join_state \<Rightarrow> bool" where
  "level_inv rels level L st \<longleftrightarrow> 2 \<le> level \<and> level \<le> length rels \<and> search_inv rels level st \<and> (\<forall>j<level. join_rel_level st ! j = L j)"

lemma find_join_rel_cases:
  obtains (found) r where "find_join_rel st x = Some r" "r \<in> set (join_rel_list st)" "members (relids r) = members x"
  | (fresh) "find_join_rel st x = None" "\<forall>r\<in>set (join_rel_list st). members (relids r) \<noteq> members x"
proof (cases "find_join_rel st x")
  case None
  then show ?thesis by (intro fresh) (auto simp: find_join_rel_def find_None_iff bms_simps)
next
  case (Some r)
  then show ?thesis by (intro found [OF Some]) (auto simp: find_join_rel_def find_Some_iff bms_simps)
qed

lemma new_join_rel_members [simp]: "members (relids (new_join_rel pinfo x r1 r2)) = members x"
  by (simp add: new_join_rel_def Let_def bms_simps)

lemma search_invD:
  assumes "search_inv rels cur st"
  shows "separate rels" "length (join_rel_level st) = Suc (length rels)" "join_rel_level st ! 1 = rels"
    "\<And>j. 0 < j \<Longrightarrow> j \<le> length rels \<Longrightarrow> distinct (map (members \<circ> relids) (join_rel_level st ! j))"
    "\<And>j r. 0 < j \<Longrightarrow> j \<le> length rels \<Longrightarrow> r \<in> set (join_rel_level st ! j) \<Longrightarrow> joins rels j r"
    "\<And>j r. 2 \<le> j \<Longrightarrow> j \<le> length rels \<Longrightarrow> r \<in> set (join_rel_level st ! j) \<Longrightarrow> r \<in> set (join_rel_list st)"
    "\<And>j. cur < j \<Longrightarrow> j \<le> length rels \<Longrightarrow> join_rel_level st ! j = []"
    "\<And>j r. 2 \<le> j \<Longrightarrow> r \<in> set (join_rel_list st) \<Longrightarrow> joins rels j r \<Longrightarrow> r \<in> set (join_rel_level st ! j)"
proof -
  note inv = assms [unfolded search_inv_def]
  show "separate rels" "length (join_rel_level st) = Suc (length rels)" "join_rel_level st ! 1 = rels" using inv by blast+
  show "distinct (map (members \<circ> relids) (join_rel_level st ! j))" if "0 < j" "j \<le> length rels" for j using inv that by blast
  show "joins rels j r" if "0 < j" "j \<le> length rels" "r \<in> set (join_rel_level st ! j)" for j r using inv that by blast
  show "r \<in> set (join_rel_list st)" if "2 \<le> j" "j \<le> length rels" "r \<in> set (join_rel_level st ! j)" for j r
  proof -
    have "0 < j" using that(1) by simp
    with inv that show ?thesis by blast
  qed
  show "join_rel_level st ! j = []" if "cur < j" "j \<le> length rels" for j using inv that by blast
  show "r \<in> set (join_rel_level st ! j)" if "2 \<le> j" "r \<in> set (join_rel_list st)" "joins rels j r" for j r using inv that by blast
qed

lemma add_rel_inv:
  assumes s: "search_inv rels level st" and level: "2 \<le> level" "level \<le> length rels"
    and new: "joins rels level new" "\<forall>r\<in>set (join_rel_list st). members (relids r) \<noteq> members (relids new)"
    and st': "join_rel_list st' = join_rel_list st @ [new]" "join_rel_level st' = (join_rel_level st)[level := join_rel_level st ! level @ [new]]"
  shows "search_inv rels level st'"
  unfolding search_inv_def
proof (intro conjI allI ballI impI)
  note D = search_invD [OF s]
  have lv: "join_rel_level st' ! j = (if j = level then join_rel_level st ! level @ [new] else join_rel_level st ! j)" for j
    using D(2) level by (simp add: st' nth_list_update)
  show "separate rels" "length (join_rel_level st') = Suc (length rels)" "join_rel_level st' ! 1 = rels"
    using D(1-3) level by (simp_all add: lv st'(2))
  have uniq: "members (relids new) \<notin> (members \<circ> relids) ` set (join_rel_level st ! level)"
    using new(2) D(6) [OF level] by force
  fix j assume j: "0 < j \<and> j \<le> length rels"
  show "distinct (map (members \<circ> relids) (join_rel_level st' ! j))" using D(4) [of j] j uniq by (auto simp: lv)
  fix r assume "r \<in> set (join_rel_level st' ! j)"
  then show "joins rels j r" "2 \<le> j \<Longrightarrow> r \<in> set (join_rel_list st')"
    using D(5,6) [of j r] j new(1) by (auto simp: lv st'(1) split: if_splits)
next
  fix j assume "level < j \<and> j \<le> length rels"
  then show "join_rel_level st' ! j = []" using search_invD(7) [OF s] by (simp add: st'(2))
next
  fix r j assume r: "r \<in> set (join_rel_list st')" and j: "2 \<le> j \<and> joins rels j r"
  show "r \<in> set (join_rel_level st' ! j)"
  proof (cases "r = new")
    case True
    then have "j = level" using j new(1) by (simp add: joins_def)
    with True search_invD(2) [OF s] level show ?thesis by (simp add: st'(2))
  next
    case False
    with r j have "r \<in> set (join_rel_level st ! j)" using search_invD(8) [OF s, of j r] by (simp add: st'(1))
    then show ?thesis using search_invD(2) [OF s] level by (cases "j = level") (simp_all add: st'(2))
  qed
qed

lemma build_join_rel_inv:
  assumes inv: "level_inv rels level L st" and x: "\<And>r. members (relids r) = members x \<Longrightarrow> joins rels level r"
    and build: "build_join_rel pb pinfo level x r1 r2 sj st = (jr, rl, st')"
  shows "level_inv rels level L st' \<and> join_rel_level st' ! level \<noteq> []"
proof -
  have level: "2 \<le> level" "level \<le> length rels" and s: "search_inv rels level st" and L: "\<forall>j<level. join_rel_level st ! j = L j"
    using inv by (simp_all add: level_inv_def)
  show ?thesis
  proof (cases rule: find_join_rel_cases [of st x])
    case (found r)
    then have "st' = st" using build by (simp add: build_join_rel_def)
    moreover have "r \<in> set (join_rel_level st ! level)" using search_invD(8) [OF s level(1) found(2) x [OF found(3)]] .
    ultimately show ?thesis using inv by auto
  next
    case fresh
    define new where "new = new_join_rel pinfo x r1 r2"
    have st': "join_rel_list st' = join_rel_list st @ [new]"
      "join_rel_level st' = (join_rel_level st)[level := join_rel_level st ! level @ [new]]"
      using build fresh(1) by (auto simp: build_join_rel_def new_def Let_def)
    have "joins rels level new" "\<forall>r\<in>set (join_rel_list st). members (relids r) \<noteq> members (relids new)"
      using x fresh(2) by (simp_all add: new_def)
    from add_rel_inv [OF s level this st'] have "search_inv rels level st'" .
    then show ?thesis using L level search_invD(2) [OF s] by (simp add: level_inv_def st'(2))
  qed
qed

lemma search_inv_store [simp]: "search_inv rels cur (st\<lparr>path_store := p\<rparr>) = search_inv rels cur st"
  by (simp add: search_inv_def)

lemma level_inv_store [simp]: "level_inv rels level L (st\<lparr>path_store := p\<rparr>) = level_inv rels level L st"
  by (simp add: level_inv_def)

lemma pair_joins:
  assumes "level_inv rels level L st" "0 < j" "j < level" "r1 \<in> set (L j)" "r2 \<in> set (L (level - j))" "\<not> bms_overlap (relids r1) (relids r2)"
    and "members (relids r) = members (relids r1) \<union> members (relids r2)"
  shows "joins rels level r"
proof -
  have "joins rels j r1" "joins rels (level - j) r2" "separate rels"
    using assms(1-5) by (auto simp: level_inv_def search_inv_def)
  then have "joins rels (j + (level - j)) r" using assms(6,7) by (intro joins_Un) (auto simp: bms_simps)
  with assms(3) show ?thesis by simp
qed

text \<open>Paths can always be built; the query has no special joins and no lateral references.\<close>

definition builds :: "'p path_builder \<Rightarrow> bool" where
  "builds pb \<longleftrightarrow> (\<forall>jr r1 r2 kind sj rl p. \<exists>p'. add_paths_to_joinrel pb jr r1 r2 kind sj rl p = Inr p')"

definition plain :: "join_root \<Rightarrow> bool" where
  "plain pinfo \<longleftrightarrow> join_info_list pinfo = [] \<and> \<not> hasLateralRTEs pinfo"

lemma plain_legal: "plain pinfo \<Longrightarrow> join_is_legal uniq pinfo r1 r2 x = Some (None, False)"
  by (simp add: plain_def join_is_legal_def)

lemma populate_plain:
  assumes "builds pb"
  shows "\<exists>p'. populate_joinrel_with_paths pb r1 r2 jr (plain_join a b) rl p = Inr p'"
proof -
  obtain p1 where "add_paths_to_joinrel pb jr r1 r2 JOIN_INNER (plain_join a b) rl p = Inr p1" using assms unfolding builds_def by blast
  moreover obtain p2 where "add_paths_to_joinrel pb jr r2 r1 JOIN_INNER (plain_join a b) rl p1 = Inr p2" using assms unfolding builds_def by blast
  ultimately show ?thesis by (simp add: populate_joinrel_with_paths_def plain_join_def)
qed

lemma make_join_rel_legal:
  assumes "join_is_legal (can_unique pb) pinfo r1 r2 (bms_union (relids r1) (relids r2)) = Some (sj, reversed)"
  obtains a b s jr rl st' where "build_join_rel pb pinfo level (bms_union (relids r1) (relids r2)) a b s st = (jr, rl, st')"
    "sj = None \<longrightarrow> s = plain_join a b"
    "make_join_rel pb pinfo level r1 r2 st = (if is_dummy_rel pb jr (path_store st') then Inr st'
       else bind_result (populate_joinrel_with_paths pb a b jr s rl (path_store st')) (\<lambda>p. Inr (st'\<lparr>path_store := p\<rparr>)))"
proof -
  define a b where "a = (if reversed then r2 else r1)" and "b = (if reversed then r1 else r2)"
  define s where "s = (case sj of None \<Rightarrow> plain_join a b | Some sj \<Rightarrow> sj)"
  obtain jr rl st' where build: "build_join_rel pb pinfo level (bms_union (relids r1) (relids r2)) a b s st = (jr, rl, st')"
    by (metis prod_cases3)
  have "make_join_rel pb pinfo level r1 r2 st = (if is_dummy_rel pb jr (path_store st') then Inr st'
      else bind_result (populate_joinrel_with_paths pb a b jr s rl (path_store st')) (\<lambda>p. Inr (st'\<lparr>path_store := p\<rparr>)))"
    using assms build unfolding a_def b_def s_def by (cases sj; cases reversed) (simp_all add: make_join_rel_def Let_def)
  with build show thesis by (intro that [of a b s jr rl st']) (auto simp: s_def)
qed

lemma make_join_rel_inv:
  assumes inv: "level_inv rels level L st" and x: "\<And>r. members (relids r) = members (relids r1) \<union> members (relids r2) \<Longrightarrow> joins rels level r"
  shows "yields (\<lambda>e. \<not> (builds pb \<and> plain pinfo)) (\<lambda>st'. level_inv rels level L st' \<and> (plain pinfo \<longrightarrow> join_rel_level st' ! level \<noteq> []))
    (make_join_rel pb pinfo level r1 r2 st)"
proof (cases "join_is_legal (can_unique pb) pinfo r1 r2 (bms_union (relids r1) (relids r2))")
  case None
  then have "\<not> plain pinfo" by (auto simp: plain_legal)
  with None inv show ?thesis by (simp add: make_join_rel_def)
next
  case (Some m)
  obtain sj reversed where m: "m = (sj, reversed)" by fastforce
  note legal = Some [unfolded m]
  obtain a b s jr rl st' where build: "build_join_rel pb pinfo level (bms_union (relids r1) (relids r2)) a b s st = (jr, rl, st')"
    and s: "sj = None \<longrightarrow> s = plain_join a b"
    and make: "make_join_rel pb pinfo level r1 r2 st = (if is_dummy_rel pb jr (path_store st') then Inr st'
      else bind_result (populate_joinrel_with_paths pb a b jr s rl (path_store st')) (\<lambda>p. Inr (st'\<lparr>path_store := p\<rparr>)))"
    by (rule make_join_rel_legal [OF legal, of level st])
  have inv': "level_inv rels level L st' \<and> join_rel_level st' ! level \<noteq> []"
    by (rule build_join_rel_inv [OF inv _ build]) (rule x, simp add: bms_simps)
  have sj: "s = plain_join a b" if "plain pinfo" using that Some m s by (simp add: plain_legal)
  have "yields (\<lambda>e. \<not> (builds pb \<and> plain pinfo)) (\<lambda>_. True) (populate_joinrel_with_paths pb a b jr s rl (path_store st'))"
    using populate_plain [of pb a b jr a b rl "path_store st'"] by (auto simp: sj yields_def split: sum.split)
  then show ?thesis using inv' unfolding make by (auto intro!: yields_bind)
qed

lemma pair_step:
  assumes "level_inv rels level L st" "0 < j" "j < level" "r1 \<in> set (L j)" "r2 \<in> set (L (level - j))" "\<not> bms_overlap (relids r1) (relids r2)"
  shows "yields (\<lambda>e. \<not> (builds pb \<and> plain pinfo)) (\<lambda>st'. level_inv rels level L st' \<and> (plain pinfo \<longrightarrow> join_rel_level st' ! level \<noteq> []))
    (make_join_rel pb pinfo level r1 r2 st)"
  by (rule make_join_rel_inv [OF assms(1)]) (rule pair_joins [OF assms])

text \<open>A level on which every join of a pair leaves a relation, and which has a pair, is not empty in the end.\<close>

locale level_progress = level_invariant +
  assumes reach: "I st \<Longrightarrow> 0 < j \<Longrightarrow> j < level \<Longrightarrow> r1 \<in> set (L j) \<Longrightarrow> r2 \<in> set (L (level - j)) \<Longrightarrow> \<not> bms_overlap (relids r1) (relids r2) \<Longrightarrow>
      yields E (\<lambda>st'. join_rel_level st' ! level \<noteq> []) (make_join_rel pb pinfo level r1 r2 st)"
    and pair: "I st \<Longrightarrow> \<exists>r1\<in>set (L (level - 1)). \<exists>r2\<in>set (L 1). \<not> bms_overlap (relids r1) (relids r2)"
begin

lemma clauseless_reach:
  assumes "I st" "r1 \<in> set (L (level - 1))"
  shows "(\<exists>r2\<in>set (L 1). \<not> bms_overlap (relids r1) (relids r2)) \<or> join_rel_level st ! level \<noteq> [] \<Longrightarrow>
    yields E (\<lambda>st'. I st' \<and> join_rel_level st' ! level \<noteq> []) (make_rels_by_clauseless_joins pb pinfo level r1 (L 1) st)"
proof -
  let ?f = "\<lambda>x s. if \<not> bms_overlap (relids x) (relids r1) then make_join_rel pb pinfo level r1 x s else Inr s"
  have lev: "0 < level - 1" "level - 1 < level" "level - (level - 1) = 1" using two [OF assms(1)] by auto
  have keep: "yields E I (?f x s)" if "x \<in> set (L 1)" "I s" for x s
    using make [OF that(2) lev(1,2) assms(2)] that lev(3) by (auto simp: bms_simps Int_commute)
  have stay: "yields E (\<lambda>s. join_rel_level s ! level \<noteq> []) (?f x s)"
    if "x \<in> set (L 1)" "I s" "join_rel_level s ! level \<noteq> [] \<or> \<not> bms_overlap (relids r1) (relids x)" for x s
    using reach [OF that(2) lev(1,2) assms(2)] that lev(3) by (auto simp: bms_simps Int_commute)
  assume "(\<exists>r2\<in>set (L 1). \<not> bms_overlap (relids r1) (relids r2)) \<or> join_rel_level st ! level \<noteq> []"
  then show ?thesis
  proof
    assume "\<exists>r2\<in>set (L 1). \<not> bms_overlap (relids r1) (relids r2)"
    then obtain r2 where r2: "r2 \<in> set (L 1)" "\<not> bms_overlap (relids r1) (relids r2)" by blast
    show ?thesis unfolding make_rels_by_clauseless_joins_def
      by (rule yields_fold_reach [OF keep _ r2(1) _ assms(1)]) (use r2 stay in auto)
  next
    assume "join_rel_level st ! level \<noteq> []"
    then show ?thesis unfolding make_rels_by_clauseless_joins_def
      using assms(1) keep stay by (intro yields_fold yields_conj) auto
  qed
qed

lemma last_ditch_reach:
  assumes "I st"
  shows "yields E (\<lambda>st'. I st' \<and> join_rel_level st' ! level \<noteq> []) (clauseless_joins pb pinfo level st)"
proof -
  obtain r1 r2 where r: "r1 \<in> set (L (level - 1))" "r2 \<in> set (L 1)" "\<not> bms_overlap (relids r1) (relids r2)"
    using pair [OF assms] by blast
  have L: "join_rel_level st ! 1 = L 1" "join_rel_level st ! (level - 1) = L (level - 1)"
    using lower [OF assms] two [OF assms] by simp_all
  have keep: "yields E I (make_rels_by_clauseless_joins pb pinfo level x (L 1) s)" if "x \<in> set (L (level - 1))" "I s" for x s
    using clauseless [OF that(2) _ _ that(1), of "L 1"] two [OF assms] by simp
  have stay: "yields E (\<lambda>s. join_rel_level s ! level \<noteq> []) (make_rels_by_clauseless_joins pb pinfo level x (L 1) s)"
    if "x \<in> set (L (level - 1))" "I s" "join_rel_level s ! level \<noteq> [] \<or> x = r1" for x s
    using clauseless_reach [OF that(2,1)] that(3) r(2,3) by (auto intro: yields_mono)
  show ?thesis unfolding clauseless_joins_def L
    by (rule yields_fold_reach [OF keep _ r(1) _ assms]) (use stay r(1) in auto)
qed

lemma one_level_reach:
  assumes "I st"
  shows "yields E (\<lambda>st. I st \<and> join_rel_level st ! level \<noteq> []) (join_search_one_level pb pinfo level st)"
  unfolding join_search_one_level_def
proof (rule yields_bind [OF linear [OF assms]])
  fix s assume "I s"
  then have "yields E I (fold_result (bushy_joins pb pinfo level) [2..<Suc (level div 2)] s)"
    by (intro yields_fold bushy)
  then show "yields E (\<lambda>st. I st \<and> join_rel_level st ! level \<noteq> []) (bind_result (fold_result (bushy_joins pb pinfo level) [2..<Suc (level div 2)] s) (\<lambda>st.
      if join_rel_level st ! level = [] then bind_result (clauseless_joins pb pinfo level st)
        (\<lambda>st. if join_rel_level st ! level = [] \<and> join_info_list pinfo = [] \<and> \<not> hasLateralRTEs pinfo
          then Inl (Elog ''failed to build any N-way joins'') else Inr st) else Inr st))"
    by (rule yields_bind) (auto intro!: yields_bind [OF last_ditch_reach])
qed

end

interpretation lv: level_invariant pb pinfo level "\<lambda>_. True" "level_inv rels level L" L for pb pinfo level rels L
proof (unfold_locales, goal_cases)
  case (3 st j r1 r2)
  from pair_step [OF 3, of pb pinfo] show ?case by (auto simp: yields_def split: sum.splits)
qed (auto simp: level_inv_def)

definition progress_inv :: "'p path_builder \<Rightarrow> join_root \<Rightarrow> JoinRel list \<Rightarrow> nat \<Rightarrow> (nat \<Rightarrow> JoinRel list) \<Rightarrow> 'p join_state \<Rightarrow> bool" where
  "progress_inv pb pinfo rels level L st \<longleftrightarrow> plain pinfo \<and> L (level - 1) \<noteq> [] \<and> level_inv rels level L st"

interpretation pg: level_progress pb pinfo level "\<lambda>_. \<not> builds pb" "progress_inv pb pinfo rels level L" L for pb pinfo level rels L
proof (unfold_locales, goal_cases)
  case (3 st j r1 r2)
  then have inv: "level_inv rels level L st" and p: "plain pinfo" "L (level - 1) \<noteq> []" by (simp_all add: progress_inv_def)
  from pair_step [OF inv 3(2-), of pb pinfo] p show ?case
    by (auto simp: progress_inv_def intro: yields_mono)
next
  case (4 st j r1 r2)
  then have inv: "level_inv rels level L st" and p: "plain pinfo" by (simp_all add: progress_inv_def)
  from pair_step [OF inv 4(2-), of pb pinfo] p show ?case by (auto intro: yields_mono)
next
  case (5 st)
  then have lev: "2 \<le> level" "level \<le> length rels" and L: "L 1 = rels" "L (level - 1) = join_rel_level st ! (level - 1)"
    and s: "search_inv rels level st" and ne: "L (level - 1) \<noteq> []"
    by (auto simp: progress_inv_def level_inv_def search_inv_def)
  from ne obtain r where r: "r \<in> set (L (level - 1))" by (cases "L (level - 1)") auto
  then have j: "joins rels (level - 1) r" using search_invD(5) [OF s, of "level - 1" r] lev L(2) by simp
  have "level - 1 < length rels" using lev by simp
  then obtain i where "i < length rels" "members (relids r) \<inter> members (relids (rels ! i)) = {}"
    by (rule joins_missing [OF search_invD(1) [OF s] j])
  with r L(1) show ?case by (intro bexI [OF _ r] bexI [of _ "rels ! i"]) (auto simp: bms_simps)
qed (auto simp: progress_inv_def level_inv_def)

subsection \<open>The whole search\<close>

definition finishes :: "(JoinRel \<Rightarrow> 'p \<Rightarrow> 'p result) \<Rightarrow> bool" where
  "finishes finish \<longleftrightarrow> (\<forall>rel p. \<exists>p'. finish rel p = Inr p')"

lemma finish_fold:
  assumes "\<And>st p. P (st\<lparr>path_store := p\<rparr>) = P st" "P st"
  shows "yields (\<lambda>_. \<not> finishes finish) P (fold_result (\<lambda>rel st. bind_result (finish rel (path_store st)) (\<lambda>p. Inr (st\<lparr>path_store := p\<rparr>))) rels st)"
proof (rule yields_fold [where P = P, OF _ assms(2)])
  fix rel s assume "P s"
  moreover have "yields (\<lambda>_. \<not> finishes finish) (\<lambda>_. True) (finish rel (path_store s))"
    by (auto simp: yields_def finishes_def split: sum.split) (metis Inl_Inr_False)
  ultimately show "yields (\<lambda>_. \<not> finishes finish) P (bind_result (finish rel (path_store s)) (\<lambda>p. Inr (s\<lparr>path_store := p\<rparr>)))"
    using assms(1) by (auto intro!: yields_bind)
qed

lemma search_inv_next:
  assumes "search_inv rels (lev - 1) st" "2 \<le> lev" "lev \<le> length rels"
  shows "level_inv rels lev (\<lambda>j. join_rel_level st ! j) st"
proof -
  have "\<forall>j. lev < j \<and> j \<le> length rels \<longrightarrow> join_rel_level st ! j = []" by (auto intro: search_invD(7) [OF assms(1)])
  with assms show ?thesis unfolding level_inv_def search_inv_def by blast
qed

lemma yields_weaken: "yields E P r \<Longrightarrow> (\<And>e. E e \<Longrightarrow> E' e) \<Longrightarrow> yields E' P r"
  by (cases r) auto

lemma search_level_inv:
  fixes pb :: "'p path_builder"
  assumes "search_inv rels (lev - 1) st" "2 \<le> lev" "lev \<le> length rels"
  shows "yields (\<lambda>_. True) (search_inv rels lev) (search_level pb finish pinfo lev st)"
  unfolding search_level_def
proof (rule yields_bind [OF lv.one_level [OF search_inv_next [OF assms]]])
  fix s :: "'p join_state" assume "level_inv rels lev (\<lambda>j. join_rel_level st ! j) s"
  then have "search_inv rels lev s" by (simp add: level_inv_def)
  then show "yields (\<lambda>_. True) (search_inv rels lev) (fold_result (\<lambda>rel st. bind_result (finish rel (path_store st)) (\<lambda>p. Inr (st\<lparr>path_store := p\<rparr>)))
      (join_rel_level s ! lev) s)"
    by (intro yields_weaken [OF finish_fold]) simp_all
qed simp

lemma search_level_progress:
  fixes pb :: "'p path_builder"
  assumes "search_inv rels (lev - 1) st" "2 \<le> lev" "lev \<le> length rels" "plain pinfo" "join_rel_level st ! (lev - 1) \<noteq> []"
  shows "yields (\<lambda>_. \<not> (builds pb \<and> finishes finish)) (\<lambda>st. search_inv rels lev st \<and> join_rel_level st ! lev \<noteq> []) (search_level pb finish pinfo lev st)"
  unfolding search_level_def
proof (rule yields_bind)
  have "progress_inv pb pinfo rels lev (\<lambda>j. join_rel_level st ! j) st"
    using search_inv_next [OF assms(1-3)] assms(4,5) by (simp add: progress_inv_def)
  from pg.one_level_reach [OF this]
  show "yields (\<lambda>_. \<not> (builds pb \<and> finishes finish)) (\<lambda>st. search_inv rels lev st \<and> join_rel_level st ! lev \<noteq> []) (join_search_one_level pb pinfo lev st)"
    by (rule yields_weaken [OF yields_mono]) (simp_all add: progress_inv_def level_inv_def)
  fix s :: "'p join_state" assume "search_inv rels lev s \<and> join_rel_level s ! lev \<noteq> []"
  then show "yields (\<lambda>_. \<not> (builds pb \<and> finishes finish)) (\<lambda>st. search_inv rels lev st \<and> join_rel_level st ! lev \<noteq> [])
      (fold_result (\<lambda>rel st. bind_result (finish rel (path_store st)) (\<lambda>p. Inr (st\<lparr>path_store := p\<rparr>))) (join_rel_level s ! lev) s)"
    by (intro yields_weaken [OF finish_fold]) simp_all
qed

text \<open>Levels are filled in order.\<close>

lemma yields_levels:
  assumes "\<And>lev st. a \<le> lev \<Longrightarrow> lev < b \<Longrightarrow> P lev st \<Longrightarrow> yields E (P (Suc lev)) (f lev st)" "P a st" "a \<le> b"
  shows "yields E (P b) (fold_result f [a..<b] st)"
  using assms
proof (induction "b - a" arbitrary: a st)
  case 0
  then show ?case by simp
next
  case (Suc k)
  then have "[a..<b] = a # [Suc a..<b]" by (simp add: upt_conv_Cons)
  moreover have "yields E (P b) (bind_result (f a st) (fold_result f [Suc a..<b]))"
    using Suc by (intro yields_bind [where P = "P (Suc a)"]) auto
  ultimately show ?case by simp
qed

lemma search_start:
  assumes "separate rels" "rels \<noteq> []" "\<forall>r\<in>set rel_list. \<forall>j\<ge>2. \<not> joins rels j r"
  shows "search_inv rels 1 \<lparr>join_rel_list = rel_list, join_rel_level = [[], rels] @ replicate (length rels - 1) [], path_store = p\<rparr>"
proof -
  define lv where "lv = [[], rels] @ replicate (length rels - 1) []"
  have lv: "length lv = Suc (length rels)" "\<And>j. j \<le> length rels \<Longrightarrow> lv ! j = (if j = 1 then rels else [])"
    using assms(2) by (auto simp: lv_def nth_Cons' Suc_leI)
  have one: "1 \<le> length rels" using assms(2) by (simp add: Suc_leI)
  have dist: "distinct (map (members \<circ> relids) rels)"
    using assms(1) by (auto simp: distinct_conv_nth separate_def)
  have first: "joins rels 1 r" if "r \<in> set rels" for r using that joins_initial [OF assms(1)] by (auto simp: in_set_conv_nth)
  show ?thesis
    unfolding search_inv_def join_state.simps lv_def [symmetric]
  proof (intro conjI allI ballI impI)
    show "separate rels" "length lv = Suc (length rels)" "lv ! 1 = rels" using assms(1) lv one by simp_all
    fix j assume j: "0 < j \<and> j \<le> length rels"
    show "distinct (map (members \<circ> relids) (lv ! j))" using dist j by (simp add: lv)
    fix r assume "r \<in> set (lv ! j)"
    with j first show "joins rels j r" "2 \<le> j \<Longrightarrow> r \<in> set rel_list" by (auto simp: lv split: if_splits)
  qed (use assms(3) lv in auto)
qed

lemma first_of_level:
  assumes "bind_result r (\<lambda>st. case f st of [] \<Rightarrow> Inl e | rel # _ \<Rightarrow> Inr (rel, st)) = Inr (rel, st)"
  shows "r = Inr st" "\<exists>rest. f st = rel # rest"
  using assms by (cases r; auto split: list.splits)+

lemma join_search_inv:
  assumes "separate rels" "rels \<noteq> []" "\<forall>r\<in>set rel_list. \<forall>j\<ge>2. \<not> joins rels j r"
    and "join_search pb finish pinfo (length rels) rels rel_list p = Inr (rel, st)"
  shows "search_inv rels (length rels) st" "rel \<in> set (join_rel_level st ! length rels)"
proof -
  have "yields (\<lambda>_. True) (\<lambda>st. search_inv rels (Suc (length rels) - 1) st)
      (fold_result (search_level pb finish pinfo) [2..<Suc (length rels)]
        \<lparr>join_rel_list = rel_list, join_rel_level = [[], rels] @ replicate (length rels - 1) [], path_store = p\<rparr>)"
  proof (rule yields_levels [where P = "\<lambda>lev. search_inv rels (lev - 1)"])
    show "yields (\<lambda>_. True) (search_inv rels (Suc lev - 1)) (search_level pb finish pinfo lev st)"
      if "2 \<le> lev" "lev < Suc (length rels)" "search_inv rels (lev - 1) st" for lev st
      using search_level_inv [OF that(3,1)] that(2) by simp
    show "2 \<le> Suc (length rels)" using assms(2) by (simp add: Suc_leI)
  qed (use search_start [OF assms(1-3)] in simp)
  then show "search_inv rels (length rels) st" "rel \<in> set (join_rel_level st ! length rels)"
    using first_of_level [OF assms(4) [unfolded join_search_def]] by auto
qed

lemma join_search_progress:
  assumes "separate rels" "rels \<noteq> []" "\<forall>r\<in>set rel_list. \<forall>j\<ge>2. \<not> joins rels j r" "plain pinfo" "builds pb" "finishes finish"
  shows "\<exists>rel st. join_search pb finish pinfo (length rels) rels rel_list p = Inr (rel, st)"
proof -
  let ?st0 = "\<lparr>join_rel_list = rel_list, join_rel_level = [[], rels] @ replicate (length rels - 1) [], path_store = p\<rparr>"
  have "yields (\<lambda>_. \<not> (builds pb \<and> finishes finish))
      (\<lambda>st. search_inv rels (Suc (length rels) - 1) st \<and> join_rel_level st ! (Suc (length rels) - 1) \<noteq> [])
      (fold_result (search_level pb finish pinfo) [2..<Suc (length rels)] ?st0)"
  proof (rule yields_levels [where P = "\<lambda>lev st. search_inv rels (lev - 1) st \<and> join_rel_level st ! (lev - 1) \<noteq> []"])
    show "yields (\<lambda>_. \<not> (builds pb \<and> finishes finish)) (\<lambda>st. search_inv rels (Suc lev - 1) st \<and> join_rel_level st ! (Suc lev - 1) \<noteq> [])
        (search_level pb finish pinfo lev st)"
      if "2 \<le> lev" "lev < Suc (length rels)" "search_inv rels (lev - 1) st \<and> join_rel_level st ! (lev - 1) \<noteq> []" for lev st
      using search_level_progress [OF conjunct1 [OF that(3)] that(1) _ assms(4)] that by simp
    show "2 \<le> Suc (length rels)" using assms(2) by (simp add: Suc_leI)
  qed (use search_start [OF assms(1-3)] assms(2) in simp)
  with assms(5,6) obtain st where "fold_result (search_level pb finish pinfo) [2..<Suc (length rels)] ?st0 = Inr st"
    "join_rel_level st ! length rels \<noteq> []"
    by (auto simp: yields_def split: sum.splits)
  then show ?thesis by (auto simp: join_search_def neq_Nil_conv)
qed

lemma one_of_all:
  assumes "distinct (map f xs)" "\<forall>y\<in>set xs. f y = c" "x \<in> set xs"
  shows "xs = [x]"
proof (cases xs)
  case (Cons y ys)
  with assms have "ys = []" by (cases ys) auto
  with Cons assms(3) show ?thesis by simp
qed (use assms in simp)

lemma final_level:
  assumes "search_inv rels (length rels) st" "rels \<noteq> []" "rel \<in> set (join_rel_level st ! length rels)"
  shows "join_rel_level st ! length rels = [rel]" "members (relids rel) = (\<Union>r\<in>set rels. members (relids r))"
proof -
  have all: "members (relids r) = (\<Union>r\<in>set rels. members (relids r))" if "r \<in> set (join_rel_level st ! length rels)" for r
    using search_invD(5) [OF assms(1) _ _ that] assms(2) by (intro joins_all) simp
  from all [OF assms(3)] show "members (relids rel) = (\<Union>r\<in>set rels. members (relids r))" .
  show "join_rel_level st ! length rels = [rel]"
  proof (rule one_of_all [OF search_invD(4) [OF assms(1)] _ assms(3)])
    show "\<forall>r\<in>set (join_rel_level st ! length rels). (members \<circ> relids) r = (\<Union>r\<in>set rels. members (relids r))" using all by simp
  qed (use assms(2) in simp_all)
qed

subsection \<open>The legality test is symmetric\<close>

lemma rhs_step_cong:
  assumes "members x = members y"
  shows "members (fst (rhs_step sj (x, b))) = members (fst (rhs_step sj (y, b)))" "snd (rhs_step sj (x, b)) = snd (rhs_step sj (y, b))"
  using assms unfolding rhs_step_def Let_def prod.case by (simp_all add: bms_simps)

lemma rhs_fold_cong:
  assumes "members x = members y"
  shows "members (fst (fold rhs_step sjs (x, b))) = members (fst (fold rhs_step sjs (y, b))) \<and>
    snd (fold rhs_step sjs (x, b)) = snd (fold rhs_step sjs (y, b))"
  using assms
proof (induction sjs arbitrary: x y b)
  case (Cons sj sjs)
  note step = rhs_step_cong [OF Cons.prems, of sj b]
  show ?case using Cons.IH [OF step(1), of "snd (rhs_step sj (x, b))"] step(2)
    by (cases "rhs_step sj (x, b)"; cases "rhs_step sj (y, b)") simp
qed simp

lemma rhs_closure_cong: "members x = members y \<Longrightarrow> members (rhs_closure sjs x) = members (rhs_closure sjs y)"
proof (induction sjs x arbitrary: y rule: rhs_closure.induct)
  case (1 sjs x)
  obtain x' b where x': "rhs_pass sjs x = (x', b)" by fastforce
  obtain y' c where y': "rhs_pass sjs y = (y', c)" by fastforce
  have m: "members x' = members y'" "c = b"
    using rhs_fold_cong [OF 1(2), of sjs False] x' y' by (simp_all add: rhs_pass_def)
  have "b \<Longrightarrow> members (rhs_closure sjs x') = members (rhs_closure sjs y')"
    using 1(1) [OF x' [symmetric] refl _ m(1)] by simp
  then show ?case unfolding rhs_closure.simps [of sjs x] rhs_closure.simps [of sjs y] x' y' using m by simp
qed

definition mirrored :: "legal_state \<Rightarrow> legal_state" where
  "mirrored st = (case st of (m, reversed, u, l) \<Rightarrow> (m, if m = None then reversed else \<not> reversed, u, l))"

lemma legal_step_reversed:
  assumes "legal_step uniq r1 r2 x sj (m, reversed, u, l) = Some (m', reversed', u', l')" "m = None \<longrightarrow> \<not> reversed"
  shows "m' = None \<longrightarrow> \<not> reversed'"
  using assms unfolding legal_step_def Let_def prod.case by (auto split: if_split_asm)

lemma legal_step_sym:
  assumes "\<not> bms_overlap (relids r1) (relids r2)" "members x = members (relids r1) \<union> members (relids r2)" "members y = members x"
    and "m = None \<longrightarrow> \<not> reversed"
  shows "legal_step uniq r2 r1 y sj (mirrored (m, reversed, u, l)) = map_option mirrored (legal_step uniq r1 r2 x sj (m, reversed, u, l))"
proof -
  let ?A = "members (relids r1)" and ?B = "members (relids r2)" and ?L = "members (min_lefthand sj)" and ?R = "members (min_righthand sj)"
    and ?S = "members (syn_righthand sj)"
  have dis: "?A \<inter> ?B = {}" using assms(1) by (simp add: bms_simps)
  show ?thesis
  proof (cases "?R \<inter> (?A \<union> ?B) = {}")
    case True
    then show ?thesis using assms(2,3) by (simp add: legal_step_def bms_simps mirrored_def)
  next
    case False
    define a1 a2 b1 b2 e1 e2 s1 s2 where atoms: "a1 = (?L \<subseteq> ?A)" "a2 = (?L \<subseteq> ?B)" "b1 = (?R \<subseteq> ?A)" "b2 = (?R \<subseteq> ?B)"
      "e1 = (?S = ?A)" "e2 = (?S = ?B)" "s1 = (?S \<subseteq> ?A)" "s2 = (?S \<subseteq> ?B)"
    define ov sb o1 o2 ol where more_atoms: "ov = (?R \<inter> members x = {})" "sb = (members x \<subseteq> ?R)" "o1 = (?A \<inter> ?R = {})" "o2 = (?B \<inter> ?R = {})"
      "ol = (members x \<inter> ?L = {})"
    have "\<not> (b2 \<and> b1)" "\<not> (e1 \<and> e2)" "\<not> ov" using False dis assms(2) by (auto simp: atoms more_atoms)
    then show ?thesis
      unfolding legal_step_def Let_def mirrored_def prod.case overlap_iff equal_iff is_subset_iff assms(3) atoms [symmetric] more_atoms [symmetric]
      using assms(4) by (cases m; cases e1; cases e2; cases b1; cases b2; cases a1; cases a2; auto)
  qed
qed

lemma legal_loop_sym:
  assumes "\<not> bms_overlap (relids r1) (relids r2)" "members x = members (relids r1) \<union> members (relids r2)" "members y = members x"
    and "m = None \<longrightarrow> \<not> reversed"
  shows "legal_loop uniq r2 r1 y sjs (mirrored (m, reversed, u, l)) = map_option mirrored (legal_loop uniq r1 r2 x sjs (m, reversed, u, l))"
  using assms(4)
proof (induction sjs arbitrary: m reversed u l)
  case (Cons sj sjs)
  note step = legal_step_sym [OF assms(1-3) Cons.prems, of uniq sj u l]
  show ?case
  proof (cases "legal_step uniq r1 r2 x sj (m, reversed, u, l)")
    case (Some st)
    obtain m' reversed' u' l' where st: "st = (m', reversed', u', l')" by (metis prod_cases4)
    show ?thesis using step Some Cons.IH [OF legal_step_reversed [OF Some [unfolded st] Cons.prems]] by (simp add: st)
  qed (use step in simp)
qed simp

lemma legal_loop_reversed:
  "legal_loop uniq r1 r2 x sjs (m, reversed, u, l) = Some (m', reversed', u', l') \<Longrightarrow> m = None \<longrightarrow> \<not> reversed \<Longrightarrow> m' = None \<longrightarrow> \<not> reversed'"
proof (induction sjs arbitrary: m reversed u l)
  case (Cons sj sjs)
  then obtain m1 reversed1 u1 l1 where step: "legal_step uniq r1 r2 x sj (m, reversed, u, l) = Some (m1, reversed1, u1, l1)"
    by (auto split: option.splits)
  show ?case using Cons.IH [OF _ legal_step_reversed [OF step Cons.prems(2)]] Cons.prems(1) step by simp
qed simp

lemma min_join_parameterization_None: "min_join_parameterization x r1 r2 = None \<longleftrightarrow> members (min_join_parameterization x r1 r2) = {}"
  by (auto simp: min_join_parameterization_def Let_def is_empty_iff)

lemma min_join_parameterization_sym:
  assumes "members y = members x"
  shows "members (min_join_parameterization y r2 r1) = members (min_join_parameterization x r1 r2)"
    "min_join_parameterization y r2 r1 = None \<longleftrightarrow> min_join_parameterization x r1 r2 = None"
proof -
  show eq: "members (min_join_parameterization y r2 r1) = members (min_join_parameterization x r1 r2)"
    using assms by (auto simp: min_join_parameterization_def Let_def bms_simps)
  show "min_join_parameterization y r2 r1 = None \<longleftrightarrow> min_join_parameterization x r1 r2 = None"
    unfolding min_join_parameterization_None eq ..
qed

lemma lateral_legal_sym:
  assumes "members y = members x" "m = None \<longrightarrow> \<not> reversed"
  shows "lateral_legal pinfo r2 r1 y m (if m = None then reversed else \<not> reversed) u = lateral_legal pinfo r1 r2 x m reversed u"
proof -
  note params = min_join_parameterization_sym [OF assms(1), of r2 r1]
  have closure: "members (rhs_closure (join_info_list pinfo) (bms_copy y)) = members (rhs_closure (join_info_list pinfo) (bms_copy x))"
    using assms(1) by (intro rhs_closure_cong) (simp add: bms_simps)
  show ?thesis using assms(2) params closure by (cases m) (auto simp: lateral_legal_def Let_def overlap_iff)
qed

text \<open>Whether two disjoint relations may be joined does not depend on the order in which they are given: with the relations swapped,
  \<open>join_is_legal\<close> gives the same answer and the same special join, with the opposite direction.\<close>

lemma join_is_legal_symmetric:
  assumes "\<not> bms_overlap (relids r1) (relids r2)"
  shows "join_is_legal uniq pinfo r2 r1 (bms_union (relids r2) (relids r1)) =
    map_option (\<lambda>(m, reversed). (m, if m = None then reversed else \<not> reversed)) (join_is_legal uniq pinfo r1 r2 (bms_union (relids r1) (relids r2)))"
proof -
  let ?x = "bms_union (relids r1) (relids r2)" and ?y = "bms_union (relids r2) (relids r1)"
  have xy: "members ?x = members (relids r1) \<union> members (relids r2)" "members ?y = members ?x" by (auto simp: bms_simps)
  note loop = legal_loop_sym [OF assms xy, of None False uniq "join_info_list pinfo" False False, unfolded mirrored_def, simplified]
  show ?thesis
  proof (cases "legal_loop uniq r1 r2 ?x (join_info_list pinfo) (None, False, False, False)")
    case (Some st)
    obtain m reversed u l where st: "st = (m, reversed, u, l)" by (metis prod_cases4)
    with Some have none: "m = None \<longrightarrow> \<not> reversed" using legal_loop_reversed by blast
    show ?thesis using loop Some lateral_legal_sym [OF xy(2) none, of pinfo r2 r1 u] by (simp add: st join_is_legal_def)
  qed (use loop in \<open>simp add: join_is_legal_def\<close>)
qed

subsection \<open>Special joins are done in order\<close>

text \<open>A set of relations respects a special join if it does not reach both sides of it before both are complete; the nullable side of a join that
  is not a left join is never joined with anything else before.\<close>

definition sj_respected :: "SpecialJoinInfo \<Rightarrow> nat set \<Rightarrow> bool" where
  "sj_respected sj X \<longleftrightarrow> X \<inter> members (min_righthand sj) = {} \<or> members (min_lefthand sj) \<union> members (min_righthand sj) \<subseteq> X \<or>
     (if jointype sj = JOIN_LEFT then X \<inter> members (min_lefthand sj) = {} else X \<subseteq> members (min_righthand sj))"

definition ordered :: "join_root \<Rightarrow> JoinRel \<Rightarrow> bool" where
  "ordered pinfo r \<longleftrightarrow> (\<forall>sj\<in>set (join_info_list pinfo). jointype sj \<noteq> JOIN_SEMI \<longrightarrow> sj_respected sj (members (relids r)))"

definition sides_apart :: "join_root \<Rightarrow> bool" where
  "sides_apart pinfo \<longleftrightarrow> (\<forall>sj\<in>set (join_info_list pinfo). members (min_lefthand sj) \<inter> members (min_righthand sj) = {})"

definition kept :: "join_root \<Rightarrow> 'p join_state \<Rightarrow> bool" where
  "kept pinfo st \<longleftrightarrow> (\<forall>r\<in>set (join_rel_list st). ordered pinfo r) \<and> (\<forall>rs\<in>set (join_rel_level st). \<forall>r\<in>set rs. ordered pinfo r)"

lemma legal_step_respects:
  assumes "legal_step uniq r1 r2 x sj st \<noteq> None" "jointype sj \<noteq> JOIN_SEMI" "members x = members (relids r1) \<union> members (relids r2)"
    and "sj_respected sj (members (relids r1))" "sj_respected sj (members (relids r2))" "members (min_lefthand sj) \<inter> members (min_righthand sj) = {}"
  shows "sj_respected sj (members x)"
proof (rule ccontr)
  let ?A = "members (relids r1)" and ?B = "members (relids r2)" and ?L = "members (min_lefthand sj)" and ?R = "members (min_righthand sj)"
  assume bad: "\<not> sj_respected sj (members x)"
  then have "?R \<inter> members x \<noteq> {}" "\<not> (?L \<subseteq> members x \<and> ?R \<subseteq> members x)" and left: "jointype sj \<noteq> JOIN_LEFT \<or> members x \<inter> ?L \<noteq> {}"
    and other: "jointype sj = JOIN_LEFT \<or> \<not> members x \<subseteq> ?R"
    unfolding sj_respected_def by (auto split: if_splits)
  moreover from left other have "\<not> members x \<subseteq> ?R" using assms(6) by blast
  ultimately have no: "?R \<inter> members x \<noteq> {}" "\<not> members x \<subseteq> ?R" "\<not> (?L \<subseteq> ?A \<and> ?R \<subseteq> ?A)" "\<not> (?L \<subseteq> ?B \<and> ?R \<subseteq> ?B)"
    "\<not> (?L \<subseteq> ?A \<and> ?R \<subseteq> ?B)" "\<not> (?L \<subseteq> ?B \<and> ?R \<subseteq> ?A)"
    using assms(3) by blast+
  have apart: "?A \<inter> ?R = {} \<or> ?B \<inter> ?R = {}"
  proof (rule ccontr)
    assume "\<not> ?thesis"
    then have "if jointype sj = JOIN_LEFT then ?A \<inter> ?L = {} \<and> ?B \<inter> ?L = {} else ?A \<subseteq> ?R \<and> ?B \<subseteq> ?R"
      using assms(4,5) no(3,4) unfolding sj_respected_def by (cases "jointype sj = JOIN_LEFT") simp_all
    then show False using no(2) left assms(3) by (cases "jointype sj = JOIN_LEFT") auto
  qed
  obtain m reversed u l where st: "st = (m, reversed, u, l)" by (metis prod_cases4)
  have "legal_step uniq r1 r2 x sj st = None"
    unfolding legal_step_def Let_def st prod.case overlap_iff is_subset_iff using no left apart assms(2) by (simp only: simp_thms if_True if_False) simp
  with assms(1) show False by simp
qed

lemma legal_loop_steps: "legal_loop uniq r1 r2 x sjs st \<noteq> None \<Longrightarrow> sj \<in> set sjs \<Longrightarrow> \<exists>st. legal_step uniq r1 r2 x sj st \<noteq> None"
proof (induction sjs arbitrary: st)
  case (Cons sj' sjs)
  then obtain st' where "legal_step uniq r1 r2 x sj' st = Some st'" "legal_loop uniq r1 r2 x sjs st' \<noteq> None"
    by (cases "legal_step uniq r1 r2 x sj' st") simp_all
  then show ?case using Cons.IH [of st'] Cons.prems(2) by (metis option.discI set_ConsD)
qed simp

lemma join_is_legal_ordered:
  assumes "join_is_legal uniq pinfo r1 r2 x = Some m" "members x = members (relids r1) \<union> members (relids r2)" "members (relids r) = members x"
    and "sides_apart pinfo" "ordered pinfo r1" "ordered pinfo r2"
  shows "ordered pinfo r"
  unfolding ordered_def
proof (intro ballI impI)
  fix sj assume sj: "sj \<in> set (join_info_list pinfo)" "jointype sj \<noteq> JOIN_SEMI"
  have "legal_loop uniq r1 r2 x (join_info_list pinfo) (None, False, False, False) \<noteq> None"
    using assms(1) unfolding join_is_legal_def by (rule contrapos_pn) simp
  from legal_loop_steps [OF this sj(1)] obtain st where st: "legal_step uniq r1 r2 x sj st \<noteq> None" by blast
  show "sj_respected sj (members (relids r))"
    using legal_step_respects [OF st sj(2) assms(2)] sj assms(3-6) by (simp add: ordered_def sides_apart_def)
qed

lemma build_join_rel_kept:
  assumes "kept pinfo st" "level < length (join_rel_level st)" "\<And>r. members (relids r) = members x \<Longrightarrow> ordered pinfo r"
    and "build_join_rel pb pinfo level x r1 r2 sj st = (jr, rl, st')"
  shows "kept pinfo st'"
proof (cases "find_join_rel st x")
  case (Some r)
  then show ?thesis using assms(1,4) by (simp add: build_join_rel_def)
next
  case None
  define new where "new = new_join_rel pinfo x r1 r2"
  have "ordered pinfo new" by (rule assms(3)) (simp add: new_def)
  moreover have "\<forall>r\<in>set (join_rel_level st ! level). ordered pinfo r" using assms(1,2) by (auto simp: kept_def)
  moreover have st': "join_rel_list st' = join_rel_list st @ [new]" "join_rel_level st' = (join_rel_level st)[level := join_rel_level st ! level @ [new]]"
    using assms(4) None by (auto simp: build_join_rel_def new_def Let_def)
  moreover have "set (join_rel_level st') \<subseteq> insert (join_rel_level st ! level @ [new]) (set (join_rel_level st))"
    unfolding st' by (rule set_update_subset_insert)
  ultimately have "\<forall>rs\<in>set (join_rel_level st'). \<forall>r\<in>set rs. ordered pinfo r"
    using assms(1) by (intro ballI) (elim subsetD [THEN insertE], auto simp: kept_def)
  moreover have "\<forall>r\<in>set (join_rel_list st'). ordered pinfo r"
    using assms(1) \<open>ordered pinfo new\<close> by (simp add: st'(1) kept_def)
  ultimately show ?thesis by (simp add: kept_def)
qed

lemma kept_store [simp]: "kept pinfo (st\<lparr>path_store := p\<rparr>) = kept pinfo st"
  by (simp add: kept_def)

lemma make_join_rel_kept:
  assumes "kept pinfo st" "level < length (join_rel_level st)" "sides_apart pinfo" "ordered pinfo r1" "ordered pinfo r2"
  shows "yields (\<lambda>_. True) (kept pinfo) (make_join_rel pb pinfo level r1 r2 st)"
proof (cases "join_is_legal (can_unique pb) pinfo r1 r2 (bms_union (relids r1) (relids r2))")
  case None
  then show ?thesis using assms(1) by (simp add: make_join_rel_def)
next
  case (Some m)
  have "ordered pinfo r" if "members (relids r) = members (bms_union (relids r1) (relids r2))" for r
    by (rule join_is_legal_ordered [OF Some _ that assms(3-5)]) (simp add: bms_simps)
  note kept = build_join_rel_kept [OF assms(1,2) this]
  obtain sj reversed where m: "m = (sj, reversed)" by fastforce
  show ?thesis
  proof (rule make_join_rel_legal [OF Some [unfolded m], where level = level and st = st])
    fix a b s jr rl and st' :: "'a join_state"
    assume "build_join_rel pb pinfo level (bms_union (relids r1) (relids r2)) a b s st = (jr, rl, st')"
      and "make_join_rel pb pinfo level r1 r2 st = (if is_dummy_rel pb jr (path_store st') then Inr st'
        else bind_result (populate_joinrel_with_paths pb a b jr s rl (path_store st')) (\<lambda>p. Inr (st'\<lparr>path_store := p\<rparr>)))"
    then show ?thesis using kept by (cases "populate_joinrel_with_paths pb a b jr s rl (path_store st')") auto
  qed
qed

definition order_inv :: "join_root \<Rightarrow> JoinRel list \<Rightarrow> nat \<Rightarrow> (nat \<Rightarrow> JoinRel list) \<Rightarrow> 'p join_state \<Rightarrow> bool" where
  "order_inv pinfo rels level L st \<longleftrightarrow> sides_apart pinfo \<and> kept pinfo st \<and> level_inv rels level L st"

lemma level_ordered:
  assumes "kept pinfo st" "level_inv rels level L st" "j < level" "r \<in> set (L j)"
  shows "ordered pinfo r"
proof -
  have "join_rel_level st ! j = L j" "j < length (join_rel_level st)"
    using assms(2,3) search_invD(2) [of rels level st] by (simp_all add: level_inv_def)
  then have "L j \<in> set (join_rel_level st)" by (metis nth_mem)
  then show ?thesis using assms(1,4) by (simp add: kept_def)
qed

interpretation od: level_invariant pb pinfo level "\<lambda>_. True" "order_inv pinfo rels level L" L for pb pinfo level rels L
proof (unfold_locales, goal_cases)
  case (3 st j r1 r2)
  then have inv: "kept pinfo st" "level_inv rels level L st" "sides_apart pinfo" by (simp_all add: order_inv_def)
  have "level < length (join_rel_level st)" using inv(2) search_invD(2) [of rels level st] by (simp add: level_inv_def)
  moreover have "ordered pinfo r1" "ordered pinfo r2" using level_ordered [OF inv(1,2) _ 3(4)] level_ordered [OF inv(1,2) _ 3(5)] 3(2,3) by simp_all
  ultimately have "yields (\<lambda>_. True) (kept pinfo) (make_join_rel pb pinfo level r1 r2 st)" using inv by (intro make_join_rel_kept)
  moreover have "yields (\<lambda>_. True) (level_inv rels level L) (make_join_rel pb pinfo level r1 r2 st)" by (rule lv.make [OF inv(2) 3(2-)])
  ultimately show ?case using inv(3) unfolding order_inv_def by (intro yields_conj) (auto simp: yields_def split: sum.split)
qed (auto simp: order_inv_def level_inv_def)

lemma search_level_order:
  fixes pb :: "'p path_builder"
  assumes "search_inv rels (lev - 1) st" "2 \<le> lev" "lev \<le> length rels" "sides_apart pinfo" "kept pinfo st"
  shows "yields (\<lambda>_. True) (\<lambda>st. search_inv rels lev st \<and> kept pinfo st) (search_level pb finish pinfo lev st)"
  unfolding search_level_def
proof (rule yields_bind)
  have "order_inv pinfo rels lev (\<lambda>j. join_rel_level st ! j) st"
    using search_inv_next [OF assms(1-3)] assms(4,5) by (simp add: order_inv_def)
  from od.one_level [OF this]
  show "yields (\<lambda>_. True) (\<lambda>st. search_inv rels lev st \<and> kept pinfo st) (join_search_one_level pb pinfo lev st)"
    by (rule yields_mono) (simp_all add: order_inv_def level_inv_def)
  fix s :: "'p join_state" assume "search_inv rels lev s \<and> kept pinfo s"
  then show "yields (\<lambda>_. True) (\<lambda>st. search_inv rels lev st \<and> kept pinfo st)
      (fold_result (\<lambda>rel st. bind_result (finish rel (path_store st)) (\<lambda>p. Inr (st\<lparr>path_store := p\<rparr>))) (join_rel_level s ! lev) s)"
    by (intro yields_weaken [OF finish_fold]) simp_all
qed

lemma join_search_kept:
  assumes "separate rels" "rels \<noteq> []" "\<forall>r\<in>set rel_list. \<forall>j\<ge>2. \<not> joins rels j r" "sides_apart pinfo"
    and "\<forall>r\<in>set rels \<union> set rel_list. ordered pinfo r"
    and "join_search pb finish pinfo (length rels) rels rel_list p = Inr (rel, st)"
  shows "kept pinfo st"
proof -
  let ?st0 = "\<lparr>join_rel_list = rel_list, join_rel_level = [[], rels] @ replicate (length rels - 1) [], path_store = p\<rparr>"
  have "yields (\<lambda>_. True) (\<lambda>st. search_inv rels (Suc (length rels) - 1) st \<and> kept pinfo st)
      (fold_result (search_level pb finish pinfo) [2..<Suc (length rels)] ?st0)"
  proof (rule yields_levels [where P = "\<lambda>lev st. search_inv rels (lev - 1) st \<and> kept pinfo st"])
    show "yields (\<lambda>_. True) (\<lambda>st. search_inv rels (Suc lev - 1) st \<and> kept pinfo st) (search_level pb finish pinfo lev st)"
      if "2 \<le> lev" "lev < Suc (length rels)" "search_inv rels (lev - 1) st \<and> kept pinfo st" for lev st
      using search_level_order [OF conjunct1 [OF that(3)] that(1) _ assms(4)] that by simp
    show "2 \<le> Suc (length rels)" using assms(2) by (simp add: Suc_leI)
    show "search_inv rels (2 - 1) ?st0 \<and> kept pinfo ?st0" using search_start [OF assms(1-3)] assms(5) by (auto simp: kept_def)
  qed
  then show "kept pinfo st" using first_of_level [OF assms(6) [unfolded join_search_def]] by auto
qed

subsection \<open>Properties of the search\<close>

text \<open>The dynamic programming enumerates by size: when \<open>join_search\<close> returns for disjoint, non-empty initial relations, level \<open>j\<close> lists only
  joins of exactly \<open>j\<close> of them, no set of relations twice, and the last level is the one relation that is returned, which joins all of
  them.\<close>

lemma join_search_levels:
  assumes "separate rels" "rels \<noteq> []" "\<forall>r\<in>set rel_list. \<forall>j\<ge>2. \<not> joins rels j r"
    and "join_search pb finish pinfo (length rels) rels rel_list p = Inr (rel, st)"
  shows "(\<forall>j\<in>{1..length rels}. (\<forall>r\<in>set (join_rel_level st ! j). joins rels j r) \<and> distinct (map (members \<circ> relids) (join_rel_level st ! j))) \<and>
    join_rel_level st ! length rels = [rel] \<and> members (relids rel) = (\<Union>r\<in>set rels. members (relids r))"
proof -
  note inv = join_search_inv [OF assms]
  show ?thesis using search_invD(4,5) [OF inv(1)] final_level [OF inv(1) assms(2) inv(2)] by auto
qed

text \<open>C6: The search is complete for plain queries: with no special joins and no lateral references, whatever the join clauses are, and as long as
  paths can be built, \<open>join_search\<close> never reports that there is no join of some number of relations. It returns the one relation of the last
  level, which joins all the initial relations, and every level on the way lists joins of exactly that many of them, none twice.\<close>

theorem join_search_returns:
  assumes "separate rels" "rels \<noteq> []" "\<forall>r\<in>set rel_list. \<forall>j\<ge>2. \<not> joins rels j r" "plain pinfo" "builds pb" "finishes finish"
  shows "\<exists>rel st. join_search pb finish pinfo (length rels) rels rel_list p = Inr (rel, st) \<and>
    members (relids rel) = (\<Union>r\<in>set rels. members (relids r)) \<and> join_rel_level st ! length rels = [rel] \<and>
    (\<forall>j\<in>{1..length rels}. (\<forall>r\<in>set (join_rel_level st ! j). joins rels j r) \<and> distinct (map (members \<circ> relids) (join_rel_level st ! j)))"
proof -
  obtain rel st where run: "join_search pb finish pinfo (length rels) rels rel_list p = Inr (rel, st)"
    using join_search_progress [OF assms] by blast
  with join_search_levels [OF assms(1-3) run] show ?thesis by blast
qed

text \<open>C5: Outer joins keep their order: if the disjoint initial relations respect every special join other than a semijoin, and the sides of
  each special join are disjoint, so does every relation on every level. No relation holds a part of the nullable side of a full or anti join together with anything else before both sides are complete, and none holds
  parts of both sides of a left join before it can be done.\<close>

theorem join_search_keeps_order:
  assumes "separate rels" "rels \<noteq> []" "\<forall>r\<in>set rel_list. \<forall>j\<ge>2. \<not> joins rels j r" "sides_apart pinfo"
    and "\<forall>r\<in>set rels \<union> set rel_list. ordered pinfo r"
    and "join_search pb finish pinfo (length rels) rels rel_list p = Inr (rel, st)"
    and "r \<in> set (join_rel_level st ! j)" "j \<le> length rels" "sj \<in> set (join_info_list pinfo)" "jointype sj \<noteq> JOIN_SEMI"
  shows "sj_respected sj (members (relids r))"
proof -
  have "join_rel_level st ! j \<in> set (join_rel_level st)"
    using search_invD(2) [OF join_search_inv(1) [OF assms(1-3,6)]] assms(8) by simp
  then show ?thesis using join_search_kept [OF assms(1-6)] assms(7,9,10) by (auto simp: kept_def ordered_def)
qed

subsection \<open>A query\<close>

text \<open>The relations 1, 2 and 3; the store counts the calls that add paths.\<close>

definition sample_rel :: "32 word \<Rightarrow> JoinRel" where
  "sample_rel w = \<lparr>relids = Some [w], lateral_relids = None, direct_lateral_relids = None, lateral_referencers = None, joininfo = [],
     has_eclass_joins = False\<rparr>"

definition sample_rels :: "JoinRel list" where
  "sample_rels = [sample_rel 2, sample_rel 4, sample_rel 8]"

definition sample_builder :: "nat path_builder" where
  "sample_builder = \<lparr>can_unique = \<lambda>_ _. False, implied_equalities = \<lambda>_ _ _. [], set_size = \<lambda>_ _ _ _ _ p. p, is_dummy_rel = \<lambda>_ _. False,
     make_dummy = \<lambda>_ p. p, has_paths = \<lambda>_ _. True, add_paths_to_joinrel = \<lambda>_ _ _ _ _ _ p. Inr (Suc p)\<rparr>"

definition sample_root :: "SpecialJoinInfo list \<Rightarrow> join_root" where
  "sample_root sjs = \<lparr>join_info_list = sjs, placeholder_list = [], eq_classes = [], hasLateralRTEs = False, initial_rels = sample_rels\<rparr>"

text \<open>Relation 1 is left-joined with relation 2.\<close>

definition sample_left :: SpecialJoinInfo where
  "sample_left = \<lparr>min_lefthand = Some [2], min_righthand = Some [4], syn_lefthand = Some [2], syn_righthand = Some [4], jointype = JOIN_LEFT,
     lhs_strict = True\<rparr>"

lemma sample_members: "members (Some [2]) = {1}" "members (Some [4]) = {2}" "members (Some [8]) = {3}"
  using make_singleton_members [of 1] make_singleton_members [of 2] make_singleton_members [of 3]
  by (simp_all add: bms_make_singleton_def WORDNUM_def BITNUM_def push_bit_eq_mult)

lemma sample_separate: "separate sample_rels" "sample_rels \<noteq> []" "length sample_rels = 3"
  by (auto simp: separate_def sample_rels_def sample_rel_def sample_members less_Suc_eq numeral_3_eq_3 nth_Cons')

lemma sample_runs: "builds sample_builder" "finishes (\<lambda>_ p. Inr p)" "plain (sample_root [])"
  by (simp_all add: builds_def sample_builder_def finishes_def plain_def sample_root_def)

theorem join_search_returns_witness:
  "\<exists>rel st. join_search sample_builder (\<lambda>_ p. Inr p) (sample_root []) 3 sample_rels [] 0 = Inr (rel, st) \<and> members (relids rel) = {1, 2, 3} \<and>
     (\<forall>r\<in>set (join_rel_level st ! 2). joins sample_rels 2 r)"
proof -
  have all: "(\<Union>r\<in>set sample_rels. members (relids r)) = {1, 2, 3}" by (auto simp: sample_rels_def sample_rel_def sample_members)
  have none: "\<forall>r\<in>set []. \<forall>j\<ge>2. \<not> joins sample_rels j r" by simp
  from join_search_returns [OF sample_separate(1,2) none sample_runs(3,1,2), of 0]
  have "\<exists>rel st. join_search sample_builder (\<lambda>_ p. Inr p) (sample_root []) 3 sample_rels [] 0 = Inr (rel, st) \<and> members (relids rel) = {1, 2, 3} \<and>
      (\<forall>j\<in>{1..3}. \<forall>r\<in>set (join_rel_level st ! j). joins sample_rels j r)"
    unfolding sample_separate(3) all by blast
  moreover have "2 \<in> {1..3 :: nat}" by simp
  ultimately show ?thesis by blast
qed

lemma sample_left_search:
  "case join_search sample_builder (\<lambda>_ p. Inr p) (sample_root [sample_left]) 3 sample_rels [] 0 of
     Inl _ \<Rightarrow> False
   | Inr (rel, st) \<Rightarrow> map relids (join_rel_level st ! 2) = [Some [6], Some [10]] \<and> relids rel = Some [14]"
  by code_simp

lemma sample_left_ordered: "sides_apart (sample_root [sample_left])" "\<forall>r\<in>set sample_rels \<union> set []. ordered (sample_root [sample_left]) r"
  by (auto simp: sides_apart_def ordered_def sj_respected_def sample_root_def sample_left_def sample_rels_def sample_rel_def sample_members)

theorem join_search_keeps_order_witness:
  "\<exists>rel st. join_search sample_builder (\<lambda>_ p. Inr p) (sample_root [sample_left]) 3 sample_rels [] 0 = Inr (rel, st) \<and>
     map relids (join_rel_level st ! 2) = [Some [6], Some [10]] \<and> (\<forall>r\<in>set (join_rel_level st ! 2). sj_respected sample_left (members (relids r)))"
proof -
  obtain rel st where run: "join_search sample_builder (\<lambda>_ p. Inr p) (sample_root [sample_left]) (length sample_rels) sample_rels [] 0 = Inr (rel, st)"
    and level: "map relids (join_rel_level st ! 2) = [Some [6], Some [10]]"
    using sample_left_search by (auto simp: sample_separate split: sum.splits)
  have "sj_respected sample_left (members (relids r))" if "r \<in> set (join_rel_level st ! 2)" for r
    using join_search_keeps_order [OF sample_separate(1,2) _ sample_left_ordered run that, of sample_left]
    by (simp add: sample_separate sample_root_def sample_left_def)
  with run level show ?thesis by (auto simp: sample_separate)
qed

end
