(* ===== verification/PlanGeneration.thy ===== *)
theory PlanGeneration
  imports PlanChoice Preprocessing JoinRels
begin

text \<open>
  The hooks of the extension that run inside the planner (\<^verbatim>\<open>contrib/aqo/plan_generation.c\<close>): \<^verbatim>\<open>aqo_set_rel_pathlist\<close>
  puts the mode and the rates of the exploration into \<^verbatim>\<open>PlannerInfo\<close>, \<^verbatim>\<open>aqo_join_search\<close> copies the predicted cost
  there and runs the join search, choosing the cheapest paths of each relation in the mode set before.

  The store of the search maps the relids of a relation to its \<^verbatim>\<open>RelOptInfo\<close>. The construction of paths, which reads
  \<^verbatim>\<open>PlannerInfo\<close>, and \<^verbatim>\<open>generate_gather_paths\<close> are arguments.

  The lemmas show what the returned relation is and that its paths were chosen on the frontier of cost and exploration
  value, and which prediction the search of a query uses that the planner hook has ignored.
\<close>

record PlannerInfo =
  root_join :: join_root
  root_search_plan_mode :: int
  root_rate_to_generate_explore_plan :: real
  root_rate_to_compare_best_est_cost :: real
  root_prune_rate_for_add_path_explore :: real
  root_best_estimate_cost_of_current_query :: cost

type_synonym rel_paths = "Relids \<Rightarrow> RelOptInfo"

definition aqo_set_rel_pathlist :: "AQO_MODE \<Rightarrow> PlannerInfo \<Rightarrow> PlannerInfo" where
  "aqo_set_rel_pathlist mode pinfo =
     (if mode = AQO_MODE_DISABLED then pinfo\<lparr>root_search_plan_mode := 0\<rparr>
      else pinfo\<lparr>root_search_plan_mode := 2, root_rate_to_generate_explore_plan := rate_to_generate_explore_plan,
             root_rate_to_compare_best_est_cost := rate_to_compare_best_est_cost,
             root_prune_rate_for_add_path_explore := prune_rate_for_add_path_explore\<rparr>)"

definition finish_rel ::
    "(JoinRel \<Rightarrow> rel_paths \<Rightarrow> rel_paths) \<Rightarrow> PlannerInfo \<Rightarrow> JoinRel \<Rightarrow> rel_paths \<Rightarrow> rel_paths result" where
  "finish_rel generate_gather_paths pinfo rel p =
     (let p = generate_gather_paths rel p
      in bind_result (if root_search_plan_mode pinfo = 0 then set_cheapest (p (relids rel)) else set_cheapest_explore (p (relids rel)))
           (\<lambda>r. Inr (p(relids rel := r))))"

definition aqo_join_search ::
    "(PlannerInfo \<Rightarrow> rel_paths path_builder) \<Rightarrow> (PlannerInfo \<Rightarrow> JoinRel \<Rightarrow> rel_paths \<Rightarrow> rel_paths) \<Rightarrow> QueryContextData \<Rightarrow>
     PlannerInfo \<Rightarrow> nat \<Rightarrow> JoinRel list \<Rightarrow> JoinRel list \<Rightarrow> rel_paths \<Rightarrow> (JoinRel \<times> PlannerInfo \<times> rel_paths join_state) result" where
  "aqo_join_search builder generate_gather_paths context pinfo levels_needed rels rel_list p =
     (let pinfo = pinfo\<lparr>root_best_estimate_cost_of_current_query := best_pred_cost context\<rparr>
      in bind_result (join_search (builder pinfo) (finish_rel (generate_gather_paths pinfo) pinfo) (root_join pinfo) levels_needed rels rel_list p)
           (\<lambda>(rel, st). Inr (rel, pinfo, st)))"

subsection \<open>The last level\<close>

lemma fold_result_append: "fold_result f (xs @ ys) s = bind_result (fold_result f xs s) (fold_result f ys)"
proof (induction xs arbitrary: s)
  case (Cons x xs)
  then show ?case by (cases "f x s") simp_all
qed simp

lemma finish_fold_levels:
  "fold_result (\<lambda>rel st. bind_result (finish rel (path_store st)) (\<lambda>p. Inr (st\<lparr>path_store := p\<rparr>))) rels s = Inr (st :: 'p join_state) \<Longrightarrow>
   join_rel_level st = join_rel_level s"
  by (induction rels arbitrary: s) (fastforce simp: bind_result_Inr)+

lemma last_level_finished:
  assumes "separate rels" "2 \<le> length rels" "\<forall>r\<in>set rel_list. \<forall>j\<ge>2. \<not> joins rels j r"
    and "join_search pb finish pinfo (length rels) rels rel_list p = Inr (rel, st)"
  obtains p0 where "finish rel p0 = Inr (path_store st)"
proof -
  let ?n = "length rels" and ?step = "\<lambda>rel st. bind_result (finish rel (path_store st)) (\<lambda>p. Inr (st\<lparr>path_store := p\<rparr>))"
  have ne: "rels \<noteq> []" and upt: "[2..<Suc ?n] = [2..<?n] @ [?n]" using assms(2) by auto
  note inv = join_search_inv [OF assms(1) ne assms(3,4)]
  note run = first_of_level(1) [OF assms(4) [unfolded join_search_def]]
  from run obtain s1 where "search_level pb finish pinfo ?n s1 = Inr st"
    unfolding upt fold_result_append by (auto simp: bind_result_Inr)
  then obtain s2 where fin: "fold_result ?step (join_rel_level s2 ! ?n) s2 = Inr st"
    by (auto simp: search_level_def bind_result_Inr)
  have "join_rel_level s2 ! ?n = [rel]"
    using final_level(1) [OF inv(1) ne inv(2)] finish_fold_levels [OF fin] by simp
  with fin that show thesis by (auto simp: bind_result_Inr)
qed

lemma aqo_join_search_run:
  assumes "aqo_join_search builder gather c pinfo n rels rel_list p = Inr (rel, pinfo', st)"
  shows "pinfo' = pinfo\<lparr>root_best_estimate_cost_of_current_query := best_pred_cost c\<rparr>"
    "join_search (builder pinfo') (finish_rel (gather pinfo') pinfo') (root_join pinfo') n rels rel_list p = Inr (rel, st)"
  using assms by (auto simp: aqo_join_search_def Let_def bind_result_Inr)

lemma set_cheapest_explore_result:
  assumes "set_cheapest_explore r0 = Inr r" "unparameterized (pathlist r) \<noteq> []"
  shows "\<exists>t. cheapest_total_path r = Some t \<and> t \<in> set (unparameterized (pathlist r)) \<and>
      (\<forall>p\<in>set (unparameterized (pathlist r)). total_cost t \<le> total_cost p)"
    "frontier_inv (cheapest_cost_explore_pathlist r) (set (unparameterized (pathlist r)))"
proof -
  have paths: "pathlist r = pathlist r0"
    using assms(1) unfolding set_cheapest_explore_def set_cheapest_fields_def Let_def
    by (auto split: if_split_asm)
  with assms(2) have ne: "unparameterized (pathlist r0) \<noteq> []" by simp
  show "frontier_inv (cheapest_cost_explore_pathlist r) (set (unparameterized (pathlist r)))"
  proof (rule set_cheapest_explore_extends [OF ne])
    fix rel0 fs assume "set_cheapest_explore r0 = Inr (rel0\<lparr>cheapest_cost_explore_pathlist := fs\<rparr>)" "frontier_inv fs (set (unparameterized (pathlist r0)))"
    with assms(1) show ?thesis unfolding paths by auto
  qed
  show "\<exists>t. cheapest_total_path r = Some t \<and> t \<in> set (unparameterized (pathlist r)) \<and>
      (\<forall>p\<in>set (unparameterized (pathlist r)). total_cost t \<le> total_cost p)"
  proof (rule set_cheapest_explore_extends [OF ne], rule set_cheapest_least [OF ne])
    fix rel0 fs rel' t s
    assume "set_cheapest r0 = Inr rel0" "set_cheapest_explore r0 = Inr (rel0\<lparr>cheapest_cost_explore_pathlist := fs\<rparr>)"
      and "set_cheapest r0 = Inr rel'" and t: "cheapest_total_path rel' = Some t" "t \<in> set (unparameterized (pathlist r0))"
      and least: "\<forall>p\<in>set (unparameterized (pathlist r0)). compare_path_costs t p TOTAL_COST \<le> 0 \<and> compare_path_costs s p STARTUP_COST \<le> 0"
    with assms(1) have "cheapest_total_path r = Some t" by auto
    moreover have "total_cost t \<le> total_cost p" if "p \<in> set (unparameterized (pathlist r0))" for p
      using least that unfolding compare_path_costs_total(1) by force
    ultimately show ?thesis using t(2) unfolding paths by blast
  qed
qed

lemma finish_rel_explore:
  assumes "finish_rel gather pinfo rel p0 = Inr p" "root_search_plan_mode pinfo \<noteq> 0"
  obtains r0 where "set_cheapest_explore r0 = Inr (p (relids rel))"
  using assms by (cases "set_cheapest_explore (gather rel p0 (relids rel))") (auto simp: finish_rel_def Let_def)

subsection \<open>Properties of the hooks\<close>

text \<open>The exploratory join search: when the extension is not disabled and the search of at least two relations returns, the relation joins
  all of them, the search ran with the prediction of the query context and the configured rates, and the paths of the relation are
  those of \<^verbatim>\<open>set_cheapest_explore\<close>: with an unparameterized path there is a cheapest one, and the kept list is the frontier of
  cost and exploration value.\<close>

lemma aqo_join_search_result:
  assumes "separate rels" "2 \<le> length rels" "\<forall>r\<in>set rel_list. \<forall>j\<ge>2. \<not> joins rels j r" "mode \<noteq> AQO_MODE_DISABLED"
    and "aqo_join_search builder gather c (aqo_set_rel_pathlist mode pinfo) (length rels) rels rel_list p = Inr (rel, pinfo', st)"
    and "r = path_store st (relids rel)" "unparameterized (pathlist r) \<noteq> []"
  shows "members (relids rel) = (\<Union>r\<in>set rels. members (relids r)) \<and> root_search_plan_mode pinfo' = 2 \<and>
    root_best_estimate_cost_of_current_query pinfo' = best_pred_cost c \<and>
    root_prune_rate_for_add_path_explore pinfo' = 101 / 100 \<and> root_rate_to_generate_explore_plan pinfo' = 1 / 100 \<and>
    (\<exists>t\<in>set (unparameterized (pathlist r)). cheapest_total_path r = Some t \<and> (\<forall>q\<in>set (unparameterized (pathlist r)). total_cost t \<le> total_cost q)) \<and>
    (\<forall>q\<in>set (unparameterized (pathlist r)). \<exists>f\<in>set (cheapest_cost_explore_pathlist r). weakly_better f q) \<and>
    (\<forall>f\<in>set (cheapest_cost_explore_pathlist r). \<forall>q\<in>set (unparameterized (pathlist r)). \<not> strictly_better q f)"
proof -
  have ne: "rels \<noteq> []" using assms(2) by auto
  note run = aqo_join_search_run [OF assms(5)]
  have root: "root_search_plan_mode pinfo' = 2" "root_prune_rate_for_add_path_explore pinfo' = 101 / 100"
    "root_rate_to_generate_explore_plan pinfo' = 1 / 100" "root_best_estimate_cost_of_current_query pinfo' = best_pred_cost c"
    using run(1) assms(4) by (simp_all add: aqo_set_rel_pathlist_def prune_rate_for_add_path_explore_def rate_to_generate_explore_plan_def)
  obtain p0 where "finish_rel (gather pinfo') pinfo' rel p0 = Inr (path_store st)"
    by (rule last_level_finished [OF assms(1-3) run(2)])
  then obtain r0 where r0: "set_cheapest_explore r0 = Inr r"
    by (rule finish_rel_explore) (simp_all add: root(1) assms(6))
  note inv = join_search_inv [OF assms(1) ne assms(3) run(2)]
  note res = set_cheapest_explore_result [OF r0 assms(7)]
  show ?thesis
    using root final_level(2) [OF inv(1) ne inv(2)] res(1) frontier_inv_antichain [OF res(2)] frontier_inv_cover [OF res(2)] by blast
qed

text \<open>A prediction outlives its query: for a query that the planner hook ignores or whose template is unknown, the hook leaves the
  predicted cost of an earlier query in the context; unless the extension is disabled the join search still explores and prunes,
  against that stale prediction.\<close>

lemma ignored_query_uses_stale_prediction:
  assumes "template_of env parse qtext = 0" "aqo_mode env \<noteq> AQO_MODE_DISABLED"
  shows "\<exists>s'. aqo_planner env parse qtext s = Inr s' \<and> \<not> use_aqo (query_context s') \<and>
    (\<forall>builder gather pinfo n rels rel_list p rel pinfo' st.
       aqo_join_search builder gather (query_context s') (aqo_set_rel_pathlist (aqo_mode env) pinfo) n rels rel_list p = Inr (rel, pinfo', st) \<longrightarrow>
       root_search_plan_mode pinfo' = 2 \<and> root_best_estimate_cost_of_current_query pinfo' = best_pred_cost (query_context s))"
proof -
  obtain s' where s': "aqo_planner env parse qtext s = Inr s'" "\<not> use_aqo (query_context s')"
    "best_pred_cost (query_context s') = best_pred_cost (query_context s)"
    using assms(1) by (cases "aqo_ignores env parse qtext") (auto simp: aqo_planner_unfold Let_def)
  then show ?thesis using assms(2) by (auto simp: aqo_set_rel_pathlist_def dest!: aqo_join_search_run(1))
qed


end
