(* ===== verification/Spec2Isabelle.thy ===== *)
theory Spec2Isabelle
  imports FeatureSubspace PlanGeneration
begin

text \<open>
  A verification development for PostgreSQL 10.0 with the exploratory optimizer: the path selection of the
  planner that was extended by an exploration value, and the adaptive query optimization extension
  \<^verbatim>\<open>contrib/aqo\<close> that learns cardinalities and costs. File names below are relative to
  \<^verbatim>\<open>src/postgresql-10.0-with-exploratory-optimizer/\<close>.

  \<^bold>\<open>How the parts interact.\<close> For each query the planner hook of the extension looks up the settings of the
  query, records its template in a history, predicts its best cost from the recorded best costs and puts the
  prediction into the query context; the join search copies it into \<^verbatim>\<open>PlannerInfo\<close>. While paths are built
  for a relation, each is offered to \<^verbatim>\<open>add_path\<close> or, in the exploratory mode, to \<^verbatim>\<open>add_path_explore\<close>,
  which prunes against the predicted cost. The join search enumerates join relations level by level and finishes each of them. When a relation is complete, \<^verbatim>\<open>set_cheapest\<close> or
  \<^verbatim>\<open>set_cheapest_explore\<close> picks its representative paths, and \<^verbatim>\<open>standard_planner\<close> chooses the final
  path. Cardinalities come from a feature subspace, computed from hashes of the clauses, and from the rows stored
  for it. After execution the extension learns the observed cardinalities, records the observed best costs and
  tunes its own settings.

  \<^bold>\<open>Foundations.\<close>
  \<^item> \<open>Prelude\<close>: result type of fallible code (\<open>Inl\<close> an error; \<open>Undefined\<close> stands for undefined behaviour of C: an access
    outside an array, a null pointer, a number that is not finite), C integers as words, generic lemmas.
  \<^item> \<open>JenkinsHash\<close>: \<^verbatim>\<open>hash_any\<close> of \<^verbatim>\<open>src/backend/access/hash/hashfunc.c\<close> on both byte orders, for aligned and
    unaligned keys; the two reading paths agree.
  \<^item> \<open>Bitmapset\<close>: \<^verbatim>\<open>src/backend/nodes/bitmapset.c\<close> over 32 bit words; each operation computes the set
    operation, comparison or enumeration it stands for.
  \<^item> \<open>PgSort\<close>: \<^verbatim>\<open>src/port/qsort.c\<close> with its presorted check, pivot choice and three-way partition; the result
    is an ordered permutation for every total preorder, and the recursion terminates.

  \<^bold>\<open>Path selection\<close> (\<^verbatim>\<open>src/backend/optimizer/util/pathnode.c\<close>, \<^verbatim>\<open>plan/planner.c\<close>, \<^verbatim>\<open>path/pathkeys.c\<close>).
  \<^item> \<open>PathCost\<close>: paths and relations as records, the cost, pathkey and parameterization comparisons.
  \<^item> \<open>PathTournament\<close>: the loop that \<^verbatim>\<open>add_path\<close>, \<^verbatim>\<open>add_partial_path\<close> and \<^verbatim>\<open>add_path_explore\<close> share, as a
    locale over the verdict of one comparison, interpreted for the three.
  \<^item> \<open>AddPath\<close>, \<open>ExplorePath\<close>: the three operations with their prechecks. Whatever is offered stays dominated by a
    kept path, up to the fuzz factors; exactly the paths that left the list and are not index paths are released;
    the prechecks reject only what the operation would reject.
  \<^item> \<open>CheapestPath\<close>: \<^verbatim>\<open>set_cheapest\<close> and \<^verbatim>\<open>set_cheapest_explore\<close>; the latter keeps a Pareto frontier of cost and
    exploration value.
  \<^item> \<open>PlanChoice\<close>: the choice of the final path in its four variants, with the regret that each may incur.

  \<^bold>\<open>Join search\<close> (\<^verbatim>\<open>path/joinrels.c\<close>, with parts of \<^verbatim>\<open>path/allpaths.c\<close>, \<^verbatim>\<open>path/equivclass.c\<close>, \<^verbatim>\<open>util/relnode.c\<close>,
  \<^verbatim>\<open>util/joininfo.c\<close>, \<^verbatim>\<open>util/placeholder.c\<close> below \<^verbatim>\<open>src/backend/optimizer/\<close>, and \<^verbatim>\<open>contrib/aqo/plan_generation.c\<close>).
  \<^item> \<open>JoinRels\<close>: the dynamic programming over sets of relations, the legality of joins and the join order restrictions. The locale
    \<open>level_invariant\<close> lifts what one join keeps to a whole level, \<open>level_progress\<close> that a level is not left empty. Level \<open>j\<close> lists
    joins of exactly \<open>j\<close> initial relations, none twice; the search returns for every query without special joins and lateral
    references; special joins other than semijoins are done in order; and the legality test is symmetric.
  \<^item> \<open>PlanGeneration\<close>: the hooks \<^verbatim>\<open>aqo_set_rel_pathlist\<close> and \<^verbatim>\<open>aqo_join_search\<close>; the relation they return carries the frontier of cost and
    exploration value, and a query ignored by the planner hook is searched with the prediction for an earlier one.

  \<^bold>\<open>Feature subspaces\<close> (\<^verbatim>\<open>contrib/aqo/utils.c\<close>, \<^verbatim>\<open>hash.c\<close>).
  \<^item> \<open>AqoUtils\<close>: comparison functions, \<^verbatim>\<open>argsort\<close> and \<^verbatim>\<open>inverse_permutation\<close>.
  \<^item> \<open>AqoHash\<close>: hashes of queries, nodes and clauses over the printed form of a node; constants, locations and
    range table indices have no influence.
  \<^item> \<open>Eclasses\<close>: equivalence classes of clause arguments by a disjoint-set forest; the classes are those of the
    equivalence closure of the equality clauses.
  \<^item> \<open>FeatureSubspace\<close>: \<^verbatim>\<open>get_fss_for_object\<close>; its in-place compaction and sorting computes a reference
    definition, and the result does not depend on the order of clauses and relations.

  \<^bold>\<open>Learning\<close> (\<^verbatim>\<open>contrib/aqo/machine_learning.c\<close>, \<^verbatim>\<open>selectivity_cache.c\<close>, \<^verbatim>\<open>storage.c\<close>, \<^verbatim>\<open>plan_generation.c\<close>,
  \<^verbatim>\<open>auto_tuning.c\<close>, \<^verbatim>\<open>preprocessing.c\<close>, parts of \<^verbatim>\<open>postprocessing.c\<close>).
  \<^item> \<open>AqoContext\<close>: modes, constants, the query context and the statistics object.
  \<^item> \<open>MachineLearning\<close>: the nearest-neighbour model; its insertion loops select the rows a stable sort by distance
    selects, predictions stay within the stored targets, and learning fails exactly on a repeated sample in a full matrix.
  \<^item> \<open>SelectivityCache\<close>: the per-query cache of selectivities returns the first value stored for a key.
  \<^item> \<open>Storage\<close>: the service relations as maps from key to row, with the array formats of the rows. Each access returns
    the state in which the query goes on; the status of \<^verbatim>\<open>heap_update\<close> is an argument, so every interleaving with
    other sessions is covered. The locale \<open>training_store\<close> states what load and update promise to a learning step, and is
    interpreted for the feature subspaces and for the data of receptive fields.
  \<^item> \<open>BestCosts\<close>: the record of best costs only improves, and predictions are never negative.
  \<^item> \<open>AutoTuning\<close>: statistics are sliding windows, convergence is detected, and the tuning decision.
  \<^item> \<open>HashEval\<close>: rules that evaluate the query hash of a concrete text, for the examples of the next theory.
  \<^item> \<open>Preprocessing\<close>: the planner hook. Along all runs the stored history is the window of the last three templates; ignored queries change
    no relation, and during recovery nothing is learned.

  The present theory composes path selection with the final choice.

  \<^bold>\<open>Modelling decisions.\<close> Costs, row counts, features and other doubles are exact reals, so rounding is not covered; a
  quotient by 0 is an error value where it is stored. C integers keep their width where the code computes with them
  (hashes, counters, array sizes). Lists are lists; pointer identity of paths is an identifier of the path. Fresh
  memory from \<^verbatim>\<open>palloc\<close> is an argument. Loops are recursive functions with a termination proof, so no fuel is
  used except in the union-find loops of \<open>Eclasses\<close>, which are partial functions and proved to return.
  \<^verbatim>\<open>nodeToString\<close>, the bytes of a double, the clock, catalog membership, recovery and parallel status are
  arguments of the definitions that use them.

  \<^bold>\<open>Not modelled.\<close> The locally weighted projection regression (\<^verbatim>\<open>machine_learning_lwpr.c\<close> apart from its
  data rows, and \<^verbatim>\<open>load_fss_rfwr\<close>, \<^verbatim>\<open>update_fss_rfwr\<close>): floating-point numerics whose properties are
  statistical. \<^verbatim>\<open>cardinality_hooks.c\<close>, \<^verbatim>\<open>cardinality_estimation.c\<close>, \<^verbatim>\<open>path_utils.c\<close> and the plan tree walk of
  \<^verbatim>\<open>postprocessing.c\<close>: glue between PostgreSQL's node trees and the functions above. The construction of paths and
  their costs (the rest of \<^verbatim>\<open>allpaths.c\<close>, \<^verbatim>\<open>joinpath.c\<close>, \<^verbatim>\<open>costsize.c\<close> and so on), which the join search takes as an argument, the executor, the storage engine, the parser,
  the catalogs, replication, client tools and libraries of PostgreSQL: the modelled parts only call them or are called by
  them. Memory management beyond bounds of arrays, and logging.
\<close>

section \<open>From the offered paths to the chosen plan\<close>

lemma unparameterized_kept:
  assumes "\<forall>p \<in> set news. explore_ok cs cps p" "0 \<le> best_pred" "p \<in> set news" "param_info p = None"
    and "best_pred = 0 \<or> total_cost p \<le> best_pred * prune"
  obtains q where "q \<in> set (unparameterized (pathlist (add_paths_explore best_pred prune (empty_rel cs cps) news)))"
    "total_cost q \<le> STD_FUZZ_FACTOR ^ (2 * length news) * total_cost p"
    "explore_value p \<le> ev_fuzzy_r ^ (2 * length news) * explore_value q"
proof -
  obtain q where q: "q \<in> set (pathlist (add_paths_explore best_pred prune (empty_rel cs cps) news))"
    "explore_dominates (2 * length news) q p"
    using unpruned_dominated [OF assms(1, 2) unpruned_cheap [OF assms(3, 5)]] by blast
  have "members (PATH_REQ_OUTER q) \<subseteq> members (PATH_REQ_OUTER p)"
    using q(2) by (simp add: explore_dominates_def path_dominates_def merits_le_def)
  also have "members (PATH_REQ_OUTER p) = {}" using assms(4) by (simp add: PATH_REQ_OUTER_def)
  finally have "param_info q = None"
    using add_paths_explore_ok [OF assms(1, 2), of prune] q(1) by (auto simp: explore_ok_def path_ok_def)
  then show thesis using q that by (auto simp: explore_dominates_def path_dominates_def costs_le_def)
qed

text \<open>C1: bounded regret of exploratory planning from end to end. Offer any sequence of well-formed paths to
  \<^verbatim>\<open>add_path_explore\<close>, then run \<^verbatim>\<open>set_cheapest_explore\<close> and let \<^verbatim>\<open>standard_planner\<close>
  choose in its exploratory mode. The choice never fails when an unparameterized path within the pruning
  bound was offered; it is one of the offered paths; its cost is at most (1 + rate) times that of any such path,
  up to the fuzz factor; and if such a path fits the budget, up to the fuzz factor, then its exploration value
  is at most that of the choice, up to the fuzz factor for exploration values.\<close>

theorem exploratory_planning_bounded_regret:
  assumes "\<forall>p \<in> set news. explore_ok cs cps p" "0 \<le> best_pred" "0 \<le> rate" "search_plan_mode \<noteq> 0"
    and "p \<in> set news" "param_info p = None" "best_pred = 0 \<or> total_cost p \<le> best_pred * prune"
  shows "\<exists>rel ct b. set_cheapest_explore (add_paths_explore best_pred prune (empty_rel cs cps) news) = Inr rel \<and>
    cheapest_total_path rel = Some ct \<and> planner_best_path search_plan_mode rel 0 rate = Some b \<and> b \<in> set news \<and>
    total_cost b \<le> (1 + rate) * (STD_FUZZ_FACTOR ^ (2 * length news) * total_cost p) \<and>
    (STD_FUZZ_FACTOR ^ (2 * length news) * total_cost p \<le> (1 + rate) * total_cost ct \<longrightarrow>
       explore_value p \<le> ev_fuzzy_r ^ (2 * length news) * explore_value b)"
proof -
  let ?rel = "add_paths_explore best_pred prune (empty_rel cs cps) news"
  have ok: "\<forall>p \<in> set (pathlist ?rel). explore_ok cs cps p \<and> p \<in> set news" using assms(1, 2) by (rule add_paths_explore_ok)
  obtain q where q: "q \<in> set (unparameterized (pathlist ?rel))"
    "total_cost q \<le> STD_FUZZ_FACTOR ^ (2 * length news) * total_cost p"
    "explore_value p \<le> ev_fuzzy_r ^ (2 * length news) * explore_value q"
    using unparameterized_kept [OF assms(1, 2, 5, 6, 7)] by blast
  have ne: "unparameterized (pathlist ?rel) \<noteq> []" by (rule length_pos_if_in_set [OF q(1), unfolded length_greater_0_conv])
  obtain rel0 ct where rel0: "set_cheapest ?rel = Inr rel0" "pathlist rel0 = pathlist ?rel"
    "cheapest_total_path rel0 = Some ct" "ct \<in> set (unparameterized (pathlist ?rel))"
    and least: "\<forall>p \<in> set (unparameterized (pathlist ?rel)). compare_path_costs ct p TOTAL_COST \<le> 0"
    using set_cheapest_least [OF ne] by metis
  obtain paths where rel: "set_cheapest_explore ?rel = Inr (rel0\<lparr>cheapest_cost_explore_pathlist := paths\<rparr>)"
    using set_cheapest_explore_extends [OF ne] rel0(1) by (metis sum.inject(2))
  let ?rel' = "rel0\<lparr>cheapest_cost_explore_pathlist := paths\<rparr>"
  have "0 \<le> total_cost ct" using ok rel0(4) by (auto simp: explore_ok_def path_ok_def)
  then obtain b where b: "get_cheapest_explore_fractional_path ?rel' 0 rate = Some b" "b \<in> insert ct (set (pathlist ?rel'))"
    "total_cost b \<le> total_cost ct * (1 + rate)"
    "\<forall>p \<in> set (pathlist ?rel'). total_cost p \<le> total_cost ct * (1 + rate) \<longrightarrow> explore_value p \<le> explore_value b"
    using explore_choice_total [of ?rel' ct rate 0] rel0(3) assms(3) by (metis RelOptInfo.select_convs(6)
        RelOptInfo.surjective RelOptInfo.update_convs(9) order_refl)
  have "total_cost ct \<le> total_cost q" using least q(1) by (auto simp: compare_path_costs_total)
  then have "(1 + rate) * total_cost ct \<le> (1 + rate) * (STD_FUZZ_FACTOR ^ (2 * length news) * total_cost p)"
    using q(2) assms(3) by (intro mult_left_mono) auto
  then have "total_cost b \<le> (1 + rate) * (STD_FUZZ_FACTOR ^ (2 * length news) * total_cost p)"
    using b(3) mult.commute [of "total_cost ct" "1 + rate"] by linarith
  moreover have "explore_value p \<le> ev_fuzzy_r ^ (2 * length news) * explore_value b"
    if "STD_FUZZ_FACTOR ^ (2 * length news) * total_cost p \<le> (1 + rate) * total_cost ct"
  proof -
    have "explore_value q \<le> explore_value b" using b(4) q(1, 2) that rel0(2) by (auto simp: mult.commute)
    then have "ev_fuzzy_r ^ (2 * length news) * explore_value q \<le> ev_fuzzy_r ^ (2 * length news) * explore_value b"
      by (intro mult_left_mono) simp_all
    then show ?thesis using q(3) by linarith
  qed
  moreover have "b \<in> set news" using b(2) ok rel0(2, 4) by auto
  ultimately show ?thesis using rel rel0(3) b(1) assms(4) by (auto simp: planner_best_path_def)
qed

theorem exploratory_planning_bounded_regret_witness:
  "\<exists>rel b. set_cheapest_explore (add_paths_explore 0 1 (empty_rel True False) [sample_path 1 5 100 1, sample_path 2 1 130 2]) = Inr rel \<and>
     planner_best_path 1 rel 0 (1 / 2) = Some b \<and> b \<in> {sample_path 1 5 100 1, sample_path 2 1 130 2} \<and>
     total_cost b \<le> 3 / 2 * ((101 / 100) ^ 4 * 100)"
  using exploratory_planning_bounded_regret [of "[sample_path 1 5 100 1, sample_path 2 1 130 2]" True False 0 "1 / 2" 1
      "sample_path 1 5 100 1" 1]
  by (auto simp: explore_ok_def path_ok_def sample_path_def STD_FUZZ_FACTOR_def)

end
